(* ===== verification/Prelude.thy ===== *)
theory Prelude
  imports Main "HOL-Library.Word"
begin

text \<open>
  Prelude of the xv6 development: the machine integer types of kernel/types.h,
  the outcome type and sequencing operators in which the stateful kernel
  routines are written, little-endian loads and stores, page arithmetic from
  kernel/riscv.h and kernel/memlayout.h, and the generic lemmas that the
  component theories share.

  A kernel routine is a function from a state to an \<open>outcome\<close>: it returns
  a value and a new state, it stops the machine with \<open>panic\<close>, or it gives
  up the CPU; the state of \<open>Sleep\<close> is the one in which the context switch happens.
\<close>

unbundle bit_operations_syntax

section \<open>Machine integers (kernel/types.h)\<close>

type_synonym u8 = "8 word"
type_synonym u16 = "16 word"
type_synonym u32 = "32 word"
type_synonym u64 = "64 word"

named_theorems kdefs \<open>definitions of the kernel sequencing operators\<close>
named_theorems mem_simps \<open>loads after stores\<close>
named_theorems page_simps \<open>page arithmetic\<close>

section \<open>Outcomes of kernel routines\<close>

datatype ('a, 's) outcome = Ret 'a 's | Panic string | Sleep 's

definition kret :: "'a \<Rightarrow> 's \<Rightarrow> ('a, 's) outcome" where
  "kret x s = Ret x s"

definition kpanic :: "string \<Rightarrow> 's \<Rightarrow> ('a, 's) outcome" where
  "kpanic msg s = Panic msg"

definition ksleep :: "'s \<Rightarrow> ('a, 's) outcome" where
  "ksleep s = Sleep s"

definition kget :: "('s \<Rightarrow> 'a) \<Rightarrow> 's \<Rightarrow> ('a, 's) outcome" where
  "kget f s = Ret (f s) s"

definition kput :: "('s \<Rightarrow> 's) \<Rightarrow> 's \<Rightarrow> (unit, 's) outcome" where
  "kput f s = Ret () (f s)"

definition kbind ::
  "('s \<Rightarrow> ('a, 's) outcome) \<Rightarrow> ('a \<Rightarrow> 's \<Rightarrow> ('b, 's) outcome) \<Rightarrow> 's \<Rightarrow> ('b, 's) outcome" where
  "kbind m f s = (case m s of Ret x t \<Rightarrow> f x t | Panic e \<Rightarrow> Panic e | Sleep t \<Rightarrow> Sleep t)"

definition kthen ::
  "('s \<Rightarrow> ('a, 's) outcome) \<Rightarrow> ('s \<Rightarrow> ('b, 's) outcome) \<Rightarrow> 's \<Rightarrow> ('b, 's) outcome" where
  "kthen m n = kbind m (\<lambda>_. n)"

text \<open>Run a routine on every element of a list, left to right.\<close>

primrec kfor :: "('x \<Rightarrow> 's \<Rightarrow> (unit, 's) outcome) \<Rightarrow> 'x list \<Rightarrow> 's \<Rightarrow> (unit, 's) outcome" where
  "kfor f [] s = Ret () s"
| "kfor f (x # xs) s = kthen (f x) (kfor f xs) s"

text \<open>The same with an accumulator.\<close>

primrec kfold :: "('x \<Rightarrow> 'a \<Rightarrow> 's \<Rightarrow> ('a, 's) outcome) \<Rightarrow> 'x list \<Rightarrow> 'a \<Rightarrow> 's \<Rightarrow> ('a, 's) outcome" where
  "kfold f [] a s = Ret a s"
| "kfold f (x # xs) a s = kbind (f x a) (kfold f xs) s"

declare kret_def [kdefs] kpanic_def [kdefs] ksleep_def [kdefs] kget_def [kdefs] kput_def [kdefs]

lemma kbind_simps [simp]:
  "m s = Ret x t \<Longrightarrow> kbind m f s = f x t"
  "m s = Panic e \<Longrightarrow> kbind m f s = Panic e"
  "m s = Sleep t \<Longrightarrow> kbind m f s = Sleep t"
  by (simp_all add: kbind_def)

lemma kthen_simps [simp]:
  "m s = Ret x t \<Longrightarrow> kthen m n s = n t"
  "m s = Panic e \<Longrightarrow> kthen m n s = Panic e"
  "m s = Sleep t \<Longrightarrow> kthen m n s = Sleep t"
  by (simp_all add: kthen_def)

lemma kbind_kret [simp]: "kbind (kret x) f s = f x s"
  by (simp add: kbind_def kret_def)

lemma kbind_kget [simp]: "kbind (kget g) f s = f (g s) s"
  by (simp add: kbind_def kget_def)

lemma kthen_kput [simp]: "kthen (kput g) n s = n (g s)"
  by (simp add: kthen_def kbind_def kput_def)

lemma kbind_kpanic [simp]: "kbind (kpanic e) f s = Panic e"
  by (simp add: kbind_def kpanic_def)

lemma kbind_assoc: "kbind (kbind m f) g s = kbind m (\<lambda>x. kbind (f x) g) s"
  by (simp add: kbind_def split: outcome.splits)

lemma kbind_Ret_iff:
  "kbind m f s = Ret y u \<longleftrightarrow> (\<exists>x t. m s = Ret x t \<and> f x t = Ret y u)"
  by (auto simp: kbind_def split: outcome.splits)

lemma kthen_Ret_iff:
  "kthen m n s = Ret y u \<longleftrightarrow> (\<exists>x t. m s = Ret x t \<and> n t = Ret y u)"
  by (simp add: kthen_def kbind_Ret_iff)

lemma kfor_append: "kfor f (xs @ ys) s = kthen (kfor f xs) (kfor f ys) s"
  by (induction xs arbitrary: s) (auto simp: kthen_def kbind_def split: outcome.splits)

text \<open>A loop whose body reads the state and never changes it.\<close>

lemma kfold_read:
  "(\<And>x a. x \<in> set xs \<Longrightarrow> f x a s = Ret (g x a) s) \<Longrightarrow> kfold f xs a s = Ret (fold g xs a) s"
  by (induction xs arbitrary: a) simp_all

text \<open>
  Total correctness of a routine: it returns, and what it returns satisfies
  the postcondition.
\<close>

definition returns :: "('s \<Rightarrow> ('a, 's) outcome) \<Rightarrow> ('a \<Rightarrow> 's \<Rightarrow> bool) \<Rightarrow> 's \<Rightarrow> bool" where
  "returns m Q s \<longleftrightarrow> (case m s of Ret x t \<Rightarrow> Q x t | _ \<Rightarrow> False)"

lemma returns_iff: "returns m Q s \<longleftrightarrow> (\<exists>x t. m s = Ret x t \<and> Q x t)"
  by (auto simp: returns_def split: outcome.splits)

lemma returns_bind: "returns (kbind m f) Q s \<longleftrightarrow> returns m (\<lambda>x. returns (f x) Q) s"
  by (simp add: returns_def kbind_def split: outcome.splits)

lemma returns_then: "returns (kthen m n) Q s \<longleftrightarrow> returns m (\<lambda>_. returns n Q) s"
  by (simp add: kthen_def returns_bind)

lemma returns_weaken: "returns m P s \<Longrightarrow> (\<And>x t. P x t \<Longrightarrow> Q x t) \<Longrightarrow> returns m Q s"
  by (auto simp: returns_iff)

text \<open>A loop over a list keeps an invariant that every iteration keeps.\<close>

lemma returns_kfor:
  assumes "I s" and "\<And>x t. x \<in> set xs \<Longrightarrow> I t \<Longrightarrow> returns (f x) (\<lambda>_. I) t"
  shows "returns (kfor f xs) (\<lambda>_. I) s"
  using assms
proof (induction xs arbitrary: s)
  case Nil
  then show ?case by (simp add: returns_def)
next
  case (Cons x xs)
  have "returns (f x) (\<lambda>_. I) s" using Cons.prems by simp
  then have "returns (f x) (\<lambda>_. returns (kfor f xs) (\<lambda>_. I)) s"
    by (rule returns_weaken) (use Cons.IH Cons.prems in auto)
  then have "returns (kthen (f x) (kfor f xs)) (\<lambda>_. I) s"
    by (simp only: returns_then)
  then show ?case by (simp add: returns_def)
qed

section \<open>Little-endian loads and stores\<close>

text \<open>
  A byte array is a function from offsets (natural numbers inside a disk block)
  or addresses (64-bit words) to bytes.  RISC-V is little-endian.
\<close>

definition load16 :: "('a::{plus,numeral} \<Rightarrow> u8) \<Rightarrow> 'a \<Rightarrow> u16" where
  "load16 m a = ucast (m a) OR push_bit 8 (ucast (m (a + 1)))"

definition load32 :: "('a::{plus,numeral} \<Rightarrow> u8) \<Rightarrow> 'a \<Rightarrow> u32" where
  "load32 m a = ucast (load16 m a) OR push_bit 16 (ucast (load16 m (a + 2)))"

definition load64 :: "('a::{plus,numeral} \<Rightarrow> u8) \<Rightarrow> 'a \<Rightarrow> u64" where
  "load64 m a = ucast (load32 m a) OR push_bit 32 (ucast (load32 m (a + 4)))"

definition store16 :: "('a::{plus,numeral} \<Rightarrow> u8) \<Rightarrow> 'a \<Rightarrow> u16 \<Rightarrow> ('a \<Rightarrow> u8)" where
  "store16 m a w = m(a := ucast w, a + 1 := ucast (drop_bit 8 w))"

definition store32 :: "('a::{plus,numeral} \<Rightarrow> u8) \<Rightarrow> 'a \<Rightarrow> u32 \<Rightarrow> ('a \<Rightarrow> u8)" where
  "store32 m a w = store16 (store16 m a (ucast w)) (a + 2) (ucast (drop_bit 16 w))"

definition store64 :: "('a::{plus,numeral} \<Rightarrow> u8) \<Rightarrow> 'a \<Rightarrow> u64 \<Rightarrow> ('a \<Rightarrow> u8)" where
  "store64 m a w = store32 (store32 m a (ucast w)) (a + 4) (ucast (drop_bit 32 w))"

lemmas load_defs = load16_def load32_def load64_def
lemmas store_defs = store16_def store32_def store64_def

lemma join16: "ucast (ucast (w::u16) :: u8) OR push_bit 8 (ucast (ucast (drop_bit 8 w) :: u8)) = w"
  by (rule bit_word_eqI) (auto simp: bit_simps)

lemma join32: "ucast (ucast (w::u32) :: u16) OR push_bit 16 (ucast (ucast (drop_bit 16 w) :: u16)) = w"
  by (rule bit_word_eqI) (auto simp: bit_simps)

lemma join64: "ucast (ucast (w::u64) :: u32) OR push_bit 32 (ucast (ucast (drop_bit 32 w) :: u32)) = w"
  by (rule bit_word_eqI) (auto simp: bit_simps)

lemmas joins = join16 join32 join64

lemma load_store_nat [mem_simps]:
  fixes a :: nat
  shows "load16 (store16 m a h) a = h"
    and "load32 (store32 m a w) a = w"
    and "load64 (store64 m a d) a = d"
  by (simp_all add: load_defs store_defs joins add.assoc)

lemma load_store_u64 [mem_simps]:
  fixes a :: u64
  shows "load16 (store16 m a h) a = h"
    and "load32 (store32 m a w) a = w"
    and "load64 (store64 m a d) a = d"
  by (simp_all add: load_defs store_defs joins add.assoc)

lemma store_frame_nat:
  fixes a :: nat
  shows "x < a \<or> a + 2 \<le> x \<Longrightarrow> store16 m a h x = m x"
    and "x < a \<or> a + 4 \<le> x \<Longrightarrow> store32 m a w x = m x"
    and "x < a \<or> a + 8 \<le> x \<Longrightarrow> store64 m a d x = m x"
  by (auto simp: store_defs)

lemma load_frame_nat:
  fixes a b :: nat
  shows "b + 2 \<le> a \<or> a + 2 \<le> b \<Longrightarrow> load16 (store16 m a h) b = load16 m b"
    and "b + 4 \<le> a \<or> a + 4 \<le> b \<Longrightarrow> load32 (store32 m a w) b = load32 m b"
    and "b + 2 \<le> a \<or> a + 4 \<le> b \<Longrightarrow> load16 (store32 m a w) b = load16 m b"
    and "b + 4 \<le> a \<or> a + 2 \<le> b \<Longrightarrow> load32 (store16 m a h) b = load32 m b"
  by (auto simp: load_defs store_defs)

lemma load_cong:
  fixes m n :: "'a::{plus,numeral} \<Rightarrow> u8"
  shows "m a = n a \<Longrightarrow> m (a + 1) = n (a + 1) \<Longrightarrow> load16 m a = load16 n a"
    and "load16 m a = load16 n a \<Longrightarrow> load16 m (a + 2) = load16 n (a + 2) \<Longrightarrow> load32 m a = load32 n a"
    and "load32 m a = load32 n a \<Longrightarrow> load32 m (a + 4) = load32 n (a + 4) \<Longrightarrow> load64 m a = load64 n a"
  by (simp_all add: load_defs)

lemma store64_frame_u64:
  fixes a :: u64
  assumes "8 \<le> x - a"
  shows "store64 m a d x = m x"
proof -
  have "x \<noteq> a + k" if "k < 8" for k :: u64
    using assms that by (metis add_diff_cancel_left' linorder_not_le)
  note ne = this
  have "x \<noteq> a + 0" "x \<noteq> a + 1" "x \<noteq> a + 2" "x \<noteq> a + 3" "x \<noteq> a + 4" "x \<noteq> a + 5" "x \<noteq> a + 6" "x \<noteq> a + 7"
    by (rule ne; simp add: word_less_nat_alt)+
  then show ?thesis by (simp add: store_defs add.assoc)
qed

lemma load64_agree_u64:
  fixes a :: u64
  assumes "\<And>k. k < 8 \<Longrightarrow> m (a + k) = n (a + k)"
  shows "load64 m a = load64 n a"
proof -
  have "m (a + 0) = n (a + 0)" "m (a + 1) = n (a + 1)" "m (a + 2) = n (a + 2)" "m (a + 3) = n (a + 3)"
    "m (a + 4) = n (a + 4)" "m (a + 5) = n (a + 5)" "m (a + 6) = n (a + 6)" "m (a + 7) = n (a + 7)"
    by (rule assms; simp add: word_less_nat_alt)+
  then show ?thesis by (simp add: load_defs add.assoc)
qed

section \<open>Signed readings\<close>

lemma sint_split:
  fixes x :: "'a::len word"
  shows "sint x = (if uint x < 2 ^ (LENGTH('a) - 1) then uint x else uint x - 2 ^ LENGTH('a))"
proof -
  let ?h = "2 ^ (LENGTH('a) - 1) :: int"
  have h: "2 ^ LENGTH('a) = 2 * ?h"
    by (metis One_nat_def Suc_pred len_gt_0 power_Suc)
  have b: "0 \<le> uint x" "uint x < 2 * ?h" using uint_bounded [of x] unfolding h [symmetric] by auto
  have "sint x = (uint x + ?h) mod (2 * ?h) - ?h"
    using int_word_sint [of "uint x", where 'a = 'a] h by simp
  moreover have "(uint x + ?h) mod (2 * ?h) = (if uint x < ?h then uint x + ?h else uint x - ?h)"
  proof (cases "uint x < ?h")
    case False
    have "(uint x + ?h) mod (2 * ?h) = (uint x - ?h + 2 * ?h) mod (2 * ?h)" by (simp add: algebra_simps)
    also have "\<dots> = uint x - ?h" using b False by (subst mod_add_self2) (simp add: mod_pos_pos_trivial)
    finally show ?thesis using False by simp
  qed (use b in \<open>simp add: mod_pos_pos_trivial\<close>)
  ultimately show ?thesis using h by auto
qed

lemma sint_u32: "sint (x :: u32) = (if uint x < 2147483648 then uint x else uint x - 4294967296)"
  by (simp add: sint_split)

lemma sint_u64: "sint (x :: u64) = (if uint x < 9223372036854775808 then uint x else uint x - 18446744073709551616)"
  by (simp add: sint_split)

lemma uint_neg_u64: "x \<noteq> 0 \<Longrightarrow> uint (- x :: u64) = 18446744073709551616 - uint x"
proof -
  assume "x \<noteq> 0"
  then have "0 < uint x" "uint x < 18446744073709551616" using uint_bounded [of x] by (auto simp: word_neq_0_conv word_less_def)
  then have "(- uint x) mod 18446744073709551616 = 18446744073709551616 - uint x"
    by (simp add: zmod_zminus1_eq_if mod_pos_pos_trivial)
  then show ?thesis by (simp add: uint_word_ariths)
qed

lemma unat_neg: "sint (x :: u64) < 0 \<Longrightarrow> int (unat (- x)) = - sint x"
  by (cases "x = 0") (auto simp: sint_u64 uint_neg_u64 split: if_splits)

end
