(* ===== verification/Riscv.thy ===== *)
theory Riscv
  imports Prelude
begin

text \<open>
  Constants and page arithmetic: kernel/riscv.h (page sizes, PTE flags, Sv39
  indices), kernel/memlayout.h (physical and virtual layout), kernel/param.h
  (table sizes), kernel/fcntl.h (the modes of \<open>open\<close>).  The lemmas show that
  rounding computes page multiples and that PTE packing is invertible on page-aligned
  physical addresses.
\<close>

section \<open>kernel/param.h\<close>

definition NPROC :: nat where "NPROC = 64"
definition NCPU :: nat where "NCPU = 8"
definition NOFILE :: nat where "NOFILE = 16"
definition NFILE :: nat where "NFILE = 100"
definition NINODE :: nat where "NINODE = 50"
definition NDEV :: int where "NDEV = 10"
definition ROOTDEV :: u32 where "ROOTDEV = 1"
definition MAXARG :: nat where "MAXARG = 32"
definition MAXOPBLOCKS :: nat where "MAXOPBLOCKS = 10"
definition LOGBLOCKS :: nat where "LOGBLOCKS = MAXOPBLOCKS * 3"
definition NBUF :: nat where "NBUF = MAXOPBLOCKS * 3"
definition FSSIZE :: nat where "FSSIZE = 2000"
definition MAXPATH :: nat where "MAXPATH = 128"
definition USERSTACK :: u64 where "USERSTACK = 1"

section \<open>kernel/riscv.h: pages and page table entries\<close>

definition PGSIZE :: u64 where "PGSIZE = 4096"

definition PGROUNDUP :: "u64 \<Rightarrow> u64" where
  "PGROUNDUP sz = (sz + PGSIZE - 1) AND NOT (PGSIZE - 1)"

definition PGROUNDDOWN :: "u64 \<Rightarrow> u64" where
  "PGROUNDDOWN a = a AND NOT (PGSIZE - 1)"

definition PTE_V :: u64 where "PTE_V = 1"
definition PTE_R :: u64 where "PTE_R = 2"
definition PTE_W :: u64 where "PTE_W = 4"
definition PTE_X :: u64 where "PTE_X = 8"
definition PTE_U :: u64 where "PTE_U = 16"

definition PA2PTE :: "u64 \<Rightarrow> u64" where
  "PA2PTE pa = push_bit 10 (drop_bit 12 pa)"

definition PTE2PA :: "u64 \<Rightarrow> u64" where
  "PTE2PA pte = push_bit 12 (drop_bit 10 pte)"

definition PTE_FLAGS :: "u64 \<Rightarrow> u64" where
  "PTE_FLAGS pte = pte AND 0x3FF"

definition PXSHIFT :: "nat \<Rightarrow> nat" where
  "PXSHIFT level = 12 + 9 * level"

definition PX :: "nat \<Rightarrow> u64 \<Rightarrow> u64" where
  "PX level va = drop_bit (PXSHIFT level) va AND 0x1FF"

definition MAXVA :: u64 where
  "MAXVA = push_bit (9 + 9 + 9 + 12 - 1) 1"

section \<open>kernel/fcntl.h\<close>

definition O_RDONLY :: int where "O_RDONLY = 0"
definition O_WRONLY :: int where "O_WRONLY = 1"
definition O_RDWR :: int where "O_RDWR = 2"
definition O_CREATE :: int where "O_CREATE = 0x200"
definition O_TRUNC :: int where "O_TRUNC = 0x400"

section \<open>kernel/memlayout.h\<close>

definition UART0 :: u64 where "UART0 = 0x10000000"
definition UART0_IRQ :: u32 where "UART0_IRQ = 10"
definition VIRTIO0 :: u64 where "VIRTIO0 = 0x10001000"
definition VIRTIO0_IRQ :: u32 where "VIRTIO0_IRQ = 1"
definition PLIC :: u64 where "PLIC = 0x0c000000"
definition KERNBASE :: u64 where "KERNBASE = 0x80000000"
definition PHYSTOP :: u64 where "PHYSTOP = KERNBASE + 128 * 1024 * 1024"
definition TRAMPOLINE :: u64 where "TRAMPOLINE = MAXVA - PGSIZE"
definition KSTACK :: "nat \<Rightarrow> u64" where
  "KSTACK p = TRAMPOLINE - (of_nat p + 1) * 2 * PGSIZE"
definition TRAPFRAME :: u64 where "TRAPFRAME = TRAMPOLINE - PGSIZE"

lemmas param_defs = NPROC_def NCPU_def NOFILE_def NFILE_def NINODE_def NDEV_def ROOTDEV_def MAXARG_def
  MAXOPBLOCKS_def LOGBLOCKS_def NBUF_def FSSIZE_def MAXPATH_def USERSTACK_def
lemmas pte_defs = PTE_V_def PTE_R_def PTE_W_def PTE_X_def PTE_U_def
lemmas layout_defs = MAXVA_def TRAMPOLINE_def TRAPFRAME_def KSTACK_def KERNBASE_def PHYSTOP_def
  UART0_def VIRTIO0_def PLIC_def

lemma MAXVA_val [page_simps]: "MAXVA = 0x4000000000"
  by (simp add: MAXVA_def)

lemma TRAMPOLINE_val [page_simps]: "TRAMPOLINE = 0x3FFFFFF000"
  by (simp add: TRAMPOLINE_def MAXVA_val PGSIZE_def)

lemma TRAPFRAME_val [page_simps]: "TRAPFRAME = 0x3FFFFFE000"
  by (simp add: TRAPFRAME_def TRAMPOLINE_val PGSIZE_def)

lemma PHYSTOP_val [page_simps]: "PHYSTOP = 0x88000000"
  by (simp add: PHYSTOP_def KERNBASE_def)

section \<open>Pages\<close>

definition page_aligned :: "u64 \<Rightarrow> bool" where
  "page_aligned a \<longleftrightarrow> a mod PGSIZE = 0"

definition in_page :: "u64 \<Rightarrow> u64 \<Rightarrow> bool" where
  "in_page p x \<longleftrightarrow> x - p < PGSIZE"

lemma page_aligned_nat: "page_aligned a \<longleftrightarrow> 4096 dvd unat a"
proof -
  have "a mod 4096 = 0 \<longleftrightarrow> unat (a mod 4096) = 0" by (simp only: unat_eq_zero)
  then show ?thesis by (simp add: page_aligned_def PGSIZE_def unat_mod dvd_eq_mod_eq_0)
qed

lemma and_not_mask: "x AND NOT (mask n) = push_bit n (drop_bit n (x :: u64))"
  by (rule bit_word_eqI) (auto simp: bit_simps)

lemma NOT_mask12: "x AND - (4096 :: u64) = push_bit 12 (drop_bit 12 x)"
  using and_not_mask [of x 12] minus_exp_eq_not_mask [where n = 12 and 'a = u64] by simp

lemma u64_bound: "unat (x :: u64) < 18446744073709551616"
  by (rule order_less_le_trans [OF unsigned_less]) simp

lemma unat_page_floor: "unat (push_bit 12 (drop_bit 12 (x :: u64))) = unat x div 4096 * 4096"
proof -
  have "unat x div 4096 * 4096 \<le> unat x" by simp
  then have "unat x div 4096 * 4096 < 2 ^ 64" using u64_bound [of x] by (simp add: order_le_less_trans)
  then show ?thesis
    by (simp add: push_bit_eq_mult drop_bit_eq_div unat_word_ariths unat_div)
qed

lemma unat_PGROUNDDOWN: "unat (PGROUNDDOWN a) = unat a div 4096 * 4096"
  by (simp add: PGROUNDDOWN_def PGSIZE_def NOT_mask12 unat_page_floor)

lemma PGROUNDDOWN_aligned [simp]: "page_aligned (PGROUNDDOWN a)"
  by (simp add: page_aligned_nat unat_PGROUNDDOWN)

lemma PGROUNDDOWN_le: "PGROUNDDOWN a \<le> a"
  by (simp add: word_le_nat_alt unat_PGROUNDDOWN)

lemma PGROUNDDOWN_offset: "unat (a - PGROUNDDOWN a) = unat a mod 4096"
  using PGROUNDDOWN_le [of a]
  by (simp add: unat_sub unat_PGROUNDDOWN minus_div_mult_eq_mod)

lemma PGROUNDDOWN_id: "page_aligned a \<Longrightarrow> PGROUNDDOWN a = a"
  by (simp add: word_unat_eq_iff unat_PGROUNDDOWN page_aligned_nat)

lemma PGROUNDUP_nat:
  assumes "unat a \<le> 2 ^ 64 - 4096"
  shows "unat (PGROUNDUP a) = (unat a + 4095) div 4096 * 4096"
proof -
  have "unat (a + 4095) = unat a + 4095"
    by (rule unat_add_lem [THEN iffD1, of a 4095, simplified]) (use assms in simp)
  then show ?thesis
    by (simp add: PGROUNDUP_def PGSIZE_def NOT_mask12 unat_page_floor add.commute)
qed

lemma PGROUNDUP_aligned [simp]: "page_aligned (PGROUNDUP a)"
  by (simp add: page_aligned_nat PGROUNDUP_def PGSIZE_def NOT_mask12 unat_page_floor)

lemma in_page_nat:
  assumes "page_aligned p"
  shows "in_page p x \<longleftrightarrow> unat x div 4096 = unat p div 4096"
proof -
  from assms obtain k where k: "unat p = 4096 * k" by (auto simp: page_aligned_nat)
  have b: "unat p < 18446744073709551616" "unat x < 18446744073709551616" by (rule u64_bound)+
  have "k < 4503599627370496" using b(1) k by linarith
  then have le: "4096 * k + 4096 \<le> 18446744073709551616" by linarith
  show ?thesis
  proof (cases "unat p \<le> unat x")
    case True
    then have "unat (x - p) = unat x - unat p" by (simp add: unat_sub word_le_nat_alt)
    then have "in_page p x \<longleftrightarrow> unat x < 4096 * k + 4096"
      using k True by (auto simp: in_page_def PGSIZE_def word_less_nat_alt)
    then show ?thesis using k True by auto
  next
    case False
    then have "unat (x - p) = unat x + 18446744073709551616 - unat p" by (simp add: unat_sub_if')
    then have "\<not> in_page p x" using k le by (simp add: in_page_def PGSIZE_def word_less_nat_alt)
    then show ?thesis using k False by auto
  qed
qed

lemma in_page_disjoint:
  "page_aligned p \<Longrightarrow> page_aligned q \<Longrightarrow> p \<noteq> q \<Longrightarrow> in_page p x \<Longrightarrow> \<not> in_page q x"
  by (auto simp: in_page_nat page_aligned_nat word_unat_eq_iff)

lemma in_page_self [simp]: "in_page p p"
  by (simp add: in_page_def PGSIZE_def)

lemma in_page_offset: "k < 4096 \<Longrightarrow> in_page p (p + k)"
  by (simp add: in_page_def PGSIZE_def)

lemma page_aligned_0 [simp]: "page_aligned 0"
  by (simp add: page_aligned_def)

section \<open>Page table entries\<close>

lemma high_bits_clear: "unat (x :: u64) < 2 ^ n \<Longrightarrow> n \<le> i \<Longrightarrow> \<not> bit x i"
proof -
  assume "unat x < 2 ^ n" and "n \<le> i"
  then have "unat x < 2 ^ i" by (meson order_less_le_trans one_le_numeral power_increasing)
  then have "\<not> bit (unat x) i" by (simp add: bit_iff_odd)
  then show ?thesis by (auto simp: bit_simps dest: bit_imp_le_length)
qed

lemma PTE2PA_PA2PTE:
  assumes "page_aligned pa" and "flags < 1024"
  shows "PTE2PA (PA2PTE pa OR flags) = pa"
proof (rule bit_word_eqI)
  fix n assume "n < LENGTH(64)"
  have lo: "\<not> bit pa i" if "i < 12" for i
  proof -
    have "take_bit 12 pa = 0" using assms(1) by (simp add: page_aligned_def PGSIZE_def take_bit_eq_mod)
    then have "\<not> bit (take_bit 12 pa) i" by simp
    then show ?thesis using that by (simp add: bit_take_bit_iff)
  qed
  have fl: "\<not> bit flags i" if "10 \<le> i" for i
    using assms(2) that by (intro high_bits_clear [of _ 10]) (simp_all add: word_less_nat_alt)
  show "bit (PTE2PA (PA2PTE pa OR flags)) n = bit pa n"
  proof (cases "n < 12")
    case True
    then show ?thesis using lo by (simp add: PTE2PA_def bit_simps)
  next
    case False
    then obtain k where n: "n = 12 + k" using le_Suc_ex [of 12 n] by auto
    then have "\<not> bit flags (10 + k)" by (intro fl) simp
    moreover have "k < 52" using n \<open>n < LENGTH(64)\<close> by simp
    ultimately show ?thesis by (simp add: n PTE2PA_def PA2PTE_def bit_simps)
  qed
qed

lemma PX_less: "PX level va < 512"
proof -
  have "PX level va \<le> 0x1FF" unfolding PX_def by (rule word_and_le1)
  then show ?thesis by (rule order_le_less_trans) simp
qed

end
