(* ===== verification/Cstring.thy ===== *)
theory Cstring
  imports Riscv
begin

text \<open>
  The byte-string routines: kernel/string.c and the string part of user/ulib.c,
  as pointer loops over a byte-addressed memory.  The lemmas give each loop its
  specification: \<open>memset\<close> and \<open>memmove\<close> are exact on every overlap,
  \<open>strncpy\<close> pads, \<open>safestrcpy\<close> always terminates its result, and the
  comparisons agree with list functions on NUL-terminated strings, which the
  typed parts of the kernel (process and directory entry names) use.
\<close>

type_synonym memory = "u64 \<Rightarrow> u8"

section \<open>kernel/string.c\<close>

function memset_loop :: "memory \<Rightarrow> u64 \<Rightarrow> u8 \<Rightarrow> nat \<Rightarrow> nat \<Rightarrow> memory" where
  "memset_loop m dst c i n =
     (if i < n then memset_loop (m(dst + of_nat i := c)) dst c (Suc i) n else m)"
  by pat_completeness auto
termination
  by (relation "measure (\<lambda>(m, dst, c, i, n). n - i)") auto

definition memset :: "memory \<Rightarrow> u64 \<Rightarrow> u8 \<Rightarrow> u32 \<Rightarrow> memory" where
  "memset m dst c n = memset_loop m dst c 0 (unat n)"

fun memcmp_loop :: "memory \<Rightarrow> u64 \<Rightarrow> u64 \<Rightarrow> nat \<Rightarrow> int" where
  "memcmp_loop m s1 s2 0 = 0"
| "memcmp_loop m s1 s2 (Suc n) =
     (if m s1 \<noteq> m s2 then uint (m s1) - uint (m s2) else memcmp_loop m (s1 + 1) (s2 + 1) n)"

definition memcmp :: "memory \<Rightarrow> u64 \<Rightarrow> u64 \<Rightarrow> u32 \<Rightarrow> int" where
  "memcmp m v1 v2 n = memcmp_loop m v1 v2 (unat n)"

fun copy_forward :: "memory \<Rightarrow> u64 \<Rightarrow> u64 \<Rightarrow> nat \<Rightarrow> memory" where
  "copy_forward m d s 0 = m"
| "copy_forward m d s (Suc n) = copy_forward (m(d := m s)) (d + 1) (s + 1) n"

fun copy_backward :: "memory \<Rightarrow> u64 \<Rightarrow> u64 \<Rightarrow> nat \<Rightarrow> memory" where
  "copy_backward m d s 0 = m"
| "copy_backward m d s (Suc n) = copy_backward (m(d - 1 := m (s - 1))) (d - 1) (s - 1) n"

definition memmove :: "memory \<Rightarrow> u64 \<Rightarrow> u64 \<Rightarrow> u32 \<Rightarrow> memory" where
  "memmove m dst src n =
     (if n = 0 then m
      else if src < dst \<and> src + ucast n > dst
      then copy_backward m (dst + ucast n) (src + ucast n) (unat n)
      else copy_forward m dst src (unat n))"

fun strncmp_loop :: "memory \<Rightarrow> u64 \<Rightarrow> u64 \<Rightarrow> nat \<Rightarrow> int" where
  "strncmp_loop m p q 0 = 0"
| "strncmp_loop m p q (Suc n) =
     (if m p \<noteq> 0 \<and> m p = m q then strncmp_loop m (p + 1) (q + 1) n
      else uint (m p) - uint (m q))"

definition strncmp :: "memory \<Rightarrow> u64 \<Rightarrow> u64 \<Rightarrow> u32 \<Rightarrow> int" where
  "strncmp m p q n = strncmp_loop m p q (unat n)"

fun zero_fill :: "memory \<Rightarrow> u64 \<Rightarrow> nat \<Rightarrow> memory" where
  "zero_fill m s 0 = m"
| "zero_fill m s (Suc n) = zero_fill (m(s := 0)) (s + 1) n"

fun strncpy_loop :: "memory \<Rightarrow> u64 \<Rightarrow> u64 \<Rightarrow> nat \<Rightarrow> memory" where
  "strncpy_loop m s t 0 = m"
| "strncpy_loop m s t (Suc n) =
     (if m t \<noteq> 0 then strncpy_loop (m(s := m t)) (s + 1) (t + 1) n
      else zero_fill (m(s := m t)) (s + 1) n)"

definition strncpy :: "memory \<Rightarrow> u64 \<Rightarrow> u64 \<Rightarrow> int \<Rightarrow> memory" where
  "strncpy m s t n = strncpy_loop m s t (nat n)"

fun safestrcpy_loop :: "memory \<Rightarrow> u64 \<Rightarrow> u64 \<Rightarrow> nat \<Rightarrow> memory" where
  "safestrcpy_loop m s t 0 = m(s := 0)"
| "safestrcpy_loop m s t (Suc n) =
     (if m t \<noteq> 0 then safestrcpy_loop (m(s := m t)) (s + 1) (t + 1) n
      else m(s := m t, s + 1 := 0))"

definition safestrcpy :: "memory \<Rightarrow> u64 \<Rightarrow> u64 \<Rightarrow> int \<Rightarrow> memory" where
  "safestrcpy m s t n = (if n \<le> 0 then m else safestrcpy_loop m s t (nat (n - 1)))"

text \<open>\<open>strlen\<close> does not return on a memory without a NUL byte.\<close>

partial_function (option) strlen_loop :: "memory \<Rightarrow> u64 \<Rightarrow> nat \<Rightarrow> nat option" where
  "strlen_loop m s n = (if m (s + of_nat n) = 0 then Some n else strlen_loop m s (Suc n))"

definition strlen :: "memory \<Rightarrow> u64 \<Rightarrow> nat option" where
  "strlen m s = strlen_loop m s 0"

section \<open>user/ulib.c\<close>

partial_function (option) strcpy :: "memory \<Rightarrow> u64 \<Rightarrow> u64 \<Rightarrow> memory option" where
  "strcpy m s t = (let m' = m(s := m t) in if m t \<noteq> 0 then strcpy m' (s + 1) (t + 1) else Some m')"

partial_function (option) strcmp :: "memory \<Rightarrow> u64 \<Rightarrow> u64 \<Rightarrow> int option" where
  "strcmp m p q =
     (if m p \<noteq> 0 \<and> m p = m q then strcmp m (p + 1) (q + 1) else Some (uint (m p) - uint (m q)))"

text \<open>The result 0 of \<open>strchr\<close> is the null pointer.\<close>

partial_function (option) strchr :: "memory \<Rightarrow> u64 \<Rightarrow> u8 \<Rightarrow> u64 option" where
  "strchr m s c = (if m s = 0 then Some 0 else if m s = c then Some s else strchr m (s + 1) c)"

definition umemmove :: "memory \<Rightarrow> u64 \<Rightarrow> u64 \<Rightarrow> int \<Rightarrow> memory" where
  "umemmove m vdst vsrc n =
     (if vsrc > vdst then copy_forward m vdst vsrc (nat n)
      else copy_backward m (vdst + of_int n) (vsrc + of_int n) (nat n))"

section \<open>memset and memmove\<close>

declare memset_loop.simps [simp del]

lemma of_nat_u64_eq:
  fixes x :: u64
  assumes "i < 2 ^ 64"
  shows "x = dst + of_nat i \<longleftrightarrow> unat (x - dst) = i"
proof
  assume "x = dst + of_nat i"
  then show "unat (x - dst) = i" using assms by (simp add: unat_of_nat)
next
  assume "unat (x - dst) = i"
  then show "x = dst + of_nat i" by auto
qed

lemma unat_less_u64: "unat (x :: u64) < 2 ^ 64"
  using u64_bound by simp

lemma memset_loop_eq:
  "n \<le> 2 ^ 64 \<Longrightarrow>
   memset_loop m dst c i n x = (if i \<le> unat (x - dst) \<and> unat (x - dst) < n then c else m x)"
proof (induction m dst c i n rule: memset_loop.induct)
  case (1 m dst c i n)
  show ?case
  proof (cases "i < n")
    case True
    then have "x = dst + of_nat i \<longleftrightarrow> unat (x - dst) = i"
      using "1.prems" by (intro of_nat_u64_eq) simp
    moreover have "memset_loop m dst c i n x = (if Suc i \<le> unat (x - dst) \<and> unat (x - dst) < n then c
        else (m(dst + of_nat i := c)) x)"
      using "1.IH" [OF True "1.prems"] True by (simp add: memset_loop.simps [of m dst c i n] fun_upd_def)
    ultimately show ?thesis using True by auto
  next
    case False
    then show ?thesis by (auto simp add: memset_loop.simps [of m dst c i n])
  qed
qed

lemma unat_u32_le: "unat (n :: u32) \<le> 2 ^ 64"
proof -
  have "unat n < 2 ^ 32" by (rule order_less_le_trans [OF unsigned_less]) simp
  then show ?thesis by simp
qed

lemma memset_eq: "memset m dst c n x = (if unat (x - dst) < unat n then c else m x)"
  unfolding memset_def by (subst memset_loop_eq) (simp_all only: unat_u32_le le0 simp_thms)

lemma pred_u64: "x \<noteq> d \<Longrightarrow> unat (x - d) = Suc (unat (x - (d + 1)))" for x d :: u64
proof -
  assume "x \<noteq> d"
  then have "x - d \<noteq> 0" by simp
  then have "unat (x - d - 1) = unat (x - d) - 1" "0 < unat (x - d)"
    by (simp_all add: unat_minus_one unat_gt_0)
  then show ?thesis by (simp add: diff_diff_eq)
qed

lemma copy_forward_eq:
  assumes "n \<le> 2 ^ 64" and "\<And>i j. j < i \<Longrightarrow> i < n \<Longrightarrow> d + of_nat j \<noteq> s + of_nat i"
  shows "copy_forward m d s n x = (if unat (x - d) < n then m (s + (x - d)) else m x)"
  using assms
proof (induction n arbitrary: m d s)
  case 0
  then show ?case by simp
next
  case (Suc n)
  have step: "copy_forward m d s (Suc n) x =
      (if unat (x - (d + 1)) < n then (m(d := m s)) (s + 1 + (x - (d + 1))) else (m(d := m s)) x)"
  proof -
    have "(d + 1) + of_nat j \<noteq> (s + 1) + of_nat i" if "j < i" "i < n" for i j
      using Suc.prems(2) [of "Suc j" "Suc i"] that by (simp add: algebra_simps)
    then have "copy_forward (m(d := m s)) (d + 1) (s + 1) n x =
        (if unat (x - (d + 1)) < n then (m(d := m s)) (s + 1 + (x - (d + 1))) else (m(d := m s)) x)"
      using Suc.prems(1) by (intro Suc.IH) simp_all
    then show ?thesis by (simp only: copy_forward.simps)
  qed
  show ?case
  proof (cases "x = d")
    case True
    have "unat (- 1 :: u64) = 2 ^ 64 - 1" by (simp add: unsigned_minus_1_eq_mask mask_eq_exp_minus_1)
    then have "\<not> unat (d - (d + 1)) < n" using Suc.prems(1) by (simp add: diff_diff_eq [symmetric])
    then show ?thesis unfolding step using True by simp
  next
    case False
    then have suc: "unat (x - d) = Suc (unat (x - (d + 1)))" by (rule pred_u64)
    have "s + (x - d) \<noteq> d" if "unat (x - d) < Suc n"
      using Suc.prems(2) [of 0 "unat (x - d)"] that suc by auto
    with False suc show ?thesis unfolding step by (auto simp: algebra_simps)
  qed
qed

lemma copy_backward_eq:
  assumes "n \<le> 2 ^ 64" and "\<And>i j. i < j \<Longrightarrow> j < n \<Longrightarrow> d + of_nat j \<noteq> s + of_nat i"
  shows "copy_backward m (d + of_nat n) (s + of_nat n) n x =
    (if unat (x - d) < n then m (s + (x - d)) else m x)"
  using assms
proof (induction n arbitrary: m)
  case 0
  then show ?case by simp
next
  case (Suc n)
  let ?m = "m(d + of_nat n := m (s + of_nat n))"
  have "copy_backward m (d + of_nat (Suc n)) (s + of_nat (Suc n)) (Suc n) x =
      copy_backward ?m (d + of_nat n) (s + of_nat n) n x"
    by (simp add: algebra_simps)
  also have "\<dots> = (if unat (x - d) < n then ?m (s + (x - d)) else ?m x)"
    using Suc by simp
  also have "\<dots> = (if unat (x - d) < Suc n then m (s + (x - d)) else m x)"
  proof (cases "x = d + of_nat n")
    case True
    then have "unat (x - d) = n" using Suc.prems(1) by (simp add: unat_of_nat)
    with True show ?thesis by simp
  next
    case False
    then have "unat (x - d) \<noteq> n" using of_nat_u64_eq [of n x d] Suc.prems(1) by auto
    moreover have "s + (x - d) \<noteq> d + of_nat n" if "unat (x - d) < n"
      using Suc.prems(2) [of "unat (x - d)" n] that by auto
    ultimately show ?thesis using False by auto
  qed
  finally show ?case .
qed

text \<open>
  \<open>memmove\<close> copies exactly on every overlap of ranges that do not wrap around
  the address space.
\<close>

lemma memmove_eq:
  assumes "unat dst + unat n \<le> 2 ^ 64" and "unat src + unat n < 2 ^ 64"
  shows "memmove m dst src n x = (if unat (x - dst) < unat n then m (src + (x - dst)) else m x)"
proof -
  have n: "unat n \<le> 2 ^ 64" by (rule unat_u32_le)
  have cast: "ucast n = (of_nat (unat n) :: u64)" by (simp add: unsigned_def)
  have ord: "unat (d + of_nat i) = unat d + i" if "unat d + i < 2 ^ 64" for d :: u64 and i
    using that by (simp add: unat_word_ariths unat_of_nat)
  have eqD: "unat dst + j = unat src + i"
    if "dst + of_nat j = src + of_nat i" "i < unat n" "j < unat n" for i j
  proof -
    have "unat (dst + of_nat j) = unat dst + j" "unat (src + of_nat i) = unat src + i"
      using that(2,3) assms by (auto intro: ord)
    then show ?thesis using that(1) by simp
  qed
  show ?thesis
  proof (cases "src < dst \<and> src + ucast n > dst")
    case True
    then have "unat src < unat dst" by (simp add: word_less_nat_alt)
    then have "dst + of_nat j \<noteq> src + of_nat i" if "i < j" "j < unat n" for i j
      using that eqD [of j i] by auto
    then have "copy_backward m (dst + of_nat (unat n)) (src + of_nat (unat n)) (unat n) x =
        (if unat (x - dst) < unat n then m (src + (x - dst)) else m x)"
      using n by (intro copy_backward_eq)
    moreover have "memmove m dst src n = copy_backward m (dst + ucast n) (src + ucast n) (unat n)"
      using True by (auto simp: memmove_def)
    ultimately show ?thesis by (simp only: cast)
  next
    case False
    have "unat (src + ucast n) = unat src + unat n" unfolding cast using assms(2) by (intro ord) simp
    then have "unat dst \<le> unat src \<or> unat src + unat n \<le> unat dst"
      using False by (auto simp: word_less_nat_alt)
    then have "dst + of_nat j \<noteq> src + of_nat i" if "j < i" "i < unat n" for i j
      using that eqD [of j i] by auto
    then have "copy_forward m dst src (unat n) x = (if unat (x - dst) < unat n then m (src + (x - dst)) else m x)"
      using n by (intro copy_forward_eq)
    then show ?thesis
      using False by (auto simp: memmove_def)
  qed
qed

section \<open>NUL-terminated strings\<close>

type_synonym bytes = "u8 list"

text \<open>The bytes of a string literal of the source.\<close>

definition cstring :: "string \<Rightarrow> bytes" where
  "cstring s = map of_char s"

text \<open>The memory holds the bytes \<open>xs\<close> at \<open>p\<close>, followed by a NUL.\<close>

primrec cstr_at :: "memory \<Rightarrow> u64 \<Rightarrow> bytes \<Rightarrow> bool" where
  "cstr_at m p [] \<longleftrightarrow> m p = 0"
| "cstr_at m p (x # xs) \<longleftrightarrow> m p = x \<and> x \<noteq> 0 \<and> cstr_at m (p + 1) xs"

text \<open>\<open>strncmp\<close> on the contents of two strings.\<close>

fun strncmp_list :: "bytes \<Rightarrow> bytes \<Rightarrow> nat \<Rightarrow> int" where
  "strncmp_list xs ys 0 = 0"
| "strncmp_list [] [] (Suc n) = 0"
| "strncmp_list [] (y # ys) (Suc n) = - uint y"
| "strncmp_list (x # xs) [] (Suc n) = uint x"
| "strncmp_list (x # xs) (y # ys) (Suc n) =
     (if x = y then strncmp_list xs ys n else uint x - uint y)"

lemma strncmp_loop_list:
  "cstr_at m p xs \<Longrightarrow> cstr_at m q ys \<Longrightarrow> strncmp_loop m p q n = strncmp_list xs ys n"
  by (induction xs ys n arbitrary: p q rule: strncmp_list.induct) auto

lemma strncmp_list_zero:
  "0 \<notin> set xs \<Longrightarrow> 0 \<notin> set ys \<Longrightarrow> strncmp_list xs ys n = 0 \<longleftrightarrow> take n xs = take n ys"
  by (induction xs ys n rule: strncmp_list.induct) (auto simp: word_uint_eq_iff)

lemma cstr_at_nonzero: "cstr_at m p xs \<Longrightarrow> 0 \<notin> set xs"
  by (induction xs arbitrary: p) auto

lemma cstr_at_drop:
  "cstr_at m p xs \<Longrightarrow> i \<le> length xs \<Longrightarrow> cstr_at m (p + of_nat i) (drop i xs)"
proof (induction xs arbitrary: p i)
  case (Cons x xs)
  then show ?case
    using Cons.IH [of "p + 1" "i - 1"] by (cases i) (auto simp: algebra_simps)
qed simp

lemma strlen_loop_cstr: "cstr_at m (s + of_nat k) xs \<Longrightarrow> strlen_loop m s k = Some (k + length xs)"
proof (induction xs arbitrary: k)
  case Nil
  then show ?case by (simp add: strlen_loop.simps)
next
  case (Cons x xs)
  then have "strlen_loop m s (Suc k) = Some (Suc k + length xs)"
    by (intro Cons.IH) (simp add: algebra_simps)
  with Cons.prems show ?case by (subst strlen_loop.simps) simp
qed

lemma strlen_cstr: "cstr_at m s xs \<Longrightarrow> strlen m s = Some (length xs)"
  using strlen_loop_cstr [of m s 0 xs] by (simp add: strlen_def)

lemma strcmp_cstr:
  "cstr_at m p xs \<Longrightarrow> cstr_at m q ys \<Longrightarrow> strcmp m p q = Some (strncmp_list xs ys (Suc (length xs)))"
proof (induction xs arbitrary: ys p q)
  case Nil
  then show ?case by (subst strcmp.simps) (cases ys; simp)
next
  case (Cons x xs)
  then show ?case by (subst strcmp.simps) (cases ys; simp)
qed

lemma strchr_cstr:
  "cstr_at m s xs \<Longrightarrow>
   strchr m s c = Some (if c \<in> set xs then s + of_nat (length (takeWhile (\<lambda>x. x \<noteq> c) xs)) else 0)"
proof (induction xs arbitrary: s)
  case Nil
  then show ?case by (simp add: strchr.simps)
next
  case (Cons x xs)
  then have "strchr m (s + 1) c = Some (if c \<in> set xs then s + 1 + of_nat (length (takeWhile (\<lambda>x. x \<noteq> c) xs)) else 0)"
    by simp
  with Cons.prems show ?case by (subst strchr.simps) (auto simp: algebra_simps)
qed

section \<open>safestrcpy\<close>

lemma cstr_at_frame:
  assumes "\<And>i. i \<le> length xs \<Longrightarrow> m (p + of_nat i) = n (p + of_nat i)"
  shows "cstr_at m p xs = cstr_at n p xs"
  using assms
proof (induction xs arbitrary: p)
  case Nil
  then show ?case by simp
next
  case (Cons x xs)
  have "m (p + 1 + of_nat i) = n (p + 1 + of_nat i)" if "i \<le> length xs" for i
    using Cons.prems [of "Suc i"] that by (simp add: algebra_simps)
  then have "cstr_at m (p + 1) xs = cstr_at n (p + 1) xs" by (rule Cons.IH)
  with Cons.prems [of 0] show ?case by simp
qed

lemma safestrcpy_loop_frame:
  "Suc n < 2 ^ 64 \<Longrightarrow> n < unat (x - s) \<Longrightarrow> safestrcpy_loop m s t n x = m x"
proof (induction n arbitrary: m s t)
  case 0
  then show ?case by auto
next
  case (Suc n)
  have ne: "x \<noteq> s" using Suc.prems(2) by auto
  then have "unat (x - s) = Suc (unat (x - (s + 1)))" by (rule pred_u64)
  then have lt: "n < unat (x - (s + 1))" using Suc.prems(2) by simp
  then have "x \<noteq> s + 1" by auto
  with ne lt Suc show ?case by simp
qed

lemma cstr_at_upd:
  assumes "cstr_at m t xs" and "\<And>i. i \<le> length xs \<Longrightarrow> 0 < unat (t + of_nat i - s)"
  shows "cstr_at (m(s := b)) t xs"
proof -
  have "(m(s := b)) (t + of_nat i) = m (t + of_nat i)" if "i \<le> length xs" for i
    using assms(2) [OF that] by auto
  then show ?thesis using assms(1) cstr_at_frame by blast
qed

lemma safestrcpy_loop_cstr:
  assumes "Suc n < 2 ^ 64" and "cstr_at m t xs"
    and "\<And>i. i \<le> length xs \<Longrightarrow> n < unat (t + of_nat i - s)"
  shows "cstr_at (safestrcpy_loop m s t n) s (take n xs)"
  using assms
proof (induction n arbitrary: m s t xs)
  case 0
  then show ?case by simp
next
  case (Suc n)
  show ?case
  proof (cases xs)
    case Nil
    with Suc.prems(2) show ?thesis by simp
  next
    case (Cons x ys)
    have src: "cstr_at (m(s := x)) (t + 1) ys"
    proof (rule cstr_at_upd)
      show "cstr_at m (t + 1) ys" using Suc.prems(2) Cons by simp
      show "0 < unat (t + 1 + of_nat i - s)" if "i \<le> length ys" for i
        using Suc.prems(3) [of "Suc i"] that Cons by (simp add: algebra_simps)
    qed
    have "cstr_at (safestrcpy_loop (m(s := x)) (s + 1) (t + 1) n) (s + 1) (take n ys)"
    proof (rule Suc.IH [OF _ src])
      show "n < unat (t + 1 + of_nat i - (s + 1))" if "i \<le> length ys" for i
        using Suc.prems(3) [of i] that Cons by (simp add: algebra_simps)
    qed (use Suc.prems(1) in simp)
    moreover have "safestrcpy_loop (m(s := x)) (s + 1) (t + 1) n s = x"
    proof -
      have "unat (s - (s + 1)) = 2 ^ 64 - 1"
        by (simp add: diff_diff_eq [symmetric] unsigned_minus_1_eq_mask mask_eq_exp_minus_1)
      then show ?thesis using Suc.prems(1) by (subst safestrcpy_loop_frame) simp_all
    qed
    ultimately show ?thesis using Suc.prems(2) Cons by simp
  qed
qed

lemma zero_fill_eq:
  "n \<le> 2 ^ 64 \<Longrightarrow> zero_fill m s n x = (if unat (x - s) < n then 0 else m x)"
proof (induction n arbitrary: m s)
  case (Suc n)
  then have IH: "zero_fill (m(s := 0)) (s + 1) n x = (if unat (x - (s + 1)) < n then 0 else (m(s := 0)) x)"
    by simp
  show ?case
  proof (cases "x = s")
    case True
    with IH show ?thesis by simp
  next
    case False
    with IH show ?thesis using pred_u64 [OF False] by simp
  qed
qed simp

lemma strncpy_loop_eq:
  assumes "n < 2 ^ 64" and "cstr_at m t xs" and "\<And>i. i \<le> length xs \<Longrightarrow> n \<le> unat (t + of_nat i - s)"
  shows "strncpy_loop m s t n x =
    (if unat (x - s) < n then (if unat (x - s) < length xs then xs ! unat (x - s) else 0) else m x)"
  using assms
proof (induction n arbitrary: m s t xs)
  case 0
  then show ?case by simp
next
  case (Suc n)
  show ?case
  proof (cases xs)
    case Nil
    then have "strncpy_loop m s t (Suc n) x = (if unat (x - (s + 1)) < n then 0 else (m(s := 0)) x)"
      using Suc.prems by (simp add: zero_fill_eq)
    then show ?thesis using Nil pred_u64 [of x s] by (cases "x = s") auto
  next
    case (Cons b ys)
    have src: "cstr_at (m(s := b)) (t + 1) ys"
    proof (rule cstr_at_upd)
      show "cstr_at m (t + 1) ys" using Suc.prems(2) Cons by simp
      show "0 < unat (t + 1 + of_nat i - s)" if "i \<le> length ys" for i
        using Suc.prems(3) [of "Suc i"] that Cons by (simp add: algebra_simps)
    qed
    have "strncpy_loop (m(s := b)) (s + 1) (t + 1) n x =
        (if unat (x - (s + 1)) < n
         then (if unat (x - (s + 1)) < length ys then ys ! unat (x - (s + 1)) else 0) else (m(s := b)) x)"
    proof (rule Suc.IH [OF _ src])
      show "n \<le> unat (t + 1 + of_nat i - (s + 1))" if "i \<le> length ys" for i
        using Suc.prems(3) [of i] that Cons by (simp add: algebra_simps)
    qed (use Suc.prems(1) in simp)
    then have "strncpy_loop m s t (Suc n) x = \<dots>" using Suc.prems(2) Cons by simp
    moreover have "\<not> unat (s - (s + 1)) < n"
      using Suc.prems(1) by (simp add: diff_diff_eq [symmetric] unsigned_minus_1_eq_mask mask_eq_exp_minus_1)
    ultimately show ?thesis using Cons pred_u64 [of x s] by (cases "x = s") auto
  qed
qed

section \<open>Properties\<close>

text \<open>C16: kernel \<open>memmove\<close> copies exactly, whatever the overlap of the two ranges: after
  the call every destination byte holds the byte the source had before the call, and no other byte of
  memory has changed.  The destination may end at the top of the address space; the source must end
  strictly below it, because the test \<open>s + n > d\<close> wraps there.\<close>

theorem memmove_exact:
  assumes "unat dst + unat n \<le> 2 ^ 64" and "unat src + unat n < 2 ^ 64"
  shows "memmove m dst src n x = (if unat (x - dst) < unat n then m (src + (x - dst)) else m x)"
  by (rule memmove_eq [OF assms])

theorem memmove_exact_witness:
  "memmove (\<lambda>a. ucast a) 102 100 4 103 = 101 \<and> memmove (\<lambda>a. ucast a) 102 100 4 106 = 106"
  using memmove_exact [of 102 4 100 "\<lambda>a. ucast a" 103] memmove_exact [of 102 4 100 "\<lambda>a. ucast a" 106]
  by simp

end
