(* ===== verification/Spinlock.thy ===== *)
theory Spinlock
  imports Riscv
begin

text \<open>
  kernel/spinlock.c, kernel/spinlock.h, the CPU record of kernel/proc.h, and
  the interrupt enable bit of kernel/riscv.h.

  The state holds every CPU and one lock.  The routines are functions of the
  number of the CPU that runs them.  A step relation interleaves any number of
  CPUs at the atomic accesses of \<open>acquire\<close> and \<open>release\<close>, and its
  invariant gives mutual exclusion and the absence of panics.
\<close>

section \<open>CPUs and interrupts\<close>

record cpu =
  cpu_proc :: "nat option"
  noff :: int
  intena :: bool
  sie :: bool  \<comment> \<open>the SSTATUS_SIE bit of this hart\<close>

record spinlock =
  lk_locked :: bool
  lk_name :: string
  lk_cpu :: "nat option"

record lockst =
  cpus :: "nat \<Rightarrow> cpu"
  lk :: spinlock

definition upd_cpu :: "nat \<Rightarrow> (cpu \<Rightarrow> cpu) \<Rightarrow> lockst \<Rightarrow> lockst" where
  "upd_cpu c f s = s\<lparr>cpus := (cpus s)(c := f (cpus s c))\<rparr>"

definition intr_on :: "nat \<Rightarrow> lockst \<Rightarrow> lockst" where
  "intr_on c = upd_cpu c (\<lambda>u. u\<lparr>sie := True\<rparr>)"

definition intr_off :: "nat \<Rightarrow> lockst \<Rightarrow> lockst" where
  "intr_off c = upd_cpu c (\<lambda>u. u\<lparr>sie := False\<rparr>)"

definition intr_get :: "nat \<Rightarrow> lockst \<Rightarrow> bool" where
  "intr_get c s = sie (cpus s c)"

definition push_off :: "nat \<Rightarrow> lockst \<Rightarrow> lockst" where
  "push_off c s =
     (let old = intr_get c s;
          s1 = intr_off c s;
          s2 = (if noff (cpus s1 c) = 0 then upd_cpu c (\<lambda>u. u\<lparr>intena := old\<rparr>) s1 else s1)
      in upd_cpu c (\<lambda>u. u\<lparr>noff := noff u + 1\<rparr>) s2)"

definition pop_off :: "nat \<Rightarrow> lockst \<Rightarrow> (unit, lockst) outcome" where
  "pop_off c s =
     (if intr_get c s then Panic ''pop_off - interruptible''
      else if noff (cpus s c) < 1 then Panic ''pop_off''
      else
        let s1 = upd_cpu c (\<lambda>u. u\<lparr>noff := noff u - 1\<rparr>) s
        in Ret () (if noff (cpus s1 c) = 0 \<and> intena (cpus s1 c) then intr_on c s1 else s1))"

section \<open>The lock\<close>

definition initlock :: "string \<Rightarrow> lockst \<Rightarrow> lockst" where
  "initlock name s = s\<lparr>lk := \<lparr>lk_locked = False, lk_name = name, lk_cpu = None\<rparr>\<rparr>"

definition holding :: "nat \<Rightarrow> lockst \<Rightarrow> bool" where
  "holding c s \<longleftrightarrow> lk_locked (lk s) \<and> lk_cpu (lk s) = Some c"

text \<open>
  \<open>acquire\<close> in its three atomic parts: disabling interrupts and the check, one
  atomic swap (which returns the old value of \<open>locked\<close>), and the record of
  the holder.
\<close>

definition acquire_enter :: "nat \<Rightarrow> lockst \<Rightarrow> (unit, lockst) outcome" where
  "acquire_enter c s =
     (let s1 = push_off c s in if holding c s1 then Panic ''acquire'' else Ret () s1)"

definition test_and_set :: "lockst \<Rightarrow> bool \<times> lockst" where
  "test_and_set s = (lk_locked (lk s), s\<lparr>lk := (lk s)\<lparr>lk_locked := True\<rparr>\<rparr>)"

definition acquire_record :: "nat \<Rightarrow> lockst \<Rightarrow> lockst" where
  "acquire_record c s = s\<lparr>lk := (lk s)\<lparr>lk_cpu := Some c\<rparr>\<rparr>"

text \<open>Run alone, \<open>acquire\<close> spins for ever when the lock is taken: the outcome is \<open>Sleep\<close>.\<close>

definition acquire :: "nat \<Rightarrow> lockst \<Rightarrow> (unit, lockst) outcome" where
  "acquire c = kthen (acquire_enter c)
     (\<lambda>s. case test_and_set s of (old, s1) \<Rightarrow> if old then Sleep s1 else Ret () (acquire_record c s1))"

definition release_check :: "nat \<Rightarrow> lockst \<Rightarrow> (unit, lockst) outcome" where
  "release_check c s =
     (if \<not> holding c s then Panic ''release'' else Ret () (s\<lparr>lk := (lk s)\<lparr>lk_cpu := None\<rparr>\<rparr>))"

definition lock_release :: "lockst \<Rightarrow> lockst" where
  "lock_release s = s\<lparr>lk := (lk s)\<lparr>lk_locked := False\<rparr>\<rparr>"

definition release :: "nat \<Rightarrow> lockst \<Rightarrow> (unit, lockst) outcome" where
  "release c = kthen (release_check c) (\<lambda>s. pop_off c (lock_release s))"

lemmas cpu_ops = upd_cpu_def intr_on_def intr_off_def intr_get_def push_off_def pop_off_def Let_def
lemmas lock_ops = holding_def acquire_enter_def test_and_set_def acquire_record_def acquire_def
  release_check_def lock_release_def release_def kthen_def kbind_def

section \<open>Nesting of push_off and pop_off\<close>

primrec push_offs :: "nat \<Rightarrow> nat \<Rightarrow> lockst \<Rightarrow> lockst" where
  "push_offs 0 c s = s"
| "push_offs (Suc n) c s = push_offs n c (push_off c s)"

primrec pop_offs :: "nat \<Rightarrow> nat \<Rightarrow> lockst \<Rightarrow> (unit, lockst) outcome" where
  "pop_offs 0 c s = Ret () s"
| "pop_offs (Suc n) c s = kthen (pop_off c) (pop_offs n c) s"

lemma push_offs_noff: "noff (cpus (push_offs n c s) c) = noff (cpus s c) + int n"
  by (induction n arbitrary: s) (auto simp: cpu_ops)

lemma push_offs_Suc: "push_offs (Suc n) c s = push_off c (push_offs n c s)"
  by (induction n arbitrary: s) auto

lemma push_offs_frame:
  "lk (push_offs n c s) = lk s" "d \<noteq> c \<Longrightarrow> cpus (push_offs n c s) d = cpus s d"
  by (induction n arbitrary: s) (auto simp: cpu_ops)

lemma push_offs_cpu:
  "0 < n \<Longrightarrow> noff (cpus s c) = 0 \<Longrightarrow>
   cpus (push_offs n c s) c = (cpus s c)\<lparr>noff := int n, intena := sie (cpus s c), sie := False\<rparr>"
proof (induction n)
  case (Suc n)
  show ?case
  proof (cases "n = 0")
    case True
    then show ?thesis using Suc.prems by (simp add: cpu_ops)
  next
    case False
    then have "cpus (push_offs n c s) c = (cpus s c)\<lparr>noff := int n, intena := sie (cpus s c), sie := False\<rparr>"
      using Suc by simp
    then show ?thesis using False by (simp add: push_offs_Suc cpu_ops del: push_offs.simps)
  qed
qed simp

lemma cpu_sie_idem: "\<not> sie u \<Longrightarrow> u\<lparr>noff := x, sie := False\<rparr> = u\<lparr>noff := x\<rparr>"
  by (cases u) simp

lemma pop_offs_cpu:
  "0 < n \<Longrightarrow> noff (cpus s c) = int n \<Longrightarrow> \<not> sie (cpus s c) \<Longrightarrow>
   pop_offs n c s = Ret () (upd_cpu c (\<lambda>u. u\<lparr>noff := 0, sie := intena u\<rparr>) s)"
proof (induction n arbitrary: s)
  case (Suc n)
  show ?case
  proof (cases "n = 0")
    case True
    with Suc.prems show ?thesis by (simp add: cpu_ops kthen_def kbind_def cpu_sie_idem)
  next
    case False
    let ?t = "upd_cpu c (\<lambda>u. u\<lparr>noff := noff u - 1\<rparr>) s"
    have "pop_off c s = Ret () ?t"
      using Suc.prems False by (simp add: cpu_ops)
    moreover have "pop_offs n c ?t = Ret () (upd_cpu c (\<lambda>u. u\<lparr>noff := 0, sie := intena u\<rparr>) ?t)"
      using Suc.prems False by (intro Suc.IH) (simp_all add: upd_cpu_def)
    ultimately show ?thesis by (simp add: upd_cpu_def)
  qed
qed simp

lemma pop_off_one:
  "noff (cpus s c) = 1 \<Longrightarrow> \<not> sie (cpus s c) \<Longrightarrow>
   \<exists>t. pop_off c s = Ret () t \<and> lk t = lk s \<and> noff (cpus t c) = 0 \<and> (\<forall>d. d \<noteq> c \<longrightarrow> cpus t d = cpus s d)"
  by (simp add: cpu_ops)

section \<open>Interleaving of CPUs\<close>

text \<open>
  Where a CPU is in \<open>acquire(lk); ...; release(lk)\<close>: outside; past the check and
  spinning; past the successful swap; in the critical section; past
  \<open>lk->cpu = 0\<close>; past the release of \<open>locked\<close>; stopped by a panic.
\<close>

datatype lpc = Outside | Spinning | Swapped | Critical | Cleared | Unlocked | Panicked

inductive lock_step :: "(nat \<Rightarrow> lpc) \<times> lockst \<Rightarrow> (nat \<Rightarrow> lpc) \<times> lockst \<Rightarrow> bool" where
  enter: "pc c = Outside \<Longrightarrow> acquire_enter c s = Ret () t \<Longrightarrow>
    lock_step (pc, s) (pc(c := Spinning), t)"
| enter_panic: "pc c = Outside \<Longrightarrow> acquire_enter c s = Panic e \<Longrightarrow>
    lock_step (pc, s) (pc(c := Panicked), s)"
| spin: "pc c = Spinning \<Longrightarrow> test_and_set s = (True, t) \<Longrightarrow> lock_step (pc, s) (pc, t)"
| swap: "pc c = Spinning \<Longrightarrow> test_and_set s = (False, t) \<Longrightarrow>
    lock_step (pc, s) (pc(c := Swapped), t)"
| record_cpu: "pc c = Swapped \<Longrightarrow> lock_step (pc, s) (pc(c := Critical), acquire_record c s)"
| clear: "pc c = Critical \<Longrightarrow> release_check c s = Ret () t \<Longrightarrow>
    lock_step (pc, s) (pc(c := Cleared), t)"
| clear_panic: "pc c = Critical \<Longrightarrow> release_check c s = Panic e \<Longrightarrow>
    lock_step (pc, s) (pc(c := Panicked), s)"
| unlock: "pc c = Cleared \<Longrightarrow> lock_step (pc, s) (pc(c := Unlocked), lock_release s)"
| leave: "pc c = Unlocked \<Longrightarrow> pop_off c s = Ret () t \<Longrightarrow>
    lock_step (pc, s) (pc(c := Outside), t)"
| leave_panic: "pc c = Unlocked \<Longrightarrow> pop_off c s = Panic e \<Longrightarrow>
    lock_step (pc, s) (pc(c := Panicked), s)"

text \<open>Boot: no CPU holds the lock and no CPU has nested \<open>push_off\<close>s.\<close>

definition lock_init :: "(nat \<Rightarrow> lpc) \<times> lockst \<Rightarrow> bool" where
  "lock_init ps \<longleftrightarrow> fst ps = (\<lambda>_. Outside) \<and> \<not> lk_locked (lk (snd ps)) \<and> lk_cpu (lk (snd ps)) = None
     \<and> (\<forall>c. noff (cpus (snd ps) c) = 0)"

inductive lock_reach :: "(nat \<Rightarrow> lpc) \<times> lockst \<Rightarrow> bool" where
  init: "lock_init ps \<Longrightarrow> lock_reach ps"
| step: "lock_reach ps \<Longrightarrow> lock_step ps qs \<Longrightarrow> lock_reach qs"

definition owns :: "lpc \<Rightarrow> bool" where
  "owns p \<longleftrightarrow> p \<in> {Swapped, Critical, Cleared}"

text \<open>
  The holder field may be stale only between the swap and the record, so the
  invariant ties it to the critical section, and \<open>locked\<close> to ownership.
\<close>

definition lock_inv :: "(nat \<Rightarrow> lpc) \<times> lockst \<Rightarrow> bool" where
  "lock_inv ps \<longleftrightarrow> (case ps of (pc, s) \<Rightarrow>
     (\<forall>c d. owns (pc c) \<longrightarrow> owns (pc d) \<longrightarrow> c = d)
     \<and> (lk_locked (lk s) \<longleftrightarrow> (\<exists>c. owns (pc c)))
     \<and> (\<forall>c. lk_cpu (lk s) = Some c \<longleftrightarrow> pc c = Critical)
     \<and> (\<forall>c. pc c \<noteq> Panicked)
     \<and> (\<forall>c. pc c = Outside \<longrightarrow> noff (cpus s c) = 0)
     \<and> (\<forall>c. pc c \<noteq> Outside \<longrightarrow> noff (cpus s c) = 1 \<and> \<not> sie (cpus s c)))"

lemma ex_owns_upd:
  "\<not> owns (pc c) \<Longrightarrow> \<not> owns p \<Longrightarrow> (\<exists>d. owns ((pc(c := p)) d)) \<longleftrightarrow> (\<exists>d. owns (pc d))"
  by (metis fun_upd_apply)

lemma lock_inv_init: "lock_init ps \<Longrightarrow> lock_inv ps"
  by (cases ps) (auto simp: lock_init_def lock_inv_def owns_def)

lemma lock_inv_step: "lock_step ps qs \<Longrightarrow> lock_inv ps \<Longrightarrow> lock_inv qs"
proof (induction rule: lock_step.induct)
  case (enter pc c s t)
  then show ?case
    by (auto simp: lock_inv_def owns_def acquire_enter_def holding_def cpu_ops split: if_splits)
next
  case (enter_panic pc c s e)
  then show ?case
    by (auto simp: lock_inv_def owns_def acquire_enter_def holding_def cpu_ops split: if_splits)
next
  case (spin pc c s t)
  then show ?case by (auto simp: lock_inv_def test_and_set_def)
next
  case (swap pc c s t)
  then show ?case by (auto simp: lock_inv_def owns_def test_and_set_def)
next
  case (record_cpu pc c s)
  then show ?case by (auto simp: lock_inv_def owns_def acquire_record_def)
next
  case (clear pc c s t)
  then show ?case by (auto simp: lock_inv_def owns_def release_check_def holding_def split: if_splits)
next
  case (clear_panic pc c s e)
  then show ?case by (auto simp: lock_inv_def owns_def release_check_def holding_def split: if_splits)
next
  case (unlock pc c s)
  then show ?case by (auto simp: lock_inv_def owns_def lock_release_def)
next
  case (leave pc c s t)
  then obtain u where "pop_off c s = Ret () u" "lk u = lk s" "noff (cpus u c) = 0"
      "\<forall>d. d \<noteq> c \<longrightarrow> cpus u d = cpus s d"
    using pop_off_one [of s c] by (auto simp: lock_inv_def)
  then have t: "lk t = lk s" "noff (cpus t c) = 0" "\<forall>d. d \<noteq> c \<longrightarrow> cpus t d = cpus s d"
    using leave by simp_all
  have no: "\<not> owns (pc c)" "\<not> owns Outside" using leave by (auto simp: owns_def)
  have ex: "(\<exists>d. owns ((pc(c := Outside)) d)) \<longleftrightarrow> (\<exists>d. owns (pc d))"
    using no by (rule ex_owns_upd)
  have "lk_locked (lk t) \<longleftrightarrow> (\<exists>d. owns ((pc(c := Outside)) d))"
    unfolding ex t(1) using leave by (simp add: lock_inv_def)
  moreover have "\<forall>d. lk_cpu (lk t) = Some d \<longleftrightarrow> (pc(c := Outside)) d = Critical"
    using leave t(1) by (auto simp: lock_inv_def)
  ultimately show ?case using leave t no by (simp add: lock_inv_def)
next
  case (leave_panic pc c s e)
  then show ?case using pop_off_one [of s c] by (auto simp: lock_inv_def)
qed

lemma lock_reach_inv: "lock_reach ps \<Longrightarrow> lock_inv ps"
  by (induction rule: lock_reach.induct) (auto intro: lock_inv_init lock_inv_step)

section \<open>Properties\<close>

text \<open>C6: spin locks give mutual exclusion and never panic.  In every interleaving of any
  number of CPUs that each run \<open>acquire(lk)\<close> and \<open>release(lk)\<close> in turn, at most one
  CPU is between its successful swap and its release of \<open>locked\<close>, the CPU in the critical
  section is the one \<open>holding\<close> reports, and no CPU reaches one of the panics of
  \<open>acquire\<close>, \<open>release\<close> or \<open>pop_off\<close>.\<close>

theorem spinlock_mutual_exclusion:
  assumes "lock_reach (pc, s)"
  shows "(owns (pc c) \<longrightarrow> owns (pc d) \<longrightarrow> c = d) \<and> (pc c = Critical \<longleftrightarrow> holding c s) \<and> pc c \<noteq> Panicked"
proof -
  have inv: "lock_inv (pc, s)" using assms by (rule lock_reach_inv)
  then have "pc c = Critical \<longleftrightarrow> holding c s"
    by (auto simp: lock_inv_def holding_def owns_def)
  with inv show ?thesis by (auto simp: lock_inv_def)
qed

definition boot_locks :: lockst where
  "boot_locks = \<lparr>cpus = \<lambda>_. \<lparr>cpu_proc = None, noff = 0, intena = False, sie = True\<rparr>,
     lk = \<lparr>lk_locked = False, lk_name = ''kmem'', lk_cpu = None\<rparr>\<rparr>"

lemma boot_lock_run:
  "\<exists>s. lock_reach ((\<lambda>_. Outside)(0 := Critical), s) \<and> lk_cpu (lk s) = Some 0"
proof -
  let ?s1 = "push_off 0 boot_locks"
  let ?s2 = "snd (test_and_set ?s1)"
  have "lock_reach (\<lambda>_. Outside, boot_locks)"
    by (rule lock_reach.init) (simp add: lock_init_def boot_locks_def)
  then have "lock_reach ((\<lambda>_. Outside)(0 := Spinning), ?s1)"
    by (rule lock_reach.step, intro lock_step.enter)
      (simp_all add: acquire_enter_def holding_def cpu_ops boot_locks_def)
  then have "lock_reach ((\<lambda>_. Outside)(0 := Spinning, 0 := Swapped), ?s2)"
    by (rule lock_reach.step, intro lock_step.swap)
      (simp_all add: test_and_set_def cpu_ops boot_locks_def)
  then have "lock_reach ((\<lambda>_. Outside)(0 := Spinning, 0 := Swapped, 0 := Critical), acquire_record 0 ?s2)"
    by (rule lock_reach.step, intro lock_step.record_cpu) simp
  moreover have "(\<lambda>_. Outside)(0 := Spinning, 0 := Swapped, 0 := Critical) = (\<lambda>_. Outside)(0 := Critical)"
    by simp
  ultimately show ?thesis
    by (intro exI [of _ "acquire_record 0 ?s2"]) (simp add: acquire_record_def)
qed

theorem spinlock_mutual_exclusion_witness:
  "\<exists>s. holding 0 s \<and> lock_reach ((\<lambda>_. Outside)(0 := Critical), s)"
proof -
  obtain s where s: "lock_reach ((\<lambda>_. Outside)(0 := Critical), s)" using boot_lock_run by blast
  then show ?thesis using spinlock_mutual_exclusion [OF s, of 0 0] by auto
qed



end
