(* ===== verification/Klock.thy ===== *)
theory Klock
  imports Spinlock
begin

text \<open>
  The locks of the kernel as its routines use them.  The state of a routine
  carries the list of the spinlocks its CPU holds; \<open>kacquire\<close> and
  \<open>krelease\<close> are \<open>acquire\<close> and \<open>release\<close> of kernel/spinlock.c seen
  from that CPU, with the same panics.  The locale \<open>mutex\<close> is the contract
  both levels satisfy.
\<close>

section \<open>The spinlocks of the kernel\<close>

datatype lockid =
    PrLock | UartTxLock | ConsLock | KmemLock | PidLock | WaitLock | TicksLock | ProcLock nat
  | BcacheLock | LogLock | ItableLock | FtableLock | PipeLock u64 | DiskLock | SleepLk nat

record klocks =
  locks :: "lockid list"

definition kholding :: "lockid \<Rightarrow> 'z klocks_scheme \<Rightarrow> bool" where
  "kholding l s \<longleftrightarrow> l \<in> set (locks s)"

definition kacquire :: "lockid \<Rightarrow> 'z klocks_scheme \<Rightarrow> (unit, 'z klocks_scheme) outcome" where
  "kacquire l s = (if kholding l s then Panic ''acquire'' else Ret () (s\<lparr>locks := l # locks s\<rparr>))"

definition krelease :: "lockid \<Rightarrow> 'z klocks_scheme \<Rightarrow> (unit, 'z klocks_scheme) outcome" where
  "krelease l s = (if \<not> kholding l s then Panic ''release'' else Ret () (s\<lparr>locks := remove1 l (locks s)\<rparr>))"

text \<open>\<open>acquire(l); m; release(l)\<close> with the value of \<open>m\<close> as the result.\<close>

definition critical ::
  "lockid \<Rightarrow> ('z klocks_scheme \<Rightarrow> ('a, 'z klocks_scheme) outcome) \<Rightarrow> 'z klocks_scheme
   \<Rightarrow> ('a, 'z klocks_scheme) outcome" where
  "critical l m = kthen (kacquire l) (kbind m (\<lambda>x. kthen (krelease l) (kret x)))"

lemma kacquire_free [simp]: "l \<notin> set (locks s) \<Longrightarrow> kacquire l s = Ret () (s\<lparr>locks := l # locks s\<rparr>)"
  by (simp add: kacquire_def kholding_def)

lemma kacquire_held [simp]: "l \<in> set (locks s) \<Longrightarrow> kacquire l s = Panic ''acquire''"
  by (simp add: kacquire_def kholding_def)

lemma krelease_top [simp]: "locks s = l # ls \<Longrightarrow> krelease l s = Ret () (s\<lparr>locks := ls\<rparr>)"
  by (simp add: krelease_def kholding_def)

lemma krelease_held [simp]: "l \<in> set (locks s) \<Longrightarrow> krelease l s = Ret () (s\<lparr>locks := remove1 l (locks s)\<rparr>)"
  by (simp add: krelease_def kholding_def)

text \<open>
  A critical section whose body keeps the list of held locks has the effect of
  its body and leaves the locks as it found them.
\<close>

lemma critical_Ret:
  assumes "l \<notin> set (locks s)" and "m (s\<lparr>locks := l # locks s\<rparr>) = Ret x t" and "locks t = l # locks s"
  shows "critical l m s = Ret x (t\<lparr>locks := locks s\<rparr>)"
  using assms by (simp add: critical_def kthen_def kbind_def kret_def)

lemma critical_held: "l \<in> set (locks s) \<Longrightarrow> critical l m s = Panic ''acquire''"
  by (simp add: critical_def kthen_def kbind_def)

lemma critical_kput:
  assumes "l \<notin> set (locks s)"
    and "f (s\<lparr>locks := l # locks s\<rparr>) = (f s)\<lparr>locks := l # locks s\<rparr>" and "locks (f s) = locks s"
  shows "critical l (kput f) s = Ret () (f s)"
proof -
  have "(f s)\<lparr>locks := locks s\<rparr> = f s" using assms(3) by (metis klocks.surjective klocks.update_convs(1))
  then show ?thesis using assms by (simp add: critical_Ret [where t = "(f s)\<lparr>locks := l # locks s\<rparr>"] kput_def)
qed

section \<open>The contract of a lock\<close>

locale mutex =
  fixes acq :: "'s \<Rightarrow> (unit, 's) outcome" and rel :: "'s \<Rightarrow> (unit, 's) outcome"
    and held :: "'s \<Rightarrow> bool" and avail :: "'s \<Rightarrow> bool" and wf :: "'s \<Rightarrow> bool"
  assumes acq_avail: "wf s \<Longrightarrow> \<not> held s \<Longrightarrow> avail s \<Longrightarrow> \<exists>t. acq s = Ret () t \<and> held t \<and> wf t"
    and acq_held: "wf s \<Longrightarrow> held s \<Longrightarrow> acq s = Panic ''acquire''"
    and rel_held: "wf s \<Longrightarrow> held s \<Longrightarrow> \<exists>t. rel s = Ret () t \<and> \<not> held t \<and> avail t \<and> wf t"
    and rel_free: "\<not> held s \<Longrightarrow> rel s = Panic ''release''"
begin

text \<open>A critical section run on its own returns and frees the lock, any number of times.\<close>

primrec sections :: "nat \<Rightarrow> 's \<Rightarrow> (unit, 's) outcome" where
  "sections 0 s = Ret () s"
| "sections (Suc n) s = kthen acq (kthen rel (sections n)) s"

lemma sections_return:
  "wf s \<Longrightarrow> \<not> held s \<Longrightarrow> avail s \<Longrightarrow> \<exists>t. sections n s = Ret () t \<and> \<not> held t \<and> avail t \<and> wf t"
proof (induction n arbitrary: s)
  case (Suc n)
  then obtain t where "acq s = Ret () t" "held t" "wf t" using acq_avail by blast
  moreover from this obtain u where "rel t = Ret () u" "\<not> held u" "avail u" "wf u" using rel_held by blast
  ultimately show ?case using Suc.IH [of u] by simp
qed simp

lemma double_acquire_panics: "wf s \<Longrightarrow> \<not> held s \<Longrightarrow> avail s \<Longrightarrow> kthen acq acq s = Panic ''acquire''"
  using acq_avail acq_held by (fastforce simp: kthen_def kbind_def)

end

interpretation kl: mutex "kacquire l" "krelease l" "kholding l" "\<lambda>_. True" "\<lambda>s. distinct (locks s)"
  for l :: lockid
  by unfold_locales (auto simp: kacquire_def krelease_def kholding_def)

text \<open>The same contract for \<open>acquire\<close> and \<open>release\<close> of one CPU on the concrete lock.\<close>

definition cpu_wf :: "nat \<Rightarrow> lockst \<Rightarrow> bool" where
  "cpu_wf c s \<longleftrightarrow> 0 \<le> noff (cpus s c) \<and> (0 < noff (cpus s c) \<longrightarrow> \<not> sie (cpus s c))
     \<and> (holding c s \<longrightarrow> 0 < noff (cpus s c))"

interpretation sl: mutex "acquire c" "release c" "holding c" "\<lambda>s. \<not> lk_locked (lk s)" "cpu_wf c"
  for c :: nat
proof (unfold_locales, goal_cases)
  case (1 s) then show ?case by (auto simp: cpu_wf_def lock_ops cpu_ops)
next
  case (2 s) then show ?case by (auto simp: cpu_wf_def lock_ops cpu_ops)
next
  case (3 s) then show ?case by (auto simp: cpu_wf_def lock_ops cpu_ops)
next
  case (4 s) then show ?case by (simp add: lock_ops)
qed

end
