(* ===== verification/Printf.thy ===== *)
theory Printf
  imports Klock Cstring
begin

text \<open>
  kernel/printf.c, and the synchronous output path of kernel/console.c and
  kernel/uart.c it prints through.  \<open>uart_out\<close> is the sequence of bytes
  written to the transmit register.  A format that asks for an argument the call
  does not pass has undefined behaviour in C; it is \<open>None\<close> here.
\<close>

record cons_st = klocks +
  uart_out :: bytes
  panicking :: bool
  panicked :: bool

section \<open>Character output\<close>

definition BACKSPACE :: u32 where "BACKSPACE = 0x100"

text \<open>
  A CPU that prints while another one has panicked spins for ever; the wait for
  the transmit register ends because the device empties it.
\<close>

definition uartputc_sync :: "u32 \<Rightarrow> 'z cons_st_scheme \<Rightarrow> (unit, 'z cons_st_scheme) outcome" where
  "uartputc_sync c s = (if panicked s then Sleep s else Ret () (s\<lparr>uart_out := uart_out s @ [ucast c]\<rparr>))"

definition consputc :: "u32 \<Rightarrow> 'z cons_st_scheme \<Rightarrow> (unit, 'z cons_st_scheme) outcome" where
  "consputc c =
     (if c = BACKSPACE
      then kthen (uartputc_sync 8) (kthen (uartputc_sync 32) (uartputc_sync 8))
      else uartputc_sync c)"

section \<open>Formatting\<close>

definition digits :: string where "digits = ''0123456789abcdef''"

text \<open>The digits of \<open>x\<close>, least significant first, as \<open>printint\<close> puts them into \<open>buf\<close>.\<close>

function int_digits :: "nat \<Rightarrow> nat \<Rightarrow> string" where
  "int_digits base x =
     digits ! (x mod base) # (if base < 2 \<or> x div base = 0 then [] else int_digits base (x div base))"
  by pat_completeness auto
termination by (relation "measure snd") (auto intro!: div_less_dividend intro: Nat.gr0I)

declare int_digits.simps [simp del]

definition printint_buf :: "u64 \<Rightarrow> nat \<Rightarrow> bool \<Rightarrow> string" where
  "printint_buf xx base sign =
     (let neg = (sign \<and> sint xx < 0);
          x = (if neg then - xx else xx)
      in int_digits base (unat x) @ (if neg then ''-'' else []))"

definition char32 :: "char \<Rightarrow> u32" where "char32 c = of_char c"

definition printint :: "u64 \<Rightarrow> nat \<Rightarrow> bool \<Rightarrow> u32 list" where
  "printint xx base sign = map char32 (rev (printint_buf xx base sign))"

definition printptr :: "u64 \<Rightarrow> u32 list" where
  "printptr x = map char32 ''0x'' @
     map (\<lambda>i. char32 (digits ! unat (drop_bit 60 (push_bit (4 * i) x)))) [0..<16]"

text \<open>The arguments after the format, as the callee finds them.\<close>

datatype parg = PNum u64 | PStr "bytes option"

fun va_num :: "parg list \<Rightarrow> (u64 \<times> parg list) option" where
  "va_num (PNum x # ap) = Some (x, ap)"
| "va_num _ = None"

fun va_str :: "parg list \<Rightarrow> (bytes option \<times> parg list) option" where
  "va_str (PStr x # ap) = Some (x, ap)"
| "va_str _ = None"

definition fmt_at :: "string \<Rightarrow> nat \<Rightarrow> char" where
  "fmt_at fmt i = (if i < length fmt then fmt ! i else CHR 0x00)"

text \<open>Integer conversions take an \<open>int\<close>, a 32-bit or a 64-bit unsigned argument.\<close>

datatype width = WInt | WUint | WLong
datatype conv = CInt nat bool width | CPtr | CChar | CStr | CPercent | CEnd | CUnknown char

primrec width_arg :: "width \<Rightarrow> u64 \<Rightarrow> u64" where
  "width_arg WInt x = signed_take_bit 31 x"
| "width_arg WUint x = take_bit 32 x"
| "width_arg WLong x = x"

text \<open>The chain of tests on \<open>c0\<close>, \<open>c1\<close>, \<open>c2\<close>: the conversion and the extra characters it uses.\<close>

definition printf_conv :: "char \<Rightarrow> char \<Rightarrow> char \<Rightarrow> conv \<times> nat" where
  "printf_conv c0 c1 c2 =
     (if c0 = CHR ''d'' then (CInt 10 True WInt, 0)
      else if c0 = CHR ''l'' \<and> c1 = CHR ''d'' then (CInt 10 True WLong, 1)
      else if c0 = CHR ''l'' \<and> c1 = CHR ''l'' \<and> c2 = CHR ''d'' then (CInt 10 True WLong, 2)
      else if c0 = CHR ''u'' then (CInt 10 False WUint, 0)
      else if c0 = CHR ''l'' \<and> c1 = CHR ''u'' then (CInt 10 False WLong, 1)
      else if c0 = CHR ''l'' \<and> c1 = CHR ''l'' \<and> c2 = CHR ''u'' then (CInt 10 False WLong, 2)
      else if c0 = CHR ''x'' then (CInt 16 False WUint, 0)
      else if c0 = CHR ''l'' \<and> c1 = CHR ''x'' then (CInt 16 False WLong, 1)
      else if c0 = CHR ''l'' \<and> c1 = CHR ''l'' \<and> c2 = CHR ''x'' then (CInt 16 False WLong, 2)
      else if c0 = CHR ''p'' then (CPtr, 0)
      else if c0 = CHR ''c'' then (CChar, 0)
      else if c0 = CHR ''s'' then (CStr, 0)
      else if c0 = CHR ''%'' then (CPercent, 0)
      else if c0 = CHR 0x00 then (CEnd, 0)
      else (CUnknown c0, 0))"

definition put_conv :: "conv \<Rightarrow> parg list \<Rightarrow> (u32 list \<times> parg list) option" where
  "put_conv cv ap = (case cv of
       CInt base sign w \<Rightarrow> map_option (\<lambda>(x, ap'). (printint (width_arg w x) base sign, ap')) (va_num ap)
     | CPtr \<Rightarrow> map_option (\<lambda>(x, ap'). (printptr x, ap')) (va_num ap)
     | CChar \<Rightarrow> map_option (\<lambda>(x, ap'). ([ucast x], ap')) (va_num ap)
     | CStr \<Rightarrow> map_option (\<lambda>(x, ap').
         (case x of None \<Rightarrow> map char32 ''(null)'' | Some bs \<Rightarrow> map ucast (takeWhile (\<lambda>b. b \<noteq> 0) bs), ap')) (va_str ap)
     | CPercent \<Rightarrow> Some ([char32 (CHR ''%'')], ap)
     | CEnd \<Rightarrow> Some ([], ap)
     | CUnknown c0 \<Rightarrow> Some ([char32 (CHR ''%''), char32 c0], ap))"

text \<open>The arguments of the calls of \<open>consputc\<close>, in order.\<close>

function printf_chars :: "string \<Rightarrow> parg list \<Rightarrow> u32 list option" where
  "printf_chars [] ap = Some []"
| "printf_chars (cx # r) ap =
     (if cx = CHR 0x00 then Some []
      else if cx \<noteq> CHR ''%'' then map_option (\<lambda>out. char32 cx # out) (printf_chars r ap)
      else
        let c0 = fmt_at r 0;
            c1 = (if c0 \<noteq> CHR 0x00 then fmt_at r 1 else CHR 0x00);
            c2 = (if c1 \<noteq> CHR 0x00 then fmt_at r 2 else CHR 0x00)
        in case printf_conv c0 c1 c2 of (cv, k) \<Rightarrow>
           if cv = CEnd then Some []
           else case put_conv cv ap of
                  None \<Rightarrow> None
                | Some (out, ap') \<Rightarrow> map_option (\<lambda>out'. out @ out') (printf_chars (drop (k + 1) r) ap'))"
  by pat_completeness auto
termination by (relation "measure (\<lambda>(f, ap). length f)") auto

definition cons_printf :: "string \<Rightarrow> parg list \<Rightarrow> 'z cons_st_scheme \<Rightarrow> (unit, 'z cons_st_scheme) outcome" where
  "cons_printf fmt ap =
     (case printf_chars fmt ap of
        None \<Rightarrow> kpanic ''undefined: va_arg''
      | Some cs \<Rightarrow> kfor consputc cs)"

definition printf :: "string \<Rightarrow> parg list \<Rightarrow> 'z cons_st_scheme \<Rightarrow> (unit, 'z cons_st_scheme) outcome" where
  "printf fmt ap s =
     (if panicking s then cons_printf fmt ap s else critical PrLock (cons_printf fmt ap) s)"

text \<open>The state in which \<open>panic\<close> spins; the outcome \<open>Panic\<close> of the other theories stands for it.\<close>

definition panic :: "bytes \<Rightarrow> 'z cons_st_scheme \<Rightarrow> ('a, 'z cons_st_scheme) outcome" where
  "panic msg s =
     kthen (kput (\<lambda>s. s\<lparr>panicking := True\<rparr>))
       (kthen (printf ''panic: '' [])
          (kthen (printf (''%s'' @ [CHR 0x0A]) [PStr (Some msg)])
             (kthen (kput (\<lambda>s. s\<lparr>panicked := True\<rparr>)) ksleep))) s"

section \<open>Effect on the output\<close>

definition cons_out :: "u32 list \<Rightarrow> bytes" where
  "cons_out cs = concat (map (\<lambda>c. if c = BACKSPACE then [8, 32, 8] else [ucast c]) cs)"

lemma consputc_Ret:
  "\<not> panicked s \<Longrightarrow> consputc c s = Ret () (s\<lparr>uart_out := uart_out s @ cons_out [c]\<rparr>)"
  by (simp add: consputc_def uartputc_sync_def kthen_def kbind_def cons_out_def)

lemma kfor_consputc:
  "\<not> panicked s \<Longrightarrow> kfor consputc cs s = Ret () (s\<lparr>uart_out := uart_out s @ cons_out cs\<rparr>)"
proof (induction cs arbitrary: s)
  case Nil then show ?case by (simp add: cons_out_def)
next
  case (Cons c cs)
  then show ?case by (simp add: consputc_Ret [of s c] Cons.IH) (simp add: cons_out_def)
qed

lemma printf_Ret:
  assumes "\<not> panicked s" and "PrLock \<notin> set (locks s)" and "printf_chars fmt ap = Some cs"
  shows "printf fmt ap s = Ret () (s\<lparr>uart_out := uart_out s @ cons_out cs\<rparr>)"
  using assms by (simp add: printf_def cons_printf_def kfor_consputc critical_Ret)

section \<open>Integers\<close>

definition digit_val :: "char \<Rightarrow> nat" where
  "digit_val c = (let n = of_char c in if n < 58 then n - 48 else n - 87)"

definition parse_num :: "nat \<Rightarrow> string \<Rightarrow> nat" where
  "parse_num base cs = foldl (\<lambda>v c. base * v + digit_val c) 0 cs"

fun parse_int :: "nat \<Rightarrow> string \<Rightarrow> int" where
  "parse_int base [] = 0"
| "parse_int base (c # cs) = (if c = CHR ''-'' then - int (parse_num base cs) else int (parse_num base (c # cs)))"

lemma digits_val:
  assumes "d < 16"
  shows "digit_val (digits ! d) = d" and "digits ! d \<noteq> CHR ''-''"
proof -
  have "\<forall>d \<in> set [0..<16]. digit_val (digits ! d) = d \<and> digits ! d \<noteq> CHR ''-''" by code_simp
  then show "digit_val (digits ! d) = d" and "digits ! d \<noteq> CHR ''-''" using assms by auto
qed

lemma parse_num_snoc: "parse_num base (cs @ [c]) = base * parse_num base cs + digit_val c"
  by (simp add: parse_num_def)

lemma digit_less:
  assumes "2 \<le> base" and "base \<le> 16"
  shows "x mod base < (16 :: nat)"
proof -
  have "x mod base < base" using assms by simp
  then show ?thesis using assms by linarith
qed

lemma parse_int_digits:
  "2 \<le> base \<Longrightarrow> base \<le> 16 \<Longrightarrow> parse_num base (rev (int_digits base x)) = x"
proof (induction base x rule: int_digits.induct)
  case (1 base x)
  then show ?case using digit_less [of base x]
    by (subst int_digits.simps) (auto simp: parse_num_snoc digits_val parse_num_def div_eq_0_iff)
qed

lemma int_digits_length: "2 \<le> base \<Longrightarrow> x < base ^ n \<Longrightarrow> 0 < n \<Longrightarrow> length (int_digits base x) \<le> n"
proof (induction base x arbitrary: n rule: int_digits.induct)
  case (1 base x)
  then obtain k where k: "n = Suc k" by (cases n) auto
  show ?case
  proof (cases "x div base = 0")
    case True
    then show ?thesis using k by (subst int_digits.simps) simp
  next
    case False
    have "x div base < base ^ k" using 1 k by (simp add: less_mult_imp_div_less mult.commute)
    moreover have "0 < k" using False calculation by (cases k) auto
    ultimately have "length (int_digits base (x div base)) \<le> k" using 1 False by simp
    then show ?thesis using k by (subst int_digits.simps) simp
  qed
qed

lemma int_digits_minus: "2 \<le> base \<Longrightarrow> base \<le> 16 \<Longrightarrow> CHR ''-'' \<notin> set (int_digits base x)"
proof (induction base x rule: int_digits.induct)
  case (1 base x)
  then show ?case using digits_val(2) [OF digit_less [of base x]]
    by (subst int_digits.simps) (auto simp del: One_nat_def)
qed

lemma int_digits_nonempty: "int_digits base x \<noteq> []"
  by (subst int_digits.simps) simp

lemma printint_buf_neg:
  "sint xx < 0 \<Longrightarrow> printint_buf xx base True = int_digits base (unat (- xx)) @ ''-''"
  by (simp add: printint_buf_def)

lemma printint_buf_pos:
  "sign \<longrightarrow> 0 \<le> sint xx \<Longrightarrow> printint_buf xx base sign = int_digits base (unat xx)"
  by (auto simp: printint_buf_def Let_def)

lemma parse_int_rev_digits:
  assumes "2 \<le> base" and "base \<le> 16"
  shows "parse_int base (rev (int_digits base x)) = int x"
proof -
  obtain c cs where c: "rev (int_digits base x) = c # cs"
    using int_digits_nonempty by (metis Nil_is_rev_conv neq_Nil_conv)
  then have "c \<in> set (int_digits base x)" by (metis list.set_intros(1) set_rev)
  then have "c \<noteq> CHR ''-''" using int_digits_minus [OF assms] by auto
  with c parse_int_digits [OF assms, of x] show ?thesis by simp
qed

lemma base_pow_20:
  assumes "10 \<le> (base :: nat)"
  shows "unat (x :: u64) < base ^ 20" and "sint x < 0 \<Longrightarrow> unat (- x) < base ^ 19"
proof -
  have p: "10 ^ k \<le> base ^ k" for k using assms by (rule power_mono) simp
  have "unat x < 10 ^ 20" using u64_bound [of x] by simp
  then show "unat x < base ^ 20" using p [of 20] by linarith
  assume "sint x < 0"
  then have "int (unat (- x)) \<le> 9223372036854775808"
    using unat_neg [of x] by (simp add: sint_u64 split: if_splits)
  then have "unat (- x) < 10000000000000000000" by linarith
  then have "unat (- x) < 10 ^ 19" by simp
  then show "unat (- x) < base ^ 19" using p [of 19] by linarith
qed

text \<open>C14: \<open>printint\<close> writes at most the 20 characters of its buffer, and what it
  prints reads back as the number: the signed value when \<open>sign\<close> is set
  (the most negative one included), the unsigned value otherwise.\<close>

theorem printint_roundtrip:
  assumes "10 \<le> base" and "base \<le> 16"
  shows "length (printint_buf xx base sign) \<le> 20
    \<and> parse_int base (rev (printint_buf xx base sign)) = (if sign then sint xx else uint xx)"
proof (cases "sign \<and> sint xx < 0")
  case True
  have b: "2 \<le> base" using assms by simp
  have "length (int_digits base (unat (- xx))) \<le> 19"
    using base_pow_20(2) [OF assms(1)] True by (intro int_digits_length [OF b]) auto
  then show ?thesis
    using True unat_neg [of xx] parse_int_digits [OF b assms(2)] by (simp add: printint_buf_neg)
next
  case False
  have b: "2 \<le> base" using assms by simp
  have "length (int_digits base (unat xx)) \<le> 20"
    using base_pow_20(1) [OF assms(1)] by (intro int_digits_length [OF b]) auto
  moreover have "sign \<longrightarrow> sint xx = uint xx" using False uint_bounded [of xx] by (auto simp: sint_u64)
  ultimately show ?thesis
    using False parse_int_rev_digits [OF b assms(2)] by (auto simp: printint_buf_pos)
qed

theorem printint_roundtrip_witness:
  "length (printint_buf 0x8000000000000000 10 True) \<le> 20
   \<and> parse_int 10 (rev (printint_buf 0x8000000000000000 10 True)) = - 9223372036854775808"
  using printint_roundtrip [of 10 "0x8000000000000000" True] by simp

end
