(* ===== verification/Kalloc.thy ===== *)
theory Kalloc
  imports Printf
begin

text \<open>
  kernel/kalloc.c: the physical page allocator.  The free list is the linked
  list of the source: its head is \<open>kmem.freelist\<close> and every free page holds
  the address of the next one in its first eight bytes.  \<open>kend\<close> is the linker
  symbol \<open>end\<close>.  The interface of the allocator is the locale
  \<open>page_allocator\<close>, interpreted on \<open>kalloc\<close> and \<open>kfree\<close>.
\<close>

record kmem_st = cons_st +
  pmem :: memory       \<comment> \<open>memory as the kernel addresses it\<close>
  freelist :: u64
  kend :: u64          \<comment> \<open>first address after the kernel, set by kernel.ld\<close>

section \<open>Operations\<close>

definition kfree :: "u64 \<Rightarrow> 'z kmem_st_scheme \<Rightarrow> (unit, 'z kmem_st_scheme) outcome" where
  "kfree pa s =
     (if pa mod PGSIZE \<noteq> 0 \<or> pa < kend s \<or> pa \<ge> PHYSTOP then Panic ''kfree''
      else
        kthen (kput (\<lambda>s. s\<lparr>pmem := memset (pmem s) pa 1 (ucast PGSIZE)\<rparr>))
          (critical KmemLock
             (kput (\<lambda>s. s\<lparr>pmem := store64 (pmem s) pa (freelist s), freelist := pa\<rparr>))) s)"

definition kalloc :: "'z kmem_st_scheme \<Rightarrow> (u64, 'z kmem_st_scheme) outcome" where
  "kalloc =
     kbind (critical KmemLock
              (\<lambda>s. let r = freelist s
                   in Ret r (if r \<noteq> 0 then s\<lparr>freelist := load64 (pmem s) r\<rparr> else s)))
       (\<lambda>r. kthen (kput (\<lambda>s. if r \<noteq> 0 then s\<lparr>pmem := memset (pmem s) r 5 (ucast PGSIZE)\<rparr> else s))
              (kret r))"

text \<open>
  The loop of \<open>freerange\<close> advances a 64-bit pointer; \<open>None\<close> stands for not
  returning.
\<close>

partial_function (option) freerange_loop ::
  "u64 \<Rightarrow> u64 \<Rightarrow> 'z kmem_st_scheme \<Rightarrow> (unit, 'z kmem_st_scheme) outcome option" where
  "freerange_loop p pa_end s =
     (if p + PGSIZE \<le> pa_end
      then (case kfree p s of
              Ret _ t \<Rightarrow> freerange_loop (p + PGSIZE) pa_end t
            | Panic e \<Rightarrow> Some (Panic e)
            | Sleep t \<Rightarrow> Some (Sleep t))
      else Some (Ret () s))"

definition freerange ::
  "u64 \<Rightarrow> u64 \<Rightarrow> 'z kmem_st_scheme \<Rightarrow> (unit, 'z kmem_st_scheme) outcome option" where
  "freerange pa_start pa_end s = freerange_loop (PGROUNDUP pa_start) pa_end s"

definition kinit :: "'z kmem_st_scheme \<Rightarrow> (unit, 'z kmem_st_scheme) outcome option" where
  "kinit s = freerange (kend s) PHYSTOP s"

section \<open>Representation of the free list\<close>

primrec freelist_at :: "memory \<Rightarrow> u64 \<Rightarrow> u64 list \<Rightarrow> bool" where
  "freelist_at m p [] \<longleftrightarrow> p = 0"
| "freelist_at m p (x # xs) \<longleftrightarrow> p = x \<and> x \<noteq> 0 \<and> freelist_at m (load64 m x) xs"

definition valid_page :: "'z kmem_st_scheme \<Rightarrow> u64 \<Rightarrow> bool" where
  "valid_page s x \<longleftrightarrow> page_aligned x \<and> kend s \<le> x \<and> x < PHYSTOP"

definition kmem_inv :: "'z kmem_st_scheme \<Rightarrow> u64 list \<Rightarrow> bool" where
  "kmem_inv s xs \<longleftrightarrow> freelist_at (pmem s) (freelist s) xs \<and> distinct xs
     \<and> (\<forall>x \<in> set xs. valid_page s x) \<and> 0 < kend s \<and> KmemLock \<notin> set (locks s)"

lemma load64_same_page:
  assumes "page_aligned p" "page_aligned q" "p \<noteq> q" "\<And>x. \<not> in_page q x \<Longrightarrow> m x = n x"
  shows "load64 m p = load64 n p"
proof (rule load64_agree_u64)
  fix k :: u64 assume "k < 8"
  then have "k < 4096" by (rule order_less_le_trans) simp
  then have "in_page p (p + k)" by (rule in_page_offset)
  with assms show "m (p + k) = n (p + k)" by (meson in_page_disjoint)
qed

lemma freelist_at_frame:
  assumes "freelist_at m p xs" and "page_aligned q" and "q \<notin> set xs"
    and "\<forall>x \<in> set xs. page_aligned x" and "\<And>x. \<not> in_page q x \<Longrightarrow> m x = n x"
  shows "freelist_at n p xs"
  using assms
proof (induction xs arbitrary: p)
  case (Cons x xs)
  then have "load64 m x = load64 n x" by (intro load64_same_page [of x q]) auto
  with Cons show ?case by auto
qed simp

lemma PGSIZE_u32: "unat (ucast PGSIZE :: u32) = 4096"
  by (simp add: PGSIZE_def)

lemma memset_page: "memset m p c (ucast PGSIZE) x = (if in_page p x then c else m x)"
  by (simp add: memset_eq PGSIZE_u32 in_page_def word_less_nat_alt PGSIZE_def)

lemma store64_page: "\<not> in_page p x \<Longrightarrow> store64 m p d x = m x"
proof (rule store64_frame_u64)
  assume "\<not> in_page p x"
  then have "4096 \<le> x - p" by (simp add: in_page_def PGSIZE_def not_less)
  then show "8 \<le> x - p" by (rule order_trans [rotated]) simp
qed

section \<open>Correctness of the operations\<close>

lemma kfree_eq:
  "page_aligned x \<Longrightarrow> kend s \<le> x \<Longrightarrow> x < PHYSTOP \<Longrightarrow> KmemLock \<notin> set (locks s) \<Longrightarrow>
   kfree x s = Ret () (s\<lparr>pmem := store64 (memset (pmem s) x 1 (ucast PGSIZE)) x (freelist s), freelist := x\<rparr>)"
  by (simp add: kfree_def page_aligned_def not_less not_le critical_kput)

lemma kalloc_eq:
  "KmemLock \<notin> set (locks s) \<Longrightarrow> freelist s \<noteq> 0 \<Longrightarrow>
   kalloc s = Ret (freelist s) (s\<lparr>freelist := load64 (pmem s) (freelist s),
     pmem := memset (pmem s) (freelist s) 5 (ucast PGSIZE)\<rparr>)"
  by (simp add: kalloc_def kbind_def critical_Ret Let_def kret_def)

lemma kalloc_eq_null: "KmemLock \<notin> set (locks s) \<Longrightarrow> freelist s = 0 \<Longrightarrow> kalloc s = Ret 0 s"
  by (simp add: kalloc_def kbind_def critical_Ret Let_def kret_def kthen_def kput_def)

lemma kfree_ok:
  assumes "kmem_inv s xs" and "valid_page s x" and "x \<notin> set xs"
  shows "\<exists>t. kfree x s = Ret () t \<and> kmem_inv t (x # xs) \<and> kend t = kend s
    \<and> (\<forall>a. \<not> in_page x a \<longrightarrow> pmem t a = pmem s a)"
proof -
  let ?m = "store64 (memset (pmem s) x 1 (ucast PGSIZE)) x (freelist s)"
  let ?t = "s\<lparr>pmem := ?m, freelist := x\<rparr>"
  have x: "page_aligned x" "kend s \<le> x" "x < PHYSTOP" "0 < kend s"
    using assms by (auto simp: valid_page_def kmem_inv_def)
  then have eq: "kfree x s = Ret () ?t"
    using assms(1) by (simp add: kfree_eq kmem_inv_def)
  have same: "\<And>a. \<not> in_page x a \<Longrightarrow> pmem s a = ?m a" by (simp add: store64_page memset_page)
  have "x \<noteq> 0" using x by auto
  moreover have "freelist_at ?m (freelist s) xs"
    by (rule freelist_at_frame [of "pmem s" _ xs x, OF _ x(1) assms(3) _ same])
      (use assms(1) in \<open>auto simp: kmem_inv_def valid_page_def\<close>)
  ultimately have "kmem_inv ?t (x # xs)"
    using assms by (simp add: kmem_inv_def mem_simps valid_page_def)
  with eq same show ?thesis by auto
qed

lemma kalloc_nil: "kmem_inv s [] \<Longrightarrow> kalloc s = Ret 0 s"
  by (simp add: kmem_inv_def kalloc_eq_null)

lemma kalloc_cons:
  assumes "kmem_inv s (x # xs)"
  shows "\<exists>t. kalloc s = Ret x t \<and> kmem_inv t xs \<and> kend t = kend s
    \<and> (\<forall>a. pmem t a = (if in_page x a then 5 else pmem s a))"
proof -
  have x: "freelist s = x" "x \<noteq> 0" "freelist_at (pmem s) (load64 (pmem s) x) xs" "x \<notin> set xs"
      "page_aligned x" "\<forall>y \<in> set xs. page_aligned y"
    using assms by (auto simp: kmem_inv_def valid_page_def)
  let ?t = "s\<lparr>freelist := load64 (pmem s) x, pmem := memset (pmem s) x 5 (ucast PGSIZE)\<rparr>"
  have "kalloc s = Ret x ?t" using x assms by (simp add: kalloc_eq kmem_inv_def)
  moreover have "freelist_at (pmem ?t) (freelist ?t) xs"
    using x(3) by (simp, rule freelist_at_frame [of "pmem s" _ xs x, OF _ x(5,4,6)]) (simp_all add: memset_page)
  then have "kmem_inv ?t xs" using assms by (simp add: kmem_inv_def valid_page_def)
  ultimately show ?thesis by (auto simp: memset_page)
qed

section \<open>The allocator's contract\<close>

text \<open>
  What the clients of the allocator rely on: \<open>inv s xs\<close> says that the pages
  \<open>xs\<close> are free in \<open>s\<close>, \<open>ok s\<close> which addresses are pages at all, and
  \<open>contents\<close> is the memory the pages lie in.
\<close>

locale page_allocator =
  fixes alloc :: "'s \<Rightarrow> (u64, 's) outcome"
    and free :: "u64 \<Rightarrow> 's \<Rightarrow> (unit, 's) outcome"
    and inv :: "'s \<Rightarrow> u64 list \<Rightarrow> bool"
    and ok :: "'s \<Rightarrow> u64 \<Rightarrow> bool"
    and contents :: "'s \<Rightarrow> memory"
  assumes free_distinct: "inv s xs \<Longrightarrow> distinct xs"
    and free_pages: "inv s xs \<Longrightarrow> x \<in> set xs \<Longrightarrow> ok s x"
    and nonzero: "inv s xs \<Longrightarrow> ok s x \<Longrightarrow> x \<noteq> 0"
    and alloc_empty: "inv s [] \<Longrightarrow> alloc s = Ret 0 s"
    and alloc_first: "inv s (x # xs) \<Longrightarrow> \<exists>t. alloc s = Ret x t \<and> inv t xs \<and> ok t = ok s
      \<and> (\<forall>a. \<not> in_page x a \<longrightarrow> contents t a = contents s a)"
    and free_page: "inv s xs \<Longrightarrow> ok s x \<Longrightarrow> x \<notin> set xs \<Longrightarrow>
      \<exists>t. free x s = Ret () t \<and> inv t (x # xs) \<and> ok t = ok s
      \<and> (\<forall>a. \<not> in_page x a \<longrightarrow> contents t a = contents s a)"
begin

lemma alloc_zero_iff: "inv s xs \<Longrightarrow> (\<exists>t. alloc s = Ret 0 t) \<longleftrightarrow> xs = []"
  using alloc_empty alloc_first free_pages nonzero
  by (cases xs) force+

lemma alloc_returns:
  assumes "inv s xs" and "alloc s = Ret p t" and "p \<noteq> 0"
  shows "xs = p # tl xs" and "inv t (tl xs)" and "ok t = ok s" and "ok s p"
    and "\<not> in_page p a \<Longrightarrow> contents t a = contents s a"
proof -
  from assms obtain ys where "xs = p # ys"
    using alloc_empty alloc_first by (cases xs) force+
  then show "xs = p # tl xs" "inv t (tl xs)" "ok t = ok s" "ok s p"
      "\<not> in_page p a \<Longrightarrow> contents t a = contents s a"
    using alloc_first [of s p ys] free_pages assms by auto
qed

lemma alloc_total: "inv s xs \<Longrightarrow> \<exists>p t. alloc s = Ret p t"
  using alloc_empty alloc_first by (cases xs) blast+

lemma free_alloc_same:
  assumes "inv s xs" and "ok s x" and "x \<notin> set xs" and "free x s = Ret () t"
  shows "\<exists>u. alloc t = Ret x u \<and> inv u xs"
  using free_page [OF assms(1-3)] alloc_first [of t x xs] assms(4) by auto

end

lemma valid_page_kend: "kend t = kend s \<Longrightarrow> valid_page t = valid_page s"
  by (simp add: valid_page_def fun_eq_iff)

interpretation kmem: page_allocator kalloc kfree kmem_inv valid_page pmem
proof (unfold_locales, goal_cases)
  case (1 s xs) then show ?case by (simp add: kmem_inv_def)
next
  case (2 s xs x) then show ?case by (simp add: kmem_inv_def)
next
  case (3 s xs x) then show ?case by (auto simp: kmem_inv_def valid_page_def)
next
  case (4 s) then show ?case by (rule kalloc_nil)
next
  case (5 s x xs) from kalloc_cons [OF this] show ?case by (auto dest: valid_page_kend)
next
  case (6 s xs x) from kfree_ok [OF this] show ?case by (auto dest: valid_page_kend)
qed

section \<open>Initialisation\<close>

definition pages_from :: "u64 \<Rightarrow> nat \<Rightarrow> u64 list" where
  "pages_from p k = map (\<lambda>i. p + of_nat i * PGSIZE) [0..<k]"

lemma pages_from_Suc: "pages_from p (Suc k) = p # pages_from (p + PGSIZE) k"
proof -
  have "[0..<Suc k] = 0 # map Suc [0..<k]" by (simp add: map_Suc_upt upt_conv_Cons del: upt_Suc)
  then show ?thesis by (simp add: pages_from_def algebra_simps)
qed

lemma page_step:
  assumes "page_aligned p" and "unat p + 4096 \<le> 2281701376"
  shows "unat (p + PGSIZE) = unat p + 4096" and "page_aligned (p + PGSIZE)"
    and "p + PGSIZE \<le> PHYSTOP" and "p < PHYSTOP"
proof -
  show u: "unat (p + PGSIZE) = unat p + 4096"
    using assms(2) by (simp add: PGSIZE_def unat_word_ariths)
  show "page_aligned (p + PGSIZE)" using assms(1) by (simp add: page_aligned_nat u)
  show "p + PGSIZE \<le> PHYSTOP" using assms(2) by (simp add: word_le_nat_alt u PHYSTOP_val)
  show "p < PHYSTOP" using assms(2) by (simp add: word_less_nat_alt PHYSTOP_val)
qed

lemma freerange_loop_ok:
  assumes "page_aligned p" and "kend s \<le> p" and "unat p + 4096 * k = 2281701376"
    and "kmem_inv s xs" and "\<forall>x \<in> set xs. x < p"
  shows "\<exists>t. freerange_loop p PHYSTOP s = Some (Ret () t) \<and> kend t = kend s
    \<and> kmem_inv t (rev (pages_from p k) @ xs)"
  using assms
proof (induction k arbitrary: p s xs)
  case 0
  then have "unat p = unat PHYSTOP" by (simp add: PHYSTOP_val)
  then have "p = PHYSTOP" by (simp add: word_unat_eq_iff)
  then have "\<not> p + PGSIZE \<le> PHYSTOP" by (simp add: PHYSTOP_val PGSIZE_def)
  then show ?case using 0 by (subst freerange_loop.simps) (simp add: pages_from_def)
next
  case (Suc k)
  note step = page_step [OF Suc.prems(1)]
  have le: "unat p + 4096 \<le> 2281701376" using Suc.prems(3) by simp
  have "p \<notin> set xs" using Suc.prems(5) by auto
  moreover have "valid_page s p" using Suc.prems(1,2) step(4) [OF le] by (simp add: valid_page_def)
  ultimately obtain t where t: "kfree p s = Ret () t" "kmem_inv t (p # xs)" "kend t = kend s"
    using kfree_ok [OF Suc.prems(4)] by blast
  have lt: "p < p + PGSIZE" using step(1) [OF le] by (simp add: word_less_nat_alt)
  have "\<exists>u. freerange_loop (p + PGSIZE) PHYSTOP t = Some (Ret () u) \<and> kend u = kend t
      \<and> kmem_inv u (rev (pages_from (p + PGSIZE) k) @ p # xs)"
  proof (rule Suc.IH)
    show "page_aligned (p + PGSIZE)" using step(2) [OF le] .
    show "kend t \<le> p + PGSIZE" using t(3) Suc.prems(2) lt by simp
    show "unat (p + PGSIZE) + 4096 * k = 2281701376" using step(1) [OF le] Suc.prems(3) by simp
    show "kmem_inv t (p # xs)" by (rule t(2))
    show "\<forall>x \<in> set (p # xs). x < p + PGSIZE" using Suc.prems(5) lt by auto
  qed
  then show ?case
    using t step(3) [OF le] by (subst freerange_loop.simps) (simp add: pages_from_Suc)
qed

lemma set_pages_from:
  assumes "page_aligned p" and "unat p + 4096 * k = 2281701376"
  shows "set (pages_from p k) = {x. page_aligned x \<and> p \<le> x \<and> x < PHYSTOP}"
  using assms
proof (induction k arbitrary: p)
  case 0
  then show ?case by (auto simp: pages_from_def PHYSTOP_val word_le_nat_alt word_less_nat_alt)
next
  case (Suc k)
  have le: "unat p + 4096 \<le> 2281701376" using Suc.prems(2) by simp
  note step = page_step [OF Suc.prems(1) le]
  have "set (pages_from (p + PGSIZE) k) = {x. page_aligned x \<and> p + PGSIZE \<le> x \<and> x < PHYSTOP}"
    using step Suc.prems by (intro Suc.IH) simp_all
  moreover have "p \<le> x \<longleftrightarrow> x = p \<or> p + PGSIZE \<le> x" if "page_aligned x" for x
    using that Suc.prems(1) step(1)
    by (auto simp: word_le_nat_alt word_unat_eq_iff page_aligned_nat elim!: dvdE)
  ultimately show ?case
    using Suc.prems(1) step(4) by (auto simp: pages_from_Suc)
qed

lemma PGROUNDUP_least:
  assumes "unat a \<le> 2281701376" and "page_aligned x"
  shows "PGROUNDUP a \<le> x \<longleftrightarrow> a \<le> x"
proof -
  have "unat (PGROUNDUP a) = (unat a + 4095) div 4096 * 4096"
    using assms(1) by (intro PGROUNDUP_nat) simp
  with assms(2) show ?thesis by (auto simp: word_le_nat_alt page_aligned_nat elim!: dvdE)
qed

lemma kinit_ok:
  assumes "0 < kend s" and "kend s \<le> PHYSTOP" and "freelist s = 0" and "KmemLock \<notin> set (locks s)"
  shows "\<exists>t xs. kinit s = Some (Ret () t) \<and> kend t = kend s \<and> kmem_inv t xs
    \<and> set xs = {x. valid_page s x}"
proof -
  let ?p = "PGROUNDUP (kend s)"
  have b: "unat (kend s) \<le> 2281701376" using assms(2) by (simp add: word_le_nat_alt PHYSTOP_val)
  have u: "unat ?p = (unat (kend s) + 4095) div 4096 * 4096" using b by (intro PGROUNDUP_nat) simp
  then have "unat ?p \<le> 2281701376" "4096 dvd unat ?p" using b by auto
  then obtain j where "unat ?p = 4096 * j" "j \<le> 557056" by (auto elim!: dvdE)
  then have k: "unat ?p + 4096 * (557056 - j) = 2281701376" (is "_ + 4096 * ?k = _") by simp
  have "kmem_inv s []" using assms by (simp add: kmem_inv_def)
  moreover have "kend s \<le> ?p" using PGROUNDUP_least [OF b PGROUNDUP_aligned] by blast
  ultimately obtain t where "freerange_loop ?p PHYSTOP s = Some (Ret () t)" "kend t = kend s"
      "kmem_inv t (rev (pages_from ?p ?k))"
    using freerange_loop_ok [OF PGROUNDUP_aligned _ k, of s "[]"] by auto
  moreover have "set (rev (pages_from ?p ?k)) = {x. valid_page s x}"
    using set_pages_from [OF PGROUNDUP_aligned k] PGROUNDUP_least [OF b] by (auto simp: valid_page_def)
  ultimately show ?thesis by (auto simp: kinit_def freerange_def)
qed

text \<open>C11: After \<open>kinit\<close> the free list is well formed and holds every
  page-aligned address from the end of the kernel to \<open>PHYSTOP\<close>, each once; the
  loop of \<open>freerange\<close> ends and no \<open>kfree\<close> panics.\<close>

theorem kinit_frees_all:
  assumes "0 < kend s" and "kend s \<le> PHYSTOP" and "freelist s = 0" and "KmemLock \<notin> set (locks s)"
  shows "\<exists>t xs. kinit s = Some (Ret () t) \<and> freelist_at (pmem t) (freelist t) xs \<and> distinct xs
    \<and> set xs = {x. page_aligned x \<and> kend s \<le> x \<and> x < PHYSTOP}"
  using kinit_ok [OF assms] by (auto simp: kmem_inv_def valid_page_def)

definition boot_mem :: kmem_st where
  "boot_mem = \<lparr>locks = [], uart_out = [], panicking = False, panicked = False,
     pmem = (\<lambda>_. 0), freelist = 0, kend = 0x80021d50\<rparr>"

theorem kinit_frees_all_witness:
  "\<exists>t xs. kinit boot_mem = Some (Ret () t) \<and> freelist_at (pmem t) (freelist t) xs \<and> distinct xs
    \<and> set xs = {x. page_aligned x \<and> 0x80021d50 \<le> x \<and> x < PHYSTOP}"
  using kinit_frees_all [of boot_mem] by (simp add: boot_mem_def PHYSTOP_val)

section \<open>Conservation of pages\<close>

text \<open>
  Any sequence of calls in which clients free only pages they hold; the second
  component is the set of pages that are held.
\<close>

inductive page_step :: "'z kmem_st_scheme \<times> u64 set \<Rightarrow> 'z kmem_st_scheme \<times> u64 set \<Rightarrow> bool" where
  got: "kalloc s = Ret p t \<Longrightarrow> p \<noteq> 0 \<Longrightarrow> page_step (s, H) (t, insert p H)"
| none: "kalloc s = Ret 0 t \<Longrightarrow> page_step (s, H) (t, H)"
| freed: "p \<in> H \<Longrightarrow> kfree p s = Ret () t \<Longrightarrow> page_step (s, H) (t, H - {p})"
| wrote: "\<forall>a. (\<forall>p \<in> H. \<not> in_page p a) \<longrightarrow> m a = pmem s a \<Longrightarrow> page_step (s, H) (s\<lparr>pmem := m\<rparr>, H)"

definition pages_split :: "'z kmem_st_scheme \<times> u64 set \<Rightarrow> bool" where
  "pages_split sH \<longleftrightarrow> (\<exists>xs. kmem_inv (fst sH) xs \<and> set xs \<inter> snd sH = {}
     \<and> set xs \<union> snd sH = {x. valid_page (fst sH) x})"

lemma freelist_at_agree:
  assumes "freelist_at m p xs" and "\<And>x a. x \<in> set xs \<Longrightarrow> in_page x a \<Longrightarrow> n a = m a"
  shows "freelist_at n p xs"
  using assms
proof (induction xs arbitrary: p)
  case (Cons x xs)
  have "load64 n x = load64 m x"
  proof (rule load64_agree_u64)
    fix k :: u64 assume "k < 8"
    then have "k < 4096" by (rule order_less_le_trans) simp
    then show "n (x + k) = m (x + k)" using Cons.prems(2) in_page_offset by auto
  qed
  moreover have "freelist_at n (load64 m x) xs" using Cons.prems by (intro Cons.IH) auto
  ultimately show ?case using Cons.prems(1) by simp
qed simp

lemma pages_split_write:
  assumes "pages_split (s, H)" and "\<forall>a. (\<forall>p \<in> H. \<not> in_page p a) \<longrightarrow> m a = pmem s a"
  shows "pages_split (s\<lparr>pmem := m\<rparr>, H)"
proof -
  from assms(1) obtain xs where xs: "kmem_inv s xs" "set xs \<inter> H = {}" "set xs \<union> H = {x. valid_page s x}"
    by (auto simp: pages_split_def)
  have "m a = pmem s a" if "x \<in> set xs" "in_page x a" for x a
  proof -
    have "\<not> in_page p a" if p: "p \<in> H" for p
    proof (rule in_page_disjoint)
      show "page_aligned x" "page_aligned p" "x \<noteq> p" "in_page x a"
        using xs p \<open>x \<in> set xs\<close> \<open>in_page x a\<close> by (auto simp: valid_page_def)
    qed
    then show ?thesis using assms(2) by blast
  qed
  then have "kmem_inv (s\<lparr>pmem := m\<rparr>) xs"
    using xs(1) freelist_at_agree [of "pmem s" "freelist s" xs m] by (auto simp: kmem_inv_def valid_page_def)
  with xs show ?thesis by (auto simp: pages_split_def valid_page_def)
qed

lemma page_step_split: "page_step sH tH \<Longrightarrow> pages_split sH \<Longrightarrow> pages_split tH"
proof (induction rule: page_step.induct)
  case (got s p t H)
  then obtain xs where xs: "kmem_inv s xs" "set xs \<inter> H = {}" "set xs \<union> H = {x. valid_page s x}"
    by (auto simp: pages_split_def)
  then obtain ys where ys: "xs = p # ys" "kmem_inv t ys" "valid_page t = valid_page s"
    using got kmem.alloc_returns by (metis list.sel(3))
  moreover have "p \<notin> set ys" using kmem.free_distinct [OF xs(1)] ys(1) by simp
  ultimately show ?case using xs unfolding pages_split_def by (intro exI [of _ ys]) auto
next
  case (none s t H)
  then obtain xs where "kmem_inv s xs" "set xs \<inter> H = {}" "set xs \<union> H = {x. valid_page s x}"
    by (auto simp: pages_split_def)
  moreover from this none have "xs = []" using kmem.alloc_zero_iff by blast
  moreover from this calculation none have "t = s" using kmem.alloc_empty [of s] by simp
  ultimately show ?case unfolding pages_split_def by (intro exI [of _ xs]) simp
next
  case (freed p H s t)
  then obtain xs where xs: "kmem_inv s xs" "set xs \<inter> H = {}" "set xs \<union> H = {x. valid_page s x}"
    by (auto simp: pages_split_def)
  have p: "valid_page s p" "p \<notin> set xs" using xs freed by blast+
  then have "kmem_inv t (p # xs)" "valid_page t = valid_page s"
    using kmem.free_page [OF xs(1) p] freed by auto
  with xs p show ?case unfolding pages_split_def by (intro exI [of _ "p # xs"]) auto
next
  case (wrote H m s)
  then show ?case using pages_split_write by blast
qed

lemma page_steps_split: "page_step\<^sup>*\<^sup>* sH tH \<Longrightarrow> pages_split sH \<Longrightarrow> pages_split tH"
  by (induction rule: rtranclp_induct) (auto intro: page_step_split)


definition tiny_mem :: kmem_st where
  "tiny_mem = \<lparr>locks = [], uart_out = [], panicking = False, panicked = False,
     pmem = (\<lambda>_. 0), freelist = 0, kend = 0x88000000\<rparr>"


end
