(* ===== verification/Proc.thy ===== *)
theory Proc
  imports Kalloc
begin

text \<open>
  The process table of kernel/proc.h and kernel/proc.c and the operations on it
  that need neither the page tables nor the file system: sleeping and waking,
  killing, giving up the CPU, listing, and the registers a system call reads its
  arguments from.  The table \<open>procs\<close> has one entry per slot of \<open>proc[NPROC]\<close>;
  a pointer into it is an index.  \<open>curproc\<close> is \<open>mycpu()->proc\<close> of the CPU that
  runs the routine.
\<close>

section \<open>Data\<close>

datatype procstate = UNUSED | USED | SLEEPING | RUNNABLE | RUNNING | ZOMBIE

text \<open>The wait channels of the kernel: the addresses passed to \<open>sleep\<close>.\<close>

datatype chan =
    ChProc nat | ChTicks | ChTx | ChCons | ChLog | ChSleepLock nat | ChBuf nat | ChDiskFree
  | ChPipeRead u64 | ChPipeWrite u64

record ctx =
  c_ra :: u64
  c_sp :: u64
  c_s :: "u64 list"  \<comment> \<open>s0 to s11\<close>

record proc =
  p_state :: procstate
  p_chan :: "chan option"
  p_killed :: u32
  p_xstate :: u32
  p_pid :: u32
  p_waiting_tick :: u32
  p_parent :: "nat option"
  p_kstack :: u64
  p_sz :: u64
  p_pagetable :: u64
  p_trapframe :: u64
  p_context :: ctx
  p_ofile :: "nat option list"
  p_cwd :: "nat option"
  p_name :: bytes
  p_cpu_quota :: u32
  p_cpu_used :: u32
  p_throttled :: bool
  p_violations :: u32

definition ECO_OFF :: u32 where "ECO_OFF = 0"
definition ECO_QUOTA :: u32 where "ECO_QUOTA = 1"
definition WINDOW_SIZE :: u32 where "WINDOW_SIZE = 100"

record proc_st = kmem_st +
  procs :: "proc list"
  curproc :: "nat option"
  initproc :: "nat option"
  nextpid :: u32
  ticks :: u32
  quota_window_start :: u32
  eco_mode :: u32

definition upd_proc :: "nat \<Rightarrow> (proc \<Rightarrow> proc) \<Rightarrow> 'z proc_st_scheme \<Rightarrow> 'z proc_st_scheme" where
  "upd_proc i f s = s\<lparr>procs := (procs s)[i := f (procs s ! i)]\<rparr>"

text \<open>\<open>myproc()\<close> where the result is dereferenced.\<close>

definition myproc :: "'z proc_st_scheme \<Rightarrow> (nat, 'z proc_st_scheme) outcome" where
  "myproc s = (case curproc s of None \<Rightarrow> Panic ''null pointer'' | Some i \<Rightarrow> Ret i s)"

text \<open>The static table before \<open>procinit\<close>: all zero.\<close>

definition zero_proc :: proc where
  "zero_proc = \<lparr>p_state = UNUSED, p_chan = None, p_killed = 0, p_xstate = 0, p_pid = 0, p_waiting_tick = 0,
     p_parent = None, p_kstack = 0, p_sz = 0, p_pagetable = 0, p_trapframe = 0,
     p_context = \<lparr>c_ra = 0, c_sp = 0, c_s = replicate 12 0\<rparr>, p_ofile = replicate NOFILE None, p_cwd = None,
     p_name = replicate 16 0, p_cpu_quota = 0, p_cpu_used = 0, p_throttled = False, p_violations = 0\<rparr>"

section \<open>Process identifiers and initialisation\<close>

definition allocpid :: "'z proc_st_scheme \<Rightarrow> (u32, 'z proc_st_scheme) outcome" where
  "allocpid = critical PidLock (\<lambda>s. Ret (nextpid s) (s\<lparr>nextpid := nextpid s + 1\<rparr>))"

definition procinit :: "'z proc_st_scheme \<Rightarrow> (unit, 'z proc_st_scheme) outcome" where
  "procinit s =
     kfor (\<lambda>i. kput (upd_proc i (\<lambda>p. p\<lparr>p_state := UNUSED, p_kstack := KSTACK (of_nat i)\<rparr>)))
       [0..<length (procs s)] s"

text \<open>The fields \<open>allocproc\<close> sets in a slot it has found, and those \<open>freeproc\<close> clears.\<close>

definition found_proc :: "u32 \<Rightarrow> proc \<Rightarrow> proc" where
  "found_proc pid p = p\<lparr>p_pid := pid, p_state := USED, p_waiting_tick := 0,
     p_cpu_quota := 20, p_cpu_used := 0, p_throttled := False, p_violations := 0\<rparr>"

definition clear_proc :: "proc \<Rightarrow> proc" where
  "clear_proc p = p\<lparr>p_pagetable := 0, p_sz := 0, p_pid := 0, p_parent := None,
     p_name := (p_name p)[0 := 0], p_chan := None, p_killed := 0, p_xstate := 0, p_state := UNUSED\<rparr>"

section \<open>Giving up the CPU\<close>

text \<open>
  \<open>noff\<close> is the number of locks held; interrupts are off while it is not zero.
  The context switch is the outcome \<open>Sleep\<close>.
\<close>

definition sched :: "'z proc_st_scheme \<Rightarrow> (unit, 'z proc_st_scheme) outcome" where
  "sched = kbind myproc (\<lambda>p s.
     if \<not> kholding (ProcLock p) s then Panic ''sched p->lock''
     else if length (locks s) \<noteq> 1 then Panic ''sched locks''
     else if p_state (procs s ! p) = RUNNING then Panic ''sched RUNNING''
     else Sleep s)"

definition yield :: "'z proc_st_scheme \<Rightarrow> (unit, 'z proc_st_scheme) outcome" where
  "yield = kbind myproc (\<lambda>p.
     kthen (kacquire (ProcLock p))
       (kthen (kput (upd_proc p (\<lambda>q. q\<lparr>p_state := RUNNABLE\<rparr>)))
          (kthen sched (krelease (ProcLock p)))))"

text \<open>What \<open>sleep\<close> and \<open>yield\<close> do once the scheduler has switched back.\<close>

definition yield_resume :: "nat \<Rightarrow> 'z proc_st_scheme \<Rightarrow> (unit, 'z proc_st_scheme) outcome" where
  "yield_resume p = krelease (ProcLock p)"

definition sleep_resume :: "nat \<Rightarrow> lockid \<Rightarrow> 'z proc_st_scheme \<Rightarrow> (unit, 'z proc_st_scheme) outcome" where
  "sleep_resume p l =
     kthen (kput (upd_proc p (\<lambda>q. q\<lparr>p_chan := None\<rparr>)))
       (kthen (krelease (ProcLock p)) (kacquire l))"

definition sleep :: "chan \<Rightarrow> lockid \<Rightarrow> 'z proc_st_scheme \<Rightarrow> (unit, 'z proc_st_scheme) outcome" where
  "sleep ch l = kbind myproc (\<lambda>p.
     kthen (kacquire (ProcLock p))
       (kthen (krelease l)
          (kthen (kput (upd_proc p (\<lambda>q. q\<lparr>p_chan := Some ch, p_state := SLEEPING\<rparr>)))
             (kthen sched (sleep_resume p l)))))"

section \<open>Waking and killing\<close>

definition wake_proc :: "chan option \<Rightarrow> proc \<Rightarrow> proc" where
  "wake_proc ch p = (if p_state p = SLEEPING \<and> p_chan p = ch then p\<lparr>p_state := RUNNABLE\<rparr> else p)"

definition wakeup :: "chan option \<Rightarrow> 'z proc_st_scheme \<Rightarrow> (unit, 'z proc_st_scheme) outcome" where
  "wakeup ch s =
     kfor (\<lambda>i s. if Some i \<noteq> curproc s
                 then critical (ProcLock i) (kput (upd_proc i (wake_proc ch))) s
                 else Ret () s)
       [0..<length (procs s)] s"

definition kill_proc :: "proc \<Rightarrow> proc" where
  "kill_proc p = (let p1 = p\<lparr>p_killed := 1\<rparr>
                  in if p_state p1 = SLEEPING then p1\<lparr>p_state := RUNNABLE\<rparr> else p1)"

primrec kkill_loop :: "u32 \<Rightarrow> nat list \<Rightarrow> 'z proc_st_scheme \<Rightarrow> (u32, 'z proc_st_scheme) outcome" where
  "kkill_loop pid [] s = Ret (- 1) s"
| "kkill_loop pid (i # is) s =
     kthen (kacquire (ProcLock i))
       (\<lambda>s. if p_pid (procs s ! i) = pid
            then kthen (kput (upd_proc i kill_proc)) (kthen (krelease (ProcLock i)) (kret 0)) s
            else kthen (krelease (ProcLock i)) (kkill_loop pid is) s) s"

definition kkill :: "u32 \<Rightarrow> 'z proc_st_scheme \<Rightarrow> (u32, 'z proc_st_scheme) outcome" where
  "kkill pid s = kkill_loop pid [0..<length (procs s)] s"

definition setkilled :: "nat \<Rightarrow> 'z proc_st_scheme \<Rightarrow> (unit, 'z proc_st_scheme) outcome" where
  "setkilled i = critical (ProcLock i) (kput (upd_proc i (\<lambda>p. p\<lparr>p_killed := 1\<rparr>)))"

definition killed :: "nat \<Rightarrow> 'z proc_st_scheme \<Rightarrow> (u32, 'z proc_st_scheme) outcome" where
  "killed i = critical (ProcLock i) (kget (\<lambda>s. p_killed (procs s ! i)))"

definition reparent :: "nat \<Rightarrow> 'z proc_st_scheme \<Rightarrow> (unit, 'z proc_st_scheme) outcome" where
  "reparent p s =
     kfor (\<lambda>pp s. if p_parent (procs s ! pp) = Some p
                  then kthen (kput (upd_proc pp (\<lambda>q. q\<lparr>p_parent := initproc s\<rparr>)))
                         (wakeup (map_option ChProc (initproc s))) s
                  else Ret () s)
       [0..<length (procs s)] s"

section \<open>Listings\<close>

text \<open>The two tables of names for \<open>enum procstate\<close>.\<close>

primrec kps_states :: "procstate \<Rightarrow> string" where
  "kps_states UNUSED = ''unused''"
| "kps_states USED = ''used''"
| "kps_states SLEEPING = ''sleep''"
| "kps_states RUNNABLE = ''runble''"
| "kps_states RUNNING = ''run''"
| "kps_states ZOMBIE = ''zombie''"

primrec dump_states :: "procstate \<Rightarrow> string" where
  "dump_states UNUSED = ''unused''"
| "dump_states USED = ''used''"
| "dump_states SLEEPING = ''sleep ''"
| "dump_states RUNNABLE = ''runble''"
| "dump_states RUNNING = ''run   ''"
| "dump_states ZOMBIE = ''zombie''"

definition NL :: char where "NL = CHR 0x0A"
definition TAB :: char where "TAB = CHR 0x09"

definition kps_usage :: "'z proc_st_scheme \<Rightarrow> (u32, 'z proc_st_scheme) outcome" where
  "kps_usage = kthen (printf (''Usage: ps [-o | -l]'' @ [NL]) []) (kret (- 1))"

definition kps_name :: "nat \<Rightarrow> 'z proc_st_scheme \<Rightarrow> (unit, 'z proc_st_scheme) outcome" where
  "kps_name i = critical (ProcLock i)
     (\<lambda>s. let p = procs s ! i in
          if p_state p \<noteq> UNUSED then printf (''%s'' @ [NL]) [PStr (Some (p_name p))] s else Ret () s)"

definition kps_long :: "nat \<Rightarrow> 'z proc_st_scheme \<Rightarrow> (unit, 'z proc_st_scheme) outcome" where
  "kps_long i = critical (ProcLock i)
     (\<lambda>s. let p = procs s ! i in
          if p_state p \<noteq> UNUSED
          then printf (''%d'' @ [TAB] @ ''%s'' @ [TAB] @ ''%s'' @ [NL])
                 [PNum (scast (p_pid p)), PStr (Some (cstring (kps_states (p_state p)))), PStr (Some (p_name p))] s
          else Ret () s)"

text \<open>\<open>arguments\<close> is the string without its terminating zero.\<close>

definition kps_is :: "bytes \<Rightarrow> string \<Rightarrow> bool" where
  "kps_is arguments opt \<longleftrightarrow> strncmp_list arguments (cstring opt) 2 = 0 \<and> length arguments = 2"

definition kps :: "bytes option \<Rightarrow> 'z proc_st_scheme \<Rightarrow> (u32, 'z proc_st_scheme) outcome" where
  "kps arguments s =
     (case arguments of
        None \<Rightarrow> kps_usage s
      | Some a \<Rightarrow>
          if kps_is a ''-o''
          then kthen (kfor kps_name [0..<length (procs s)]) (kret 0) s
          else if kps_is a ''-l''
          then kthen (printf (''PID'' @ [TAB] @ ''STATE'' @ [TAB] @ ''NAME'' @ [NL]) [])
                 (kthen (kfor kps_long [0..<length (procs s)]) (kret 0)) s
          else kps_usage s)"

definition procdump_line :: "nat \<Rightarrow> 'z proc_st_scheme \<Rightarrow> (unit, 'z proc_st_scheme) outcome" where
  "procdump_line i s =
     (let p = procs s ! i in
      if p_state p = UNUSED then Ret () s
      else kthen (printf ''%d %s %s''
                    [PNum (scast (p_pid p)), PStr (Some (cstring (dump_states (p_state p)))), PStr (Some (p_name p))])
             (printf [NL] []) s)"

definition procdump :: "'z proc_st_scheme \<Rightarrow> (unit, 'z proc_st_scheme) outcome" where
  "procdump s = kthen (printf [NL] []) (kfor procdump_line [0..<length (procs s)]) s"

section \<open>System call arguments\<close>

text \<open>\<open>a0\<close> to \<open>a5\<close> lie at offset 112 of the trapframe page.\<close>

definition argraw :: "nat \<Rightarrow> 'z proc_st_scheme \<Rightarrow> (u64, 'z proc_st_scheme) outcome" where
  "argraw n = kbind myproc (\<lambda>p s.
     if n < 6 then Ret (load64 (pmem s) (p_trapframe (procs s ! p) + 112 + 8 * of_nat n)) s
     else Panic ''argraw'')"

definition argint :: "nat \<Rightarrow> 'z proc_st_scheme \<Rightarrow> (u32, 'z proc_st_scheme) outcome" where
  "argint n = kbind (argraw n) (\<lambda>x. kret (ucast x))"

definition argaddr :: "nat \<Rightarrow> 'z proc_st_scheme \<Rightarrow> (u64, 'z proc_st_scheme) outcome" where
  "argaddr n = argraw n"

section \<open>Loops over the table\<close>

text \<open>The table with entry \<open>i\<close> replaced by \<open>g i\<close> of it, for every \<open>i\<close>.\<close>

definition mapi :: "(nat \<Rightarrow> 'a \<Rightarrow> 'a) \<Rightarrow> 'a list \<Rightarrow> 'a list" where
  "mapi g xs = map (\<lambda>i. g i (xs ! i)) [0..<length xs]"

lemma length_mapi [simp]: "length (mapi g xs) = length xs"
  by (simp add: mapi_def)

lemma nth_mapi [simp]: "i < length xs \<Longrightarrow> mapi g xs ! i = g i (xs ! i)"
  by (simp add: mapi_def)

lemma mapi_id: "(\<And>i. i < length xs \<Longrightarrow> g i (xs ! i) = xs ! i) \<Longrightarrow> mapi g xs = xs"
  by (simp add: list_eq_iff_nth_eq)

lemma upd_proc_simps [simp]:
  "locks (upd_proc i f s) = locks s" "uart_out (upd_proc i f s) = uart_out s"
  "panicking (upd_proc i f s) = panicking s" "panicked (upd_proc i f s) = panicked s"
  "pmem (upd_proc i f s) = pmem s" "freelist (upd_proc i f s) = freelist s" "kend (upd_proc i f s) = kend s"
  "curproc (upd_proc i f s) = curproc s" "initproc (upd_proc i f s) = initproc s"
  "nextpid (upd_proc i f s) = nextpid s" "ticks (upd_proc i f s) = ticks s"
  "quota_window_start (upd_proc i f s) = quota_window_start s" "eco_mode (upd_proc i f s) = eco_mode s"
  "procs (upd_proc i f s) = (procs s)[i := f (procs s ! i)]"
  by (simp_all add: upd_proc_def)

lemma upd_proc_locks [simp]: "upd_proc i f (s\<lparr>locks := ls\<rparr>) = (upd_proc i f s)\<lparr>locks := ls\<rparr>"
  by (simp add: upd_proc_def)

lemma critical_upd_proc [simp]:
  "l \<notin> set (locks s) \<Longrightarrow> critical l (kput (upd_proc i f)) s = Ret () (upd_proc i f s)"
  by (simp add: critical_kput)

text \<open>
  A loop over the table whose body updates the entry of its index, as long as a
  condition \<open>P\<close> on the rest of the state holds.
\<close>

lemma kfor_table_upto:
  assumes step: "\<And>i t. i < length (procs t) \<Longrightarrow> P t \<Longrightarrow> f i t = Ret () (upd_proc i (g i) t)"
    and stable: "\<And>t xs. P t \<Longrightarrow> P (t\<lparr>procs := xs\<rparr>)"
    and "P s" and "n \<le> length (procs s)"
  shows "kfor f [0..<n] s = Ret () (s\<lparr>procs := map (\<lambda>i. g i (procs s ! i)) [0..<n] @ drop n (procs s)\<rparr>)"
  using assms(4)
proof (induction n)
  case (Suc n)
  let ?t = "s\<lparr>procs := map (\<lambda>i. g i (procs s ! i)) [0..<n] @ drop n (procs s)\<rparr>"
  have "f n ?t = Ret () (upd_proc n (g n) ?t)" using Suc.prems assms(3) by (intro step stable) auto
  moreover have "procs (upd_proc n (g n) ?t) = map (\<lambda>i. g i (procs s ! i)) [0..<Suc n] @ drop (Suc n) (procs s)"
    using Suc.prems by (simp add: nth_append list_update_append Cons_nth_drop_Suc [symmetric])
  ultimately show ?case using Suc by (simp add: kfor_append kthen_def kbind_def upd_proc_def)
qed simp

lemma kfor_table:
  assumes "\<And>i t. i < length (procs t) \<Longrightarrow> P t \<Longrightarrow> f i t = Ret () (upd_proc i (g i) t)"
    and "\<And>t xs. P t \<Longrightarrow> P (t\<lparr>procs := xs\<rparr>)" and "P s"
  shows "kfor f [0..<length (procs s)] s = Ret () (s\<lparr>procs := mapi g (procs s)\<rparr>)"
  using kfor_table_upto [of P f g s "length (procs s)", OF assms] by (simp add: mapi_def)

text \<open>No lock of a slot of the table is held.\<close>

definition no_plocks :: "'z klocks_scheme \<Rightarrow> bool" where
  "no_plocks s \<longleftrightarrow> (\<forall>i. ProcLock i \<notin> set (locks s))"

lemma no_plocks_upd [simp]: "no_plocks (upd_proc i f s) = no_plocks s"
  by (simp add: no_plocks_def)

lemma no_plocks_procs [simp]: "no_plocks (s\<lparr>procs := xs\<rparr>) = no_plocks s"
  by (simp add: no_plocks_def)

section \<open>Behaviour of the operations\<close>

lemma wakeup_eq:
  assumes "no_plocks s"
  shows "wakeup ch s = Ret () (s\<lparr>procs := mapi (\<lambda>i. if Some i \<noteq> curproc s then wake_proc ch else id) (procs s)\<rparr>)"
  unfolding wakeup_def
proof (rule kfor_table [where P = "\<lambda>t. no_plocks t \<and> curproc t = curproc s"])
  fix i and t :: "'a proc_st_scheme"
  assume "i < length (procs t)" and t: "no_plocks t \<and> curproc t = curproc s"
  have "upd_proc i id t = t" by (simp add: upd_proc_def)
  then show "(if Some i \<noteq> curproc t then critical (ProcLock i) (kput (upd_proc i (wake_proc ch))) t else Ret () t)
    = Ret () (upd_proc i (if Some i \<noteq> curproc s then wake_proc ch else id) t)"
    using t by (simp add: no_plocks_def)
qed (use assms in auto)

lemma procinit_eq:
  "procinit s = Ret () (s\<lparr>procs := mapi (\<lambda>i p. p\<lparr>p_state := UNUSED, p_kstack := KSTACK (of_nat i)\<rparr>) (procs s)\<rparr>)"
  unfolding procinit_def by (rule kfor_table [where P = "\<lambda>_. True"]) (auto simp: kput_def)

lemma killed_eq: "ProcLock i \<notin> set (locks s) \<Longrightarrow> killed i s = Ret (p_killed (procs s ! i)) s"
  by (simp add: killed_def kget_def critical_Ret)

lemma setkilled_eq:
  "ProcLock i \<notin> set (locks s) \<Longrightarrow> setkilled i s = Ret () (upd_proc i (\<lambda>p. p\<lparr>p_killed := 1\<rparr>) s)"
  by (simp add: setkilled_def)

lemma allocpid_eq:
  "PidLock \<notin> set (locks s) \<Longrightarrow> allocpid s = Ret (nextpid s) (s\<lparr>nextpid := nextpid s + 1\<rparr>)"
  by (simp add: allocpid_def critical_Ret)

lemma kkill_loop_eq:
  "no_plocks s \<Longrightarrow> kkill_loop pid is s =
     (case filter (\<lambda>i. p_pid (procs s ! i) = pid) is of
        [] \<Rightarrow> Ret (- 1) s
      | i # _ \<Rightarrow> Ret 0 (upd_proc i kill_proc s))"
  by (induction "is") (auto simp: no_plocks_def kthen_def kbind_def kput_def kret_def)

lemma sleep_eq:
  assumes "curproc s = Some p" and "locks s = [l]" and "l \<noteq> ProcLock p" and "p < length (procs s)"
  shows "sleep ch l s = Sleep ((upd_proc p (\<lambda>q. q\<lparr>p_chan := Some ch, p_state := SLEEPING\<rparr>) s)\<lparr>locks := [ProcLock p]\<rparr>)"
  using assms by (simp add: sleep_def myproc_def sched_def kholding_def kthen_def kbind_def kput_def)

lemma yield_eq:
  assumes "curproc s = Some p" and "locks s = []" and "p < length (procs s)"
  shows "yield s = Sleep ((upd_proc p (\<lambda>q. q\<lparr>p_state := RUNNABLE\<rparr>) s)\<lparr>locks := [ProcLock p]\<rparr>)"
  using assms by (simp add: yield_def myproc_def sched_def kholding_def kthen_def kbind_def kput_def)

section \<open>The process listing\<close>

lemma unat_ucast_u8: "unat (ucast (b :: u8) :: u32) = unat b"
proof -
  have "unat b < 2 ^ 32" using unsigned_less [of b, where 'a = nat] by simp
  then show ?thesis by (simp add: unsigned_ucast_eq take_bit_nat_eq_self)
qed

lemma char32_ucast: "char32 c = ucast (of_char c :: u8)"
proof -
  have "(of_char c :: u8) = of_nat (of_char c)" by (simp only: of_nat_of_char)
  then have "ucast (of_char c :: u8) = (of_nat (take_bit 8 (of_char c)) :: u32)"
    by (simp only: unsigned_of_nat) simp
  also have "take_bit 8 (of_char c) = (of_char c :: nat)"
    using nat_of_char_less_256 [of c] by (simp add: take_bit_nat_eq_self)
  finally show ?thesis by (simp only: of_nat_of_char char32_def)
qed

lemma ucast_u8_u32: "ucast (ucast (b :: u8) :: u32) = b"
  by (rule bit_word_eqI) (simp add: bit_ucast_iff)

lemma cons_out_append: "cons_out (xs @ ys) = cons_out xs @ cons_out ys"
  by (simp add: cons_out_def)

lemma cons_out_bytes: "cons_out (map ucast bs) = bs"
proof (induction bs)
  case (Cons b bs)
  have "unat (ucast b :: u32) < 256" using unsigned_less [of b, where 'a = nat] by (simp add: unat_ucast_u8)
  then have "(ucast b :: u32) \<noteq> BACKSPACE" by (auto simp: BACKSPACE_def)
  then show ?case using Cons by (simp add: cons_out_def ucast_u8_u32)
qed (simp add: cons_out_def)

lemma cons_out_chars: "cons_out (map char32 cs) = cstring cs"
proof -
  have "map char32 cs = map ucast (cstring cs)" by (simp add: cstring_def char32_ucast)
  then show ?thesis by (simp only: cons_out_bytes)
qed

lemma kfor_out:
  assumes "\<And>i t. i \<in> set is \<Longrightarrow> P t \<Longrightarrow> f i t = Ret () (t\<lparr>uart_out := uart_out t @ g i\<rparr>)"
    and "\<And>t x. P t \<Longrightarrow> P (t\<lparr>uart_out := x\<rparr>)" and "P s"
  shows "kfor f is s = Ret () (s\<lparr>uart_out := uart_out s @ concat (map g is)\<rparr>)"
  using assms by (induction "is" arbitrary: s) simp_all

text \<open>The C string in a fixed size array.\<close>

definition cstr_of :: "bytes \<Rightarrow> bytes" where
  "cstr_of bs = takeWhile (\<lambda>b. b \<noteq> 0) bs"

definition pid_chars :: "u32 \<Rightarrow> string" where
  "pid_chars x = rev (printint_buf (scast x) 10 True)"

lemma width_arg_int: "width_arg WInt (scast (x :: u32)) = scast x"
  by (rule bit_word_eqI) (auto simp: bit_signed_iff bit_signed_take_bit_iff min_def)

lemma name_chars:
  "printf_chars (''%s'' @ [NL]) [PStr (Some nm)] = Some (map ucast (cstr_of nm) @ map char32 [NL])"
  by (simp add: NL_def fmt_at_def printf_conv_def put_conv_def cstr_of_def)

lemma long_chars:
  "printf_chars (''%d'' @ [TAB] @ ''%s'' @ [TAB] @ ''%s'' @ [NL]) [PNum (scast x), PStr (Some st), PStr (Some nm)]
   = Some (map char32 (pid_chars x @ [TAB]) @ map ucast (cstr_of st) @ map char32 [TAB]
       @ map ucast (cstr_of nm) @ map char32 [NL])"
  by (simp add: NL_def TAB_def fmt_at_def printf_conv_def put_conv_def cstr_of_def pid_chars_def printint_def
      width_arg_int del: width_arg.simps)

text \<open>What one line of each listing says about a process.\<close>

definition name_line :: "proc \<Rightarrow> bytes" where
  "name_line p = (if p_state p = UNUSED then [] else cstr_of (p_name p) @ cstring [NL])"

definition long_line :: "proc \<Rightarrow> bytes" where
  "long_line p = (if p_state p = UNUSED then []
     else cstring (pid_chars (p_pid p) @ [TAB] @ kps_states (p_state p) @ [TAB]) @ cstr_of (p_name p) @ cstring [NL])"

text \<open>The console can be written and no process lock is held.\<close>

definition can_print :: "'z cons_st_scheme \<Rightarrow> bool" where
  "can_print s \<longleftrightarrow> \<not> panicked s \<and> PrLock \<notin> set (locks s)"

lemma cstr_of_states: "cstr_of (cstring (kps_states st)) = cstring (kps_states st)"
  by (cases st) (simp_all add: cstr_of_def cstring_def)

lemma cstring_append: "cstring (xs @ ys) = cstring xs @ cstring ys"
  by (simp add: cstring_def)

lemmas line_simps = cons_out_append cons_out_bytes cons_out_chars cstr_of_states cstring_append append_assoc

lemma kps_name_eq:
  assumes "can_print s" and "no_plocks s"
  shows "kps_name i s = Ret () (s\<lparr>uart_out := uart_out s @ name_line (procs s ! i)\<rparr>)"
proof (cases "p_state (procs s ! i) = UNUSED")
  case True
  then show ?thesis using assms by (simp add: kps_name_def Let_def no_plocks_def critical_Ret name_line_def)
next
  case False
  let ?p = "procs s ! i" and ?t = "s\<lparr>locks := ProcLock i # locks s\<rparr>"
  have "cons_out (map ucast (cstr_of (p_name ?p)) @ map char32 [NL]) = name_line ?p"
    using False by (simp only: line_simps name_line_def if_False)
  then have "printf (''%s'' @ [NL]) [PStr (Some (p_name ?p))] ?t = Ret () (?t\<lparr>uart_out := uart_out ?t @ name_line ?p\<rparr>)"
    using assms by (subst printf_Ret [OF _ _ name_chars]) (simp_all add: can_print_def)
  then show ?thesis using assms False by (simp add: kps_name_def Let_def no_plocks_def critical_Ret)
qed

lemma kps_long_eq:
  assumes "can_print s" and "no_plocks s"
  shows "kps_long i s = Ret () (s\<lparr>uart_out := uart_out s @ long_line (procs s ! i)\<rparr>)"
proof (cases "p_state (procs s ! i) = UNUSED")
  case True
  then show ?thesis using assms by (simp add: kps_long_def Let_def no_plocks_def critical_Ret long_line_def)
next
  case False
  let ?p = "procs s ! i" and ?t = "s\<lparr>locks := ProcLock i # locks s\<rparr>"
  let ?st = "cstring (kps_states (p_state ?p))"
  have "cons_out (map char32 (pid_chars (p_pid ?p) @ [TAB]) @ map ucast (cstr_of ?st) @ map char32 [TAB]
       @ map ucast (cstr_of (p_name ?p)) @ map char32 [NL]) = long_line ?p"
    using False by (simp only: line_simps long_line_def if_False)
  then have "printf (''%d'' @ [TAB] @ ''%s'' @ [TAB] @ ''%s'' @ [NL])
      [PNum (scast (p_pid ?p)), PStr (Some ?st), PStr (Some (p_name ?p))] ?t
    = Ret () (?t\<lparr>uart_out := uart_out ?t @ long_line ?p\<rparr>)"
    using assms by (subst printf_Ret [OF _ _ long_chars]) (simp_all add: can_print_def)
  then show ?thesis using assms False by (simp add: kps_long_def Let_def no_plocks_def critical_Ret)
qed

lemma concat_table: "concat (map (\<lambda>i. f (xs ! i)) [0..<length xs]) = concat (map f xs)"
proof -
  have "map (\<lambda>i. f (xs ! i)) [0..<length xs] = map f xs" by (rule nth_equalityI) simp_all
  then show ?thesis by simp
qed

lemma kps_loop:
  assumes "can_print s" and "no_plocks s"
    and "\<And>i t. can_print t \<Longrightarrow> no_plocks t \<Longrightarrow> f i t = Ret () (t\<lparr>uart_out := uart_out t @ g (procs t ! i)\<rparr>)"
  shows "kfor f [0..<length (procs s)] s = Ret () (s\<lparr>uart_out := uart_out s @ concat (map g (procs s))\<rparr>)"
proof -
  have "kfor f [0..<length (procs s)] s
    = Ret () (s\<lparr>uart_out := uart_out s @ concat (map (\<lambda>i. g (procs s ! i)) [0..<length (procs s)])\<rparr>)"
    by (rule kfor_out [where P = "\<lambda>t. can_print t \<and> no_plocks t \<and> procs t = procs s"])
      (use assms in \<open>simp_all add: can_print_def no_plocks_def\<close>)
  then show ?thesis by (simp add: concat_table)
qed

lemma kps_is_iff: "0 \<notin> set a \<Longrightarrow> length opt = 2 \<Longrightarrow> 0 \<notin> set (cstring opt) \<Longrightarrow> kps_is a opt \<longleftrightarrow> a = cstring opt"
  by (auto simp: kps_is_def strncmp_list_zero cstring_def)

lemma printf_plain:
  assumes "can_print s" and "CHR ''%'' \<notin> set fmt" and "CHR 0x00 \<notin> set fmt"
  shows "printf fmt [] s = Ret () (s\<lparr>uart_out := uart_out s @ cstring fmt\<rparr>)"
proof -
  have "printf_chars fmt ap = Some (map char32 fmt)" for ap
    using assms(2,3) by (induction fmt) auto
  then show ?thesis using assms(1) by (simp add: can_print_def printf_Ret cons_out_chars)
qed

text \<open>C13: \<open>kps\<close> prints one line for every slot that is not \<open>UNUSED\<close>, in the order
  of the table, the name for \<open>-o\<close> and pid, state and name for \<open>-l\<close>; any other
  argument gives the usage line and -1.  It changes nothing else and returns
  with the locks it was called with.\<close>

theorem kps_output:
  assumes "can_print s" and "no_plocks s" and "0 \<notin> set a"
  shows "kps (Some a) s =
    (if a = cstring ''-o'' then Ret 0 (s\<lparr>uart_out := uart_out s @ concat (map name_line (procs s))\<rparr>)
     else if a = cstring ''-l'' then
       Ret 0 (s\<lparr>uart_out := uart_out s @ cstring (''PID'' @ [TAB] @ ''STATE'' @ [TAB] @ ''NAME'' @ [NL])
         @ concat (map long_line (procs s))\<rparr>)
     else Ret (- 1) (s\<lparr>uart_out := uart_out s @ cstring (''Usage: ps [-o | -l]'' @ [NL])\<rparr>))"
proof -
  have st: "can_print (s\<lparr>uart_out := x\<rparr>)" "no_plocks (s\<lparr>uart_out := x\<rparr>)" for x
    using assms by (simp_all add: can_print_def no_plocks_def)
  have "kps_is a ''-o'' \<longleftrightarrow> a = cstring ''-o''" "kps_is a ''-l'' \<longleftrightarrow> a = cstring ''-l''"
    using assms(3) by (simp_all add: kps_is_iff cstring_def)
  moreover have "kps_usage s = Ret (- 1) (s\<lparr>uart_out := uart_out s @ cstring (''Usage: ps [-o | -l]'' @ [NL])\<rparr>)"
    using assms(1) by (simp add: kps_usage_def kthen_def kbind_def kret_def printf_plain NL_def)
  moreover have "printf (''PID'' @ [TAB] @ ''STATE'' @ [TAB] @ ''NAME'' @ [NL]) [] s
      = Ret () (s\<lparr>uart_out := uart_out s @ cstring (''PID'' @ [TAB] @ ''STATE'' @ [TAB] @ ''NAME'' @ [NL])\<rparr>)"
    using assms(1) by (simp add: printf_plain NL_def TAB_def)
  ultimately show ?thesis
    using kps_loop [OF assms(1,2) kps_name_eq] kps_loop [OF st kps_long_eq]
    by (simp add: kps_def kthen_def kbind_def kret_def)
qed

text \<open>A small machine state for the examples: \<open>init\<close> running and a zombie child.\<close>

definition ex_procs :: "proc list" where
  "ex_procs = [zero_proc\<lparr>p_state := RUNNING, p_pid := 1, p_name := cstring ''init'' @ replicate 12 0\<rparr>,
     zero_proc,
     zero_proc\<lparr>p_state := ZOMBIE, p_pid := 2, p_parent := Some 0, p_name := cstring ''sh'' @ replicate 14 0\<rparr>]"

definition ex_st :: proc_st where
  "ex_st = \<lparr>locks = [], uart_out = [], panicking = False, panicked = False, pmem = (\<lambda>_. 0), freelist = 0,
     kend = 0x80021d50, procs = ex_procs, curproc = Some 0, initproc = Some 0, nextpid = 3, ticks = 0,
     quota_window_start = 0, eco_mode = ECO_QUOTA\<rparr>"

theorem kps_output_witness:
  "kps (Some (cstring ''-o'')) ex_st
   = Ret 0 (ex_st\<lparr>uart_out := cstring (''init'' @ [NL] @ ''sh'' @ [NL])\<rparr>)"
proof -
  have "concat (map name_line ex_procs) = cstring (''init'' @ [NL] @ ''sh'' @ [NL])"
    by (simp add: ex_procs_def zero_proc_def name_line_def cstr_of_def cstring_def)
  then show ?thesis
    using kps_output [of ex_st "cstring ''-o''"]
    by (simp add: ex_st_def can_print_def no_plocks_def cstring_def)
qed

end
