(* ===== verification/Sched.thy ===== *)
theory Sched
  imports Proc
begin

text \<open>
  The scheduler of kernel/proc.c with its CPU quotas: the quota window, the
  choice of the next process (children of \<open>schedtest\<close> in the order of their
  pids, then the first eligible process of the table), the dispatch, the
  accounting of timer ticks in \<open>usertrap\<close> of kernel/trap.c, and \<open>setquota\<close>
  of kernel/sysproc.c.
\<close>

section \<open>The quota window\<close>

definition reset_proc :: "proc \<Rightarrow> proc" where
  "reset_proc p = (if p_state p \<noteq> UNUSED then p\<lparr>p_cpu_used := 0, p_throttled := False\<rparr> else p)"

definition reset_cpu_quotas :: "'z proc_st_scheme \<Rightarrow> (unit, 'z proc_st_scheme) outcome" where
  "reset_cpu_quotas =
     kthen (printf (''Resetting quota window'' @ [NL]) [])
       (\<lambda>s. kfor (\<lambda>i. critical (ProcLock i) (kput (upd_proc i reset_proc))) [0..<length (procs s)] s)"

definition check_and_reset_quota_window :: "'z proc_st_scheme \<Rightarrow> (unit, 'z proc_st_scheme) outcome" where
  "check_and_reset_quota_window =
     kbind (critical TicksLock (kget ticks)) (\<lambda>current_ticks s.
       if current_ticks - quota_window_start s \<ge> WINDOW_SIZE
       then kthen (kput (\<lambda>s. s\<lparr>quota_window_start := current_ticks\<rparr>)) reset_cpu_quotas s
       else Ret () s)"

section \<open>The choice\<close>

definition eligible :: "u32 \<Rightarrow> proc \<Rightarrow> bool" where
  "eligible eco p \<longleftrightarrow> p_state p = RUNNABLE \<and> (eco \<noteq> ECO_QUOTA \<or> \<not> p_throttled p)"

definition schedtest_child :: "proc list \<Rightarrow> proc \<Rightarrow> bool" where
  "schedtest_child ps p \<longleftrightarrow> (case p_parent p of None \<Rightarrow> False
     | Some j \<Rightarrow> strncmp_list (cstr_of (p_name (ps ! j))) (cstring ''schedtest'') 9 = 0)"

definition fcfs_body :: "nat \<Rightarrow> nat option \<Rightarrow> 'z proc_st_scheme \<Rightarrow> (nat option, 'z proc_st_scheme) outcome" where
  "fcfs_body i chosen = critical (ProcLock i) (kget (\<lambda>s.
     let p = procs s ! i in
     if eligible (eco_mode s) p \<and> schedtest_child (procs s) p
     then (case chosen of None \<Rightarrow> Some i
           | Some k \<Rightarrow> if sint (p_pid p) < sint (p_pid (procs s ! k)) then Some i else chosen)
     else chosen))"

primrec first_eligible :: "nat list \<Rightarrow> 'z proc_st_scheme \<Rightarrow> (nat option, 'z proc_st_scheme) outcome" where
  "first_eligible [] s = Ret None s"
| "first_eligible (i # is) s =
     kbind (critical (ProcLock i) (kget (\<lambda>s. eligible (eco_mode s) (procs s ! i))))
       (\<lambda>b. if b then kret (Some i) else first_eligible is) s"

definition scheduler_choose :: "'z proc_st_scheme \<Rightarrow> (nat option, 'z proc_st_scheme) outcome" where
  "scheduler_choose s =
     kbind (kfold fcfs_body [0..<length (procs s)] None)
       (\<lambda>chosen. case chosen of
            None \<Rightarrow> (\<lambda>s. first_eligible [0..<length (procs s)] s)
          | Some i \<Rightarrow> kret (Some i)) s"

section \<open>One round of the scheduler\<close>

definition wait_proc :: "u32 \<Rightarrow> nat \<Rightarrow> nat \<Rightarrow> proc \<Rightarrow> proc" where
  "wait_proc eco chosen i p =
     (if p_state p = RUNNABLE \<and> i \<noteq> chosen \<and> (eco \<noteq> ECO_QUOTA \<or> \<not> p_throttled p)
      then p\<lparr>p_waiting_tick := p_waiting_tick p + 1\<rparr> else p)"

definition count_waiting :: "nat \<Rightarrow> 'z proc_st_scheme \<Rightarrow> (unit, 'z proc_st_scheme) outcome" where
  "count_waiting chosen s =
     kfor (\<lambda>i. critical (ProcLock i) (\<lambda>s. Ret () (upd_proc i (wait_proc (eco_mode s) chosen i) s)))
       [0..<length (procs s)] s"

text \<open>
  The switch to the chosen process leaves with its lock held and \<open>c->proc\<close> set:
  the value is \<open>Some\<close> of its slot.  \<open>None\<close> means that the round ends without a
  switch.
\<close>

definition run_chosen :: "nat \<Rightarrow> 'z proc_st_scheme \<Rightarrow> (nat option, 'z proc_st_scheme) outcome" where
  "run_chosen i =
     kthen (kacquire (ProcLock i))
       (\<lambda>s. if eligible (eco_mode s) (procs s ! i)
            then Ret (Some i) ((upd_proc i (\<lambda>p. p\<lparr>p_state := RUNNING\<rparr>) s)\<lparr>curproc := Some i\<rparr>)
            else kthen (krelease (ProcLock i)) (kret None) s)"

definition scheduler_round :: "'z proc_st_scheme \<Rightarrow> (nat option, 'z proc_st_scheme) outcome" where
  "scheduler_round =
     kthen check_and_reset_quota_window
       (kbind scheduler_choose
          (\<lambda>chosen. case chosen of
               None \<Rightarrow> kret None
             | Some i \<Rightarrow> kthen (count_waiting i) (run_chosen i)))"

text \<open>The end of the round, once the process has switched back.\<close>

definition scheduler_resume :: "nat \<Rightarrow> 'z proc_st_scheme \<Rightarrow> (unit, 'z proc_st_scheme) outcome" where
  "scheduler_resume i = kthen (kput (\<lambda>s. s\<lparr>curproc := None\<rparr>)) (krelease (ProcLock i))"

section \<open>Accounting\<close>

text \<open>The part of \<open>usertrap\<close> between the test for a timer interrupt and \<open>yield\<close>.\<close>

definition charge_proc :: "proc \<Rightarrow> proc \<times> bool" where
  "charge_proc p =
     (let p1 = p\<lparr>p_cpu_used := p_cpu_used p + 1\<rparr> in
      if sint (p_cpu_used p1) \<ge> sint (p_cpu_quota p1) \<and> \<not> p_throttled p1
      then (p1\<lparr>p_throttled := True, p_violations := p_violations p1 + 1\<rparr>, True)
      else (p1, False))"

definition quota_tick :: "'z proc_st_scheme \<Rightarrow> (unit, 'z proc_st_scheme) outcome" where
  "quota_tick s =
     (case curproc s of
        None \<Rightarrow> Ret () s
      | Some i \<Rightarrow>
          if eco_mode s = ECO_QUOTA
          then critical (ProcLock i)
                 (\<lambda>s. if p_state (procs s ! i) = RUNNING
                      then (case charge_proc (procs s ! i) of (p, msg) \<Rightarrow>
                              kthen (kput (upd_proc i (\<lambda>_. p)))
                                (if msg then printf (''PID %d throttled at %d ticks'' @ [NL])
                                               [PNum (scast (p_pid p)), PNum (scast (p_cpu_used p))]
                                 else kret ())) s
                      else Ret () s) s
          else Ret () s)"

definition timer_tick :: "'z proc_st_scheme \<Rightarrow> (unit, 'z proc_st_scheme) outcome" where
  "timer_tick = kthen quota_tick yield"

definition set_quota_proc :: "u32 \<Rightarrow> proc \<Rightarrow> proc" where
  "set_quota_proc quota p =
     (let p1 = p\<lparr>p_cpu_quota := quota\<rparr> in
      if sint (p_cpu_used p1) < sint (p_cpu_quota p1) then p1\<lparr>p_throttled := False\<rparr> else p1)"

definition sys_setquota :: "'z proc_st_scheme \<Rightarrow> (u64, 'z proc_st_scheme) outcome" where
  "sys_setquota =
     kbind myproc (\<lambda>p. kbind (argint 0) (\<lambda>quota.
       if sint quota \<le> 0 then kret (- 1)
       else kthen (critical (ProcLock p) (kput (upd_proc p (set_quota_proc quota)))) (kret 0)))"

section \<open>The choice is right\<close>

lemma critical_kget:
  "l \<notin> set (locks s) \<Longrightarrow> g (s\<lparr>locks := l # locks s\<rparr>) = g s \<Longrightarrow> critical l (kget g) s = Ret (g s) s"
  by (simp add: critical_Ret kget_def)

text \<open>An eligible child of \<open>schedtest\<close>.\<close>

definition fcfs_cand :: "'z proc_st_scheme \<Rightarrow> nat \<Rightarrow> bool" where
  "fcfs_cand s i \<longleftrightarrow> eligible (eco_mode s) (procs s ! i) \<and> schedtest_child (procs s) (procs s ! i)"

definition fcfs_pick :: "'z proc_st_scheme \<Rightarrow> nat \<Rightarrow> nat option \<Rightarrow> nat option" where
  "fcfs_pick s i chosen =
     (if fcfs_cand s i
      then (case chosen of None \<Rightarrow> Some i
            | Some k \<Rightarrow> if sint (p_pid (procs s ! i)) < sint (p_pid (procs s ! k)) then Some i else chosen)
      else chosen)"

lemma fcfs_body_eq: "no_plocks s \<Longrightarrow> fcfs_body i chosen s = Ret (fcfs_pick s i chosen) s"
  unfolding fcfs_body_def
  by (subst critical_kget) (simp_all add: no_plocks_def fcfs_pick_def fcfs_cand_def Let_def split: option.split)

lemma fcfs_fold:
  "case fold (fcfs_pick s) [0..<n] None of
     None \<Rightarrow> \<forall>j < n. \<not> fcfs_cand s j
   | Some i \<Rightarrow> i < n \<and> fcfs_cand s i \<and> (\<forall>j < n. fcfs_cand s j \<longrightarrow> sint (p_pid (procs s ! i)) \<le> sint (p_pid (procs s ! j)))"
proof (induction n)
  case (Suc n)
  have step: "fold (fcfs_pick s) [0..<Suc n] None = fcfs_pick s n (fold (fcfs_pick s) [0..<n] None)" by simp
  show ?case
  proof (cases "fold (fcfs_pick s) [0..<n] None")
    case None
    from Suc.IH [unfolded None] show ?thesis
      unfolding step None by (auto simp: fcfs_pick_def less_Suc_eq)
  next
    case (Some k)
    from Suc.IH [unfolded Some] show ?thesis
      unfolding step Some by (force simp: fcfs_pick_def less_Suc_eq)
  qed
qed simp

lemma first_eligible_eq:
  "no_plocks s \<Longrightarrow> first_eligible is s = Ret (find (\<lambda>i. eligible (eco_mode s) (procs s ! i)) is) s"
  by (induction "is") (simp_all add: critical_kget no_plocks_def kret_def)

definition choice :: "'z proc_st_scheme \<Rightarrow> nat option" where
  "choice s = (case fold (fcfs_pick s) [0..<length (procs s)] None of
       None \<Rightarrow> find (\<lambda>i. eligible (eco_mode s) (procs s ! i)) [0..<length (procs s)]
     | Some i \<Rightarrow> Some i)"

lemma scheduler_choose_eq: "no_plocks s \<Longrightarrow> scheduler_choose s = Ret (choice s) s"
  by (simp add: scheduler_choose_def kfold_read [where g = "fcfs_pick s"] fcfs_body_eq first_eligible_eq
      choice_def kret_def split: option.split)

lemma find_upt:
  "case find P [0..<n] of None \<Rightarrow> \<forall>j < n. \<not> P j | Some i \<Rightarrow> i < n \<and> P i \<and> (\<forall>j < i. \<not> P j)"
  by (auto simp: find_None_iff find_Some_iff nth_upt split: option.split)

lemma choice_None: "choice s = None \<Longrightarrow> j < length (procs s) \<Longrightarrow> \<not> eligible (eco_mode s) (procs s ! j)"
  using find_upt [where P = "\<lambda>i. eligible (eco_mode s) (procs s ! i)" and n = "length (procs s)"]
  by (auto simp: choice_def split: option.splits)

lemma choice_Some:
  assumes "choice s = Some i"
  shows "i < length (procs s)" and "eligible (eco_mode s) (procs s ! i)"
    and "j < length (procs s) \<Longrightarrow> fcfs_cand s j \<Longrightarrow>
         fcfs_cand s i \<and> sint (p_pid (procs s ! i)) \<le> sint (p_pid (procs s ! j))"
    and "\<forall>j < length (procs s). \<not> fcfs_cand s j \<Longrightarrow> j < i \<Longrightarrow> \<not> eligible (eco_mode s) (procs s ! j)"
proof -
  note f = fcfs_fold [where s = s and n = "length (procs s)"] and
    d = find_upt [where P = "\<lambda>i. eligible (eco_mode s) (procs s ! i)" and n = "length (procs s)"]
  show "i < length (procs s)" "eligible (eco_mode s) (procs s ! i)"
    using assms f d by (auto simp: choice_def fcfs_cand_def split: option.splits)
  show "j < length (procs s) \<Longrightarrow> fcfs_cand s j \<Longrightarrow>
         fcfs_cand s i \<and> sint (p_pid (procs s ! i)) \<le> sint (p_pid (procs s ! j))"
    using assms f d by (auto simp: choice_def split: option.splits)
  show "\<forall>j < length (procs s). \<not> fcfs_cand s j \<Longrightarrow> j < i \<Longrightarrow> \<not> eligible (eco_mode s) (procs s ! j)"
    using assms f d by (auto simp: choice_def split: option.splits)
qed

text \<open>C7: The scheduler chooses an eligible child of \<open>schedtest\<close> of least pid when
  there is one, the first eligible process of the table otherwise, and
  nothing exactly when no process is eligible; looking changes nothing.\<close>

theorem scheduler_choice:
  assumes "no_plocks s"
  shows "\<exists>r. scheduler_choose s = Ret r s \<and>
    (case r of
       None \<Rightarrow> \<forall>j < length (procs s). \<not> eligible (eco_mode s) (procs s ! j)
     | Some i \<Rightarrow> i < length (procs s) \<and> eligible (eco_mode s) (procs s ! i) \<and>
         (if \<exists>j < length (procs s). fcfs_cand s j
          then schedtest_child (procs s) (procs s ! i) \<and>
            (\<forall>j < length (procs s). fcfs_cand s j \<longrightarrow> sint (p_pid (procs s ! i)) \<le> sint (p_pid (procs s ! j)))
          else \<forall>j < i. \<not> eligible (eco_mode s) (procs s ! j)))"
proof (cases "choice s")
  case None
  then show ?thesis using scheduler_choose_eq [OF assms] choice_None by auto
next
  case (Some i)
  note c = choice_Some [OF Some]
  have e: "scheduler_choose s = Ret (Some i) s" using scheduler_choose_eq [OF assms] Some by simp
  show ?thesis
  proof (cases "\<exists>j < length (procs s). fcfs_cand s j")
    case True
    then have "fcfs_cand s i" using c(3) by blast
    then have "schedtest_child (procs s) (procs s ! i)" by (simp add: fcfs_cand_def)
    then show ?thesis using True e c(1-3) by (intro exI [of _ "Some i"]) simp
  next
    case False
    then have "\<forall>j < i. \<not> eligible (eco_mode s) (procs s ! j)" using c(4) by blast
    then show ?thesis using False e c(1,2) by (intro exI [of _ "Some i"]) auto
  qed
qed

section \<open>A round of the scheduler\<close>

definition window_reset :: "'z proc_st_scheme \<Rightarrow> 'z proc_st_scheme" where
  "window_reset s =
     (if ticks s - quota_window_start s \<ge> WINDOW_SIZE
      then s\<lparr>uart_out := uart_out s @ cstring (''Resetting quota window'' @ [NL]),
             procs := map reset_proc (procs s), quota_window_start := ticks s\<rparr>
      else s)"

text \<open>What the scheduler assumes of its CPU: it holds none of the locks it takes.\<close>

definition sched_ready :: "'z proc_st_scheme \<Rightarrow> bool" where
  "sched_ready s \<longleftrightarrow> can_print s \<and> no_plocks s \<and> TicksLock \<notin> set (locks s)"

lemma mapi_const: "mapi (\<lambda>i. g) xs = map g xs"
  by (rule nth_equalityI) simp_all

lemma reset_cpu_quotas_eq:
  assumes "can_print s" and "no_plocks s"
  shows "reset_cpu_quotas s = Ret () (s\<lparr>uart_out := uart_out s @ cstring (''Resetting quota window'' @ [NL]),
    procs := map reset_proc (procs s)\<rparr>)"
proof -
  let ?t = "s\<lparr>uart_out := uart_out s @ cstring (''Resetting quota window'' @ [NL])\<rparr>"
  have "printf (''Resetting quota window'' @ [NL]) [] s = Ret () ?t"
    using assms by (intro printf_plain) (auto simp: NL_def)
  moreover have "kfor (\<lambda>i. critical (ProcLock i) (kput (upd_proc i reset_proc))) [0..<length (procs ?t)] ?t
      = Ret () (?t\<lparr>procs := mapi (\<lambda>i. reset_proc) (procs ?t)\<rparr>)"
    by (rule kfor_table [where P = no_plocks]) (use assms(2) in \<open>simp_all add: no_plocks_def\<close>)
  ultimately show ?thesis by (simp add: reset_cpu_quotas_def kthen_def kbind_def mapi_const)
qed

lemma check_window_eq: "sched_ready s \<Longrightarrow> check_and_reset_quota_window s = Ret () (window_reset s)"
  by (simp add: check_and_reset_quota_window_def sched_ready_def critical_kget reset_cpu_quotas_eq
      window_reset_def can_print_def no_plocks_def)

lemma window_reset_simps [simp]:
  "locks (window_reset s) = locks s" "eco_mode (window_reset s) = eco_mode s"
  "length (procs (window_reset s)) = length (procs s)" "ticks (window_reset s) = ticks s"
  "curproc (window_reset s) = curproc s"
  by (simp_all add: window_reset_def)

lemma count_waiting_eq:
  assumes "no_plocks s"
  shows "count_waiting c s = Ret () (s\<lparr>procs := mapi (wait_proc (eco_mode s) c) (procs s)\<rparr>)"
  unfolding count_waiting_def
  by (rule kfor_table [where P = "\<lambda>t. no_plocks t \<and> eco_mode t = eco_mode s"])
    (use assms in \<open>simp_all add: no_plocks_def critical_Ret\<close>)

lemma wait_proc_chosen [simp]: "wait_proc eco i i p = p"
  by (simp add: wait_proc_def)

lemma wait_proc_simps:
  "p_state (wait_proc eco c i p) = p_state p" "p_throttled (wait_proc eco c i p) = p_throttled p"
  "eligible eco (wait_proc eco c i p) = eligible eco p"
  "p_waiting_tick (wait_proc eco c i p) = p_waiting_tick p + (if i \<noteq> c \<and> eligible eco p then 1 else 0)"
  by (auto simp: wait_proc_def eligible_def)

lemma scheduler_round_eq:
  assumes "sched_ready s"
  shows "scheduler_round s = (let u = window_reset s in
    case choice u of None \<Rightarrow> Ret None u
    | Some i \<Rightarrow> Ret (Some i) (u\<lparr>locks := ProcLock i # locks u,
        procs := (mapi (wait_proc (eco_mode u) i) (procs u))[i := (procs u ! i)\<lparr>p_state := RUNNING\<rparr>],
        curproc := Some i\<rparr>))"
proof -
  let ?u = "window_reset s"
  have n: "no_plocks ?u" using assms by (simp add: sched_ready_def no_plocks_def)
  show ?thesis
  proof (cases "choice ?u")
    case None
    then show ?thesis using n check_window_eq [OF assms]
      by (simp add: scheduler_round_def scheduler_choose_eq kthen_def kbind_def kret_def)
  next
    case (Some i)
    then show ?thesis using n check_window_eq [OF assms] choice_Some(1,2) [OF Some]
      by (simp add: scheduler_round_def scheduler_choose_eq count_waiting_eq run_chosen_def kthen_def kbind_def
          kret_def no_plocks_def upd_proc_def Let_def)
  qed
qed

text \<open>C8: A process the scheduler switches to was \<open>RUNNABLE\<close> and, under
  \<open>ECO_QUOTA\<close>, not throttled; it is \<open>RUNNING\<close> on this CPU with its lock held,
  and every other slot keeps its state, its waiting time growing by one
  exactly when it was passed over although eligible.\<close>

theorem scheduler_dispatch:
  assumes "sched_ready s" and "scheduler_round s = Ret (Some i) t"
  shows "i < length (procs t) \<and> curproc t = Some i \<and> locks t = ProcLock i # locks s
    \<and> p_state (procs t ! i) = RUNNING \<and> p_state (procs s ! i) = RUNNABLE
    \<and> (eco_mode s = ECO_QUOTA \<longrightarrow> \<not> p_throttled (procs t ! i))
    \<and> (\<forall>j < length (procs s). j \<noteq> i \<longrightarrow>
        p_state (procs t ! j) = p_state (procs s ! j)
        \<and> p_waiting_tick (procs t ! j) = p_waiting_tick (procs s ! j)
            + (if eligible (eco_mode s) (procs t ! j) then 1 else 0))"
proof -
  let ?u = "window_reset s"
  obtain c: "choice ?u = Some i"
    and t: "t = ?u\<lparr>locks := ProcLock i # locks ?u,
        procs := (mapi (wait_proc (eco_mode ?u) i) (procs ?u))[i := (procs ?u ! i)\<lparr>p_state := RUNNING\<rparr>],
        curproc := Some i\<rparr>"
    using assms by (simp add: scheduler_round_eq Let_def split: option.splits)
  have r: "p_state (reset_proc p) = p_state p" "p_waiting_tick (reset_proc p) = p_waiting_tick p" for p
    by (simp_all add: reset_proc_def)
  have u: "p_state (procs ?u ! j) = p_state (procs s ! j)"
      "p_waiting_tick (procs ?u ! j) = p_waiting_tick (procs s ! j)" if "j < length (procs s)" for j
    using that by (simp_all add: window_reset_def r)
  have "p_state (procs t ! j) = p_state (procs s ! j) \<and> p_waiting_tick (procs t ! j) = p_waiting_tick (procs s ! j)
      + (if eligible (eco_mode s) (procs t ! j) then 1 else 0)" if j: "j < length (procs s)" "j \<noteq> i" for j
  proof -
    have "procs t ! j = wait_proc (eco_mode s) i j (procs ?u ! j)" using j by (simp add: t)
    then show ?thesis using j(2) by (simp only: wait_proc_simps u [OF j(1)] simp_thms)
  qed
  moreover have "i < length (procs s)" "eligible (eco_mode s) (procs ?u ! i)"
    using choice_Some(1,2) [OF c] by simp_all
  ultimately show ?thesis using u(1) [of i] by (simp add: t eligible_def)
qed

section \<open>Progress at the end of a window\<close>

text \<open>C9: Once \<open>WINDOW_SIZE\<close> ticks have passed since the window began, counted
  modulo 2^32, the next round of the scheduler switches to some process if any
  process is \<open>RUNNABLE\<close>, throttled or not, and starts a new window.\<close>

theorem window_progress:
  assumes "sched_ready s" and "ticks s - quota_window_start s \<ge> WINDOW_SIZE"
    and "j < length (procs s)" and "p_state (procs s ! j) = RUNNABLE"
  shows "\<exists>i t. scheduler_round s = Ret (Some i) t \<and> quota_window_start t = ticks s
    \<and> (\<forall>k < length (procs t). p_state (procs t ! k) \<noteq> UNUSED \<longrightarrow>
         \<not> p_throttled (procs t ! k) \<and> p_cpu_used (procs t ! k) = 0)"
proof -
  let ?u = "window_reset s"
  have u: "procs ?u = map reset_proc (procs s)" "quota_window_start ?u = ticks s"
    using assms(2) by (simp_all add: window_reset_def)
  have "eligible (eco_mode ?u) (procs ?u ! j)" using assms by (simp add: u eligible_def reset_proc_def)
  then obtain i where i: "choice ?u = Some i" using choice_None [of ?u j] assms(3) by fastforce
  have r: "p_state (reset_proc p) \<noteq> UNUSED \<longrightarrow> \<not> p_throttled (reset_proc p) \<and> p_cpu_used (reset_proc p) = 0" for p
    by (simp add: reset_proc_def)
  have w: "p_state q \<noteq> UNUSED \<longrightarrow> \<not> p_throttled q \<and> p_cpu_used q = 0"
    if "q = wait_proc eco i k (reset_proc p) \<or> q = (reset_proc p)\<lparr>p_state := RUNNING\<rparr> \<and> p_state p = RUNNABLE"
    for q p k eco
    using that by (auto simp: wait_proc_def reset_proc_def split: if_splits)
  let ?t = "?u\<lparr>locks := ProcLock i # locks ?u,
      procs := (mapi (wait_proc (eco_mode ?u) i) (procs ?u))[i := (procs ?u ! i)\<lparr>p_state := RUNNING\<rparr>],
      curproc := Some i\<rparr>"
  have "scheduler_round s = Ret (Some i) ?t" using scheduler_round_eq [OF assms(1)] i by (simp add: Let_def)
  moreover have "p_state (procs ?t ! k) \<noteq> UNUSED \<longrightarrow> \<not> p_throttled (procs ?t ! k) \<and> p_cpu_used (procs ?t ! k) = 0"
    if "k < length (procs ?t)" for k
  proof (rule w [of _ "eco_mode ?u" k "procs s ! k"])
    have "p_state (procs s ! i) = RUNNABLE"
      using choice_Some(1,2) [OF i] by (auto simp: u eligible_def reset_proc_def split: if_splits)
    then show "procs ?t ! k = wait_proc (eco_mode ?u) i k (reset_proc (procs s ! k)) \<or>
      procs ?t ! k = (reset_proc (procs s ! k))\<lparr>p_state := RUNNING\<rparr> \<and> p_state (procs s ! k) = RUNNABLE"
      using that choice_Some(1) [OF i] by (cases "k = i") (simp_all add: u)
  qed
  ultimately show ?thesis using u(2) by (intro exI [of _ i] exI [of _ ?t]) simp
qed

section \<open>The quota is enforced\<close>

definition quota_ok :: "proc \<Rightarrow> bool" where
  "quota_ok p \<longleftrightarrow> p_state p \<noteq> UNUSED \<longrightarrow>
     0 \<le> sint (p_cpu_used p) \<and> sint (p_cpu_used p) \<le> sint (p_cpu_quota p) \<and> 0 < sint (p_cpu_quota p)
     \<and> (p_state p = RUNNING \<longrightarrow> \<not> p_throttled p)
     \<and> (\<not> p_throttled p \<longrightarrow> sint (p_cpu_used p) < sint (p_cpu_quota p))"

lemma sint_inc: "sint (x :: u32) < sint (y :: u32) \<Longrightarrow> sint (x + 1) = sint x + 1"
  using sint_ge [of x] sint_lt [of y] by (simp add: sint_word_add signed_take_bit_int_eq_self)

lemma charge_quota_ok:
  assumes "quota_ok p" and "p_state p = RUNNING"
  shows "quota_ok ((fst (charge_proc p))\<lparr>p_state := RUNNABLE\<rparr>)"
  using assms sint_inc [of "p_cpu_used p" "p_cpu_quota p"]
  by (auto simp: quota_ok_def charge_proc_def Let_def)

lemma quota_tick_eq:
  assumes "curproc s = Some i" and "no_plocks s" and "can_print s" and "eco_mode s = ECO_QUOTA"
    and "p_state (procs s ! i) = RUNNING" and "i < length (procs s)"
  shows "\<exists>out. quota_tick s = Ret () ((upd_proc i (\<lambda>p. fst (charge_proc p)) s)\<lparr>uart_out := out\<rparr>)"
proof -
  obtain p msg where c: "charge_proc (procs s ! i) = (p, msg)" by (cases "charge_proc (procs s ! i)")
  let ?pr = "printf (''PID %d throttled at %d ticks'' @ [NL])
      [PNum (scast (p_pid p)), PNum (scast (p_cpu_used p))]"
  obtain cs where cs: "printf_chars (''PID %d throttled at %d ticks'' @ [NL])
      [PNum (scast (p_pid p)), PNum (scast (p_cpu_used p))] = Some cs"
    by (simp add: NL_def fmt_at_def printf_conv_def put_conv_def)
  let ?u = "upd_proc i (\<lambda>_. p) s" and ?ls = "ProcLock i # locks s"
  let ?out = "if msg then uart_out s @ cons_out cs else uart_out s"
  have pr: "?pr (?u\<lparr>locks := ?ls\<rparr>) = Ret () (?u\<lparr>locks := ?ls, uart_out := uart_out s @ cons_out cs\<rparr>)"
    using assms(3) by (subst printf_Ret [OF _ _ cs]) (simp_all add: can_print_def)
  have "critical (ProcLock i) (\<lambda>s. if p_state (procs s ! i) = RUNNING
      then (case charge_proc (procs s ! i) of (p, msg) \<Rightarrow>
        kthen (kput (upd_proc i (\<lambda>_. p))) (if msg then printf (''PID %d throttled at %d ticks'' @ [NL])
          [PNum (scast (p_pid p)), PNum (scast (p_cpu_used p))] else kret ())) s
      else Ret () s) s = Ret () ((?u\<lparr>locks := ?ls, uart_out := ?out\<rparr>)\<lparr>locks := locks s\<rparr>)"
    using assms(2,5) c pr by (intro critical_Ret) (simp_all add: no_plocks_def kret_def del: append_Cons)
  also have "(?u\<lparr>locks := ?ls, uart_out := ?out\<rparr>)\<lparr>locks := locks s\<rparr> = (upd_proc i (\<lambda>p. fst (charge_proc p)) s)\<lparr>uart_out := ?out\<rparr>"
    using c by (simp add: upd_proc_def)
  finally show ?thesis using assms(1,4) by (auto simp: quota_tick_def)
qed

lemma timer_tick_eq:
  assumes "curproc s = Some i" and "locks s = []" and "\<not> panicked s" and "eco_mode s = ECO_QUOTA"
    and "p_state (procs s ! i) = RUNNING" and "i < length (procs s)"
  shows "\<exists>t. timer_tick s = Sleep t \<and> eco_mode t = eco_mode s \<and> panicked t = panicked s
    \<and> procs t = (procs s)[i := (fst (charge_proc (procs s ! i)))\<lparr>p_state := RUNNABLE\<rparr>]"
proof -
  obtain out where q: "quota_tick s = Ret () ((upd_proc i (\<lambda>p. fst (charge_proc p)) s)\<lparr>uart_out := out\<rparr>)"
    (is "_ = Ret () ?u") using quota_tick_eq [of s i] assms by (auto simp: no_plocks_def can_print_def)
  have "yield ?u = Sleep ((upd_proc i (\<lambda>q. q\<lparr>p_state := RUNNABLE\<rparr>) ?u)\<lparr>locks := [ProcLock i]\<rparr>)"
    using assms by (intro yield_eq) simp_all
  with q show ?thesis using assms(6) by (simp add: timer_tick_def kthen_def kbind_def)
qed

text \<open>
  The steps that touch the quota fields or the states of processes, each taken
  by some CPU.  \<open>setquota\<close> is included for quotas above what the process has
  already used.
\<close>

definition on_cpu :: "nat option \<Rightarrow> lockid list \<Rightarrow> 'z proc_st_scheme \<Rightarrow> 'z proc_st_scheme" where
  "on_cpu c ls s = s\<lparr>locks := ls, curproc := c\<rparr>"

inductive quota_step :: "'z proc_st_scheme \<Rightarrow> 'z proc_st_scheme \<Rightarrow> bool" where
  round: "scheduler_round (on_cpu None [] s) = Ret r t \<Longrightarrow> quota_step s t"
| tick: "i < length (procs s) \<Longrightarrow> p_state (procs s ! i) = RUNNING \<Longrightarrow>
    timer_tick (on_cpu (Some i) [] s) = Sleep t \<Longrightarrow> quota_step s t"
| preempt: "i < length (procs s) \<Longrightarrow> p_state (procs s ! i) = RUNNING \<Longrightarrow>
    yield (on_cpu (Some i) [] s) = Sleep t \<Longrightarrow> quota_step s t"
| block: "i < length (procs s) \<Longrightarrow> p_state (procs s ! i) = RUNNING \<Longrightarrow> l \<noteq> ProcLock i \<Longrightarrow>
    sleep ch l (on_cpu (Some i) [l] s) = Sleep t \<Longrightarrow> quota_step s t"
| wake: "no_plocks (on_cpu c ls s) \<Longrightarrow> wakeup ch (on_cpu c ls s) = Ret () t \<Longrightarrow> quota_step s t"
| kill: "kkill pid (on_cpu c [] s) = Ret r t \<Longrightarrow> quota_step s t"
| alloc: "i < length (procs s) \<Longrightarrow> p_state (procs s ! i) = UNUSED \<Longrightarrow>
    quota_step s (upd_proc i (found_proc pid) s)"
| ready: "i < length (procs s) \<Longrightarrow> p_state (procs s ! i) = USED \<Longrightarrow>
    quota_step s (upd_proc i (\<lambda>p. p\<lparr>p_state := RUNNABLE\<rparr>) s)"
| exit: "i < length (procs s) \<Longrightarrow> p_state (procs s ! i) = RUNNING \<Longrightarrow>
    quota_step s (upd_proc i (\<lambda>p. p\<lparr>p_state := ZOMBIE, p_xstate := x\<rparr>) s)"
| free: "i < length (procs s) \<Longrightarrow> p_state (procs s ! i) \<in> {USED, ZOMBIE} \<Longrightarrow>
    quota_step s (upd_proc i clear_proc s)"
| setquota: "i < length (procs s) \<Longrightarrow> p_state (procs s ! i) = RUNNING \<Longrightarrow>
    sint (p_cpu_used (procs s ! i)) < sint q \<Longrightarrow> quota_step s (upd_proc i (set_quota_proc q) s)"
| clock: "quota_step s (s\<lparr>ticks := ticks s + 1\<rparr>)"

definition quota_inv :: "'z proc_st_scheme \<Rightarrow> bool" where
  "quota_inv s \<longleftrightarrow> eco_mode s = ECO_QUOTA \<and> \<not> panicked s \<and> (\<forall>p \<in> set (procs s). quota_ok p)"

lemma quota_inv_upd:
  "quota_inv s \<Longrightarrow> quota_ok (f (procs s ! i)) \<Longrightarrow> quota_inv (upd_proc i f s)"
  by (auto simp: quota_inv_def dest: set_update_subset_insert [THEN subsetD])

lemma quota_inv_mapi:
  assumes "quota_inv s" and "\<And>i p. quota_ok p \<Longrightarrow> quota_ok (g i p)"
  shows "\<forall>p \<in> set (mapi g (procs s)). quota_ok p"
  using assms by (auto simp: quota_inv_def mapi_def)

lemma quota_ok_keep:
  "quota_ok p \<Longrightarrow> quota_ok (wake_proc ch p)" "quota_ok p \<Longrightarrow> quota_ok (kill_proc p)"
  "quota_ok p \<Longrightarrow> quota_ok (reset_proc p)" "quota_ok p \<Longrightarrow> quota_ok (wait_proc eco c i p)"
  "quota_ok (found_proc pid p)" "quota_ok (clear_proc p)"
  by (auto simp: quota_ok_def wake_proc_def kill_proc_def reset_proc_def wait_proc_def found_proc_def
      clear_proc_def Let_def)

lemma quota_inv_nth: "quota_inv s \<Longrightarrow> i < length (procs s) \<Longrightarrow> quota_ok (procs s ! i)"
  by (simp add: quota_inv_def)

lemma on_cpu_simps [simp]:
  "procs (on_cpu c ls s) = procs s" "locks (on_cpu c ls s) = ls" "curproc (on_cpu c ls s) = c"
  "eco_mode (on_cpu c ls s) = eco_mode s" "panicked (on_cpu c ls s) = panicked s"
  by (simp_all add: on_cpu_def)

lemma quota_inv_on_cpu: "quota_inv s \<Longrightarrow> quota_inv (on_cpu c ls s)"
  by (simp add: quota_inv_def)

lemma quota_inv_window: "quota_inv s \<Longrightarrow> quota_inv (window_reset s)"
  by (auto simp: quota_inv_def window_reset_def intro: quota_ok_keep)

lemma quota_round:
  assumes "quota_inv s" and "scheduler_round s = Ret r t" and "sched_ready s"
  shows "quota_inv t"
proof -
  let ?u = "window_reset s"
  have u: "quota_inv ?u" using assms(1) by (rule quota_inv_window)
  show ?thesis
  proof (cases "choice ?u")
    case None
    then show ?thesis using u assms scheduler_round_eq [OF assms(3)] by (simp add: Let_def)
  next
    case (Some i)
    let ?ps = "mapi (wait_proc (eco_mode ?u) i) (procs ?u)" and ?p = "(procs ?u ! i)\<lparr>p_state := RUNNING\<rparr>"
    have "quota_ok ?p"
      using choice_Some(1,2) [OF Some] quota_inv_nth [OF u] u
      by (auto simp: quota_inv_def eligible_def quota_ok_def)
    moreover have "\<forall>p \<in> set ?ps. quota_ok p" using u by (rule quota_inv_mapi) (rule quota_ok_keep)
    ultimately have "\<forall>p \<in> set (?ps[i := ?p]). quota_ok p"
      using set_update_subset_insert [of ?ps i ?p] by blast
    moreover have "procs t = ?ps[i := ?p]" "eco_mode t = eco_mode ?u" "panicked t = panicked ?u"
      using Some assms(2) scheduler_round_eq [OF assms(3)] by (auto simp: Let_def)
    ultimately show ?thesis using u by (simp only: quota_inv_def simp_thms)
  qed
qed

lemma quota_inv_tick:
  assumes "quota_inv s" and "i < length (procs s)" and "p_state (procs s ! i) = RUNNING"
    and "timer_tick (on_cpu (Some i) [] s) = Sleep t"
  shows "quota_inv t"
proof -
  have "eco_mode t = eco_mode s \<and> panicked t = panicked s
      \<and> procs t = (procs s)[i := (fst (charge_proc (procs s ! i)))\<lparr>p_state := RUNNABLE\<rparr>]"
    using timer_tick_eq [of "on_cpu (Some i) [] s" i] assms by (auto simp: quota_inv_def)
  moreover have "quota_ok ((fst (charge_proc (procs s ! i)))\<lparr>p_state := RUNNABLE\<rparr>)"
    using charge_quota_ok quota_inv_nth assms by blast
  ultimately show ?thesis
    using assms(1) by (auto simp: quota_inv_def dest!: set_update_subset_insert [THEN subsetD])
qed

lemma quota_inv_switch:
  assumes "quota_inv s" and "quota_ok (f (procs s ! i))"
  shows "quota_inv ((upd_proc i f (on_cpu c ls s))\<lparr>locks := ls'\<rparr>)"
proof -
  have "quota_inv (upd_proc i f (on_cpu c ls s))"
    using assms by (intro quota_inv_upd quota_inv_on_cpu) simp_all
  then show ?thesis by (simp add: quota_inv_def)
qed

lemma quota_inv_step: "quota_step s t \<Longrightarrow> quota_inv s \<Longrightarrow> quota_inv t"
proof (induction rule: quota_step.induct)
  case (round s r t)
  then show ?case
    using quota_round [OF quota_inv_on_cpu round.hyps]
    by (simp add: sched_ready_def can_print_def no_plocks_def quota_inv_def)
next
  case (tick i s t)
  then show ?case using quota_inv_tick by blast
next
  case (preempt i s t)
  then have "quota_ok ((procs s ! i)\<lparr>p_state := RUNNABLE\<rparr>)"
    using quota_inv_nth by (fastforce simp: quota_ok_def)
  moreover have "t = (upd_proc i (\<lambda>q. q\<lparr>p_state := RUNNABLE\<rparr>) (on_cpu (Some i) [] s))\<lparr>locks := [ProcLock i]\<rparr>"
    using preempt.hyps yield_eq [of "on_cpu (Some i) [] s" i] by simp
  ultimately show ?case by (simp only: quota_inv_switch [OF preempt.prems])
next
  case (block i s l ch t)
  then have "quota_ok ((procs s ! i)\<lparr>p_chan := Some ch, p_state := SLEEPING\<rparr>)"
    using quota_inv_nth by (fastforce simp: quota_ok_def)
  moreover have "t = (upd_proc i (\<lambda>q. q\<lparr>p_chan := Some ch, p_state := SLEEPING\<rparr>) (on_cpu (Some i) [l] s))\<lparr>locks := [ProcLock i]\<rparr>"
    using block.hyps sleep_eq [of "on_cpu (Some i) [l] s" i l ch] by simp
  ultimately show ?case by (simp only: quota_inv_switch [OF block.prems])
next
  case (wake c ls s ch t)
  have "\<forall>p \<in> set (mapi (\<lambda>i. if Some i \<noteq> c then wake_proc ch else id) (procs s)). quota_ok p"
    using wake.prems by (rule quota_inv_mapi) (auto intro: quota_ok_keep)
  then show ?case using wake wakeup_eq [of "on_cpu c ls s" ch] by (auto simp: quota_inv_def)
next
  case (kill pid c s r t)
  have i: "quota_inv (on_cpu c [] s)" using kill.prems by (rule quota_inv_on_cpu)
  have n: "no_plocks (on_cpu c [] s)" by (simp add: no_plocks_def)
  let ?is = "filter (\<lambda>i. p_pid (procs s ! i) = pid) [0..<length (procs s)]"
  show ?case
  proof (cases ?is)
    case Nil
    then show ?thesis using kill i kkill_loop_eq [OF n] by (simp add: kkill_def)
  next
    case (Cons k ks)
    then have "k \<in> set ?is" by simp
    then have "k < length (procs s)" by simp
    then have "quota_ok (kill_proc (procs s ! k))" using kill.prems quota_inv_nth quota_ok_keep(2) by blast
    then have "quota_inv (upd_proc k kill_proc (on_cpu c [] s))" using quota_inv_upd [OF i] by simp
    then show ?thesis using Cons kill kkill_loop_eq [OF n] by (simp add: kkill_def)
  qed
next
  case (alloc i s pid) then show ?case by (simp add: quota_inv_upd quota_ok_keep)
next
  case (ready i s)
  then show ?case using quota_inv_nth by (intro quota_inv_upd) (fastforce simp: quota_ok_def)+
next
  case (exit i s x)
  then show ?case using quota_inv_nth by (intro quota_inv_upd) (fastforce simp: quota_ok_def)+
next
  case (free i s) then show ?case by (simp add: quota_inv_upd quota_ok_keep)
next
  case (setquota i s q)
  then have "quota_ok (procs s ! i)" by (simp add: quota_inv_nth)
  then have "quota_ok (set_quota_proc q (procs s ! i))"
    using setquota.hyps by (auto simp: quota_ok_def set_quota_proc_def Let_def)
  then show ?case using setquota.prems by (intro quota_inv_upd)
next
  case (clock s) then show ?case by (simp add: quota_inv_def)
qed


section \<open>Setting the quota\<close>

text \<open>C12: \<open>setquota\<close> refuses a quota that is not positive and changes nothing then;
  otherwise it sets the quota of the caller and lifts the throttling exactly
  when the ticks already used are below it, and touches nothing else.\<close>

theorem setquota_effect:
  assumes "curproc s = Some i" and "no_plocks s" and "i < length (procs s)"
    and "q = ucast (load64 (pmem s) (p_trapframe (procs s ! i) + 112))"
  shows "sys_setquota s =
    (if sint q \<le> 0 then Ret (- 1) s
     else Ret 0 (upd_proc i (\<lambda>p. p\<lparr>p_cpu_quota := q,
       p_throttled := p_throttled p \<and> sint q \<le> sint (p_cpu_used p)\<rparr>) s))"
proof -
  have eq: "set_quota_proc q p = p\<lparr>p_cpu_quota := q, p_throttled := p_throttled p \<and> sint q \<le> sint (p_cpu_used p)\<rparr>" for p
    by (cases p) (simp add: set_quota_proc_def Let_def)
  have "argint 0 s = Ret q s"
    using assms by (simp add: argint_def argraw_def myproc_def kbind_def kret_def)
  moreover have "myproc s = Ret i s" using assms(1) by (simp add: myproc_def)
  moreover have "critical (ProcLock i) (kput (upd_proc i (set_quota_proc q))) s = Ret () (upd_proc i (set_quota_proc q) s)"
    using assms(2) by (simp add: no_plocks_def)
  ultimately show ?thesis
    by (simp add: sys_setquota_def kthen_def kbind_def kret_def upd_proc_def eq)
qed

section \<open>Examples\<close>

text \<open>
  A parent called \<open>schedtest\<close> asleep, two of its children and a shell ready, the
  third child throttled.
\<close>

definition ex_sched_procs :: "proc list" where
  "ex_sched_procs =
     [zero_proc\<lparr>p_state := SLEEPING, p_pid := 3, p_chan := Some (ChProc 0), p_name := cstring ''schedtest'' @ replicate 7 0\<rparr>,
      zero_proc\<lparr>p_state := RUNNABLE, p_pid := 2, p_cpu_quota := 20\<rparr>,
      zero_proc\<lparr>p_state := RUNNABLE, p_pid := 7, p_parent := Some 0, p_cpu_quota := 20\<rparr>,
      zero_proc\<lparr>p_state := RUNNABLE, p_pid := 5, p_parent := Some 0, p_cpu_quota := 20\<rparr>,
      zero_proc\<lparr>p_state := RUNNABLE, p_pid := 4, p_parent := Some 0, p_cpu_quota := 20, p_cpu_used := 20, p_throttled := True\<rparr>]"

definition ex_sched :: proc_st where
  "ex_sched = ex_st\<lparr>procs := ex_sched_procs, curproc := None\<rparr>"

lemma ex_sched_simps:
  "procs ex_sched = ex_sched_procs" "eco_mode ex_sched = ECO_QUOTA" "curproc ex_sched = None"
  "ticks ex_sched = 0" "quota_window_start ex_sched = 0" "panicked ex_sched = False"
  by (simp_all add: ex_sched_def ex_st_def)

lemma ex_sched_ready: "sched_ready ex_sched" and ex_sched_no_plocks: "no_plocks ex_sched"
  by (simp_all add: sched_ready_def can_print_def no_plocks_def ex_sched_def ex_st_def)

lemma ex_sched_window: "window_reset ex_sched = ex_sched"
  by (simp add: window_reset_def ex_sched_simps WINDOW_SIZE_def)

lemma ex_sched_choice: "choice ex_sched = Some 3"
  by (simp add: choice_def fcfs_pick_def fcfs_cand_def ex_sched_simps ex_sched_procs_def zero_proc_def
      eligible_def schedtest_child_def cstr_of_def cstring_def upt_rec ECO_QUOTA_def strncmp_list_zero)

theorem scheduler_choice_witness:
  "\<exists>r. scheduler_choose ex_sched = Ret r ex_sched \<and> r \<noteq> None"
  using scheduler_choice [OF ex_sched_no_plocks] choice_None [of ex_sched]
  by (auto simp: ex_sched_choice scheduler_choose_eq [OF ex_sched_no_plocks])

theorem scheduler_dispatch_witness:
  "\<exists>t. scheduler_round ex_sched = Ret (Some 3) t \<and> p_state (procs t ! 3) = RUNNING
     \<and> p_waiting_tick (procs t ! 2) = 1 \<and> p_waiting_tick (procs t ! 4) = 0"
proof -
  obtain t where t: "scheduler_round ex_sched = Ret (Some 3) t"
    using scheduler_round_eq [OF ex_sched_ready] by (simp add: Let_def ex_sched_window ex_sched_choice)
  have "procs t ! 4 = ex_sched_procs ! 4" "procs t ! 2 = (ex_sched_procs ! 2)\<lparr>p_waiting_tick := 1\<rparr>"
    using t scheduler_round_eq [OF ex_sched_ready]
    by (auto simp: Let_def ex_sched_window ex_sched_choice ex_sched_simps wait_proc_def ex_sched_procs_def zero_proc_def)
  with t scheduler_dispatch [OF ex_sched_ready t] show ?thesis
    by (auto simp: ex_sched_simps ex_sched_procs_def zero_proc_def)
qed

theorem window_progress_witness:
  "\<exists>i t. scheduler_round (ex_sched\<lparr>ticks := 60, quota_window_start := 4294967200\<rparr>) = Ret (Some i) t"
  using window_progress [of "ex_sched\<lparr>ticks := 60, quota_window_start := 4294967200\<rparr>" 4]
  by (auto simp: sched_ready_def can_print_def no_plocks_def ex_sched_def ex_st_def WINDOW_SIZE_def
      ex_sched_procs_def zero_proc_def)

theorem setquota_effect_witness:
  "sys_setquota (ex_sched\<lparr>curproc := Some 4, pmem := (\<lambda>_. 0)(112 := 25)\<rparr>) =
     Ret 0 (upd_proc 4 (\<lambda>p. p\<lparr>p_cpu_quota := 25, p_throttled := False\<rparr>)
       (ex_sched\<lparr>curproc := Some 4, pmem := (\<lambda>_. 0)(112 := 25)\<rparr>))"
proof -
  let ?s = "ex_sched\<lparr>curproc := Some 4, pmem := (\<lambda>_. 0)(112 := 25)\<rparr>"
  have "load64 (pmem ?s) (p_trapframe (procs ?s ! 4) + 112) = 25"
    by (simp add: ex_sched_simps ex_sched_procs_def zero_proc_def load64_def load32_def load16_def)
  then show ?thesis
    using setquota_effect [of ?s 4 25]
    by (simp add: no_plocks_def ex_sched_def ex_st_def upd_proc_def ex_sched_procs_def zero_proc_def)
qed


end
