(* ===== verification/Smp.thy ===== *)
theory Smp
  imports Sched
begin

text \<open>
  The hand-over of processes between CPUs: kernel/proc.c run by any number of
  CPUs at once.  A CPU that switches to a process holds the lock of its slot
  across the context switch, in both directions.  The first step relation cuts
  \<open>scheduler\<close>, \<open>yield\<close>, \<open>sleep\<close>, \<open>kexit\<close>, \<open>forkret\<close>, \<open>wakeup\<close>, \<open>kkill\<close>,
  \<open>allocproc\<close>, \<open>kfork\<close> and \<open>kwait\<close> at the points where locks are taken and
  released and shows that no kernel stack is ever used by two CPUs.  The second
  one is the protocol of \<open>sleep\<close> and \<open>wakeup\<close> and shows that no wakeup is lost.
\<close>

section \<open>No process runs twice\<close>

text \<open>
  Where a CPU is: in the loop of \<open>scheduler\<close>; past the choice of a slot; holding
  the chosen slot's lock; switched to the process with the lock still held; running
  the process; in the process with its lock held again; with the state of the
  process changed, about to switch back.
\<close>

datatype cpc = Idle | Picked nat | Locked nat | Entered nat | Run nat | Holding nat | Leaving nat

record smp =
  tab :: "nat \<Rightarrow> proc"
  plk :: "nat \<Rightarrow> nat option"  \<comment> \<open>the CPU that holds the lock of a slot\<close>
  pcs :: "nat \<Rightarrow> cpc"
  eco :: u32

definition set_pc :: "nat \<Rightarrow> cpc \<Rightarrow> smp \<Rightarrow> smp" where
  "set_pc c x s = s\<lparr>pcs := (pcs s)(c := x)\<rparr>"

definition set_lock :: "nat \<Rightarrow> nat option \<Rightarrow> smp \<Rightarrow> smp" where
  "set_lock i x s = s\<lparr>plk := (plk s)(i := x)\<rparr>"

definition set_proc :: "nat \<Rightarrow> proc \<Rightarrow> smp \<Rightarrow> smp" where
  "set_proc i p s = s\<lparr>tab := (tab s)(i := p)\<rparr>"

lemmas smp_upd = set_pc_def set_lock_def set_proc_def

inductive smp_step :: "smp \<Rightarrow> smp \<Rightarrow> bool" where
  choose: "pcs s c = Idle \<Longrightarrow> smp_step s (set_pc c (Picked i) s)"
| grab: "pcs s c = Picked i \<Longrightarrow> plk s i = None \<Longrightarrow>
    smp_step s (set_pc c (Locked i) (set_lock i (Some c) s))"
| dispatch: "pcs s c = Locked i \<Longrightarrow> eligible (eco s) (tab s i) \<Longrightarrow>
    smp_step s (set_pc c (Entered i) (set_proc i ((tab s i)\<lparr>p_state := RUNNING\<rparr>) s))"
| skip: "pcs s c = Locked i \<Longrightarrow> \<not> eligible (eco s) (tab s i) \<Longrightarrow>
    smp_step s (set_pc c Idle (set_lock i None s))"
| resume: "pcs s c = Entered i \<Longrightarrow> smp_step s (set_pc c (Run i) (set_lock i None s))"
| relock: "pcs s c = Run i \<Longrightarrow> plk s i = None \<Longrightarrow>
    smp_step s (set_pc c (Holding i) (set_lock i (Some c) s))"
| give_up: "pcs s c = Holding i \<Longrightarrow> st \<in> {RUNNABLE, SLEEPING, ZOMBIE} \<Longrightarrow>
    smp_step s (set_pc c (Leaving i) (set_proc i ((tab s i)\<lparr>p_state := st, p_chan := ch\<rparr>) s))"
| swtch: "pcs s c = Leaving i \<Longrightarrow> smp_step s (set_pc c Idle (set_lock i None s))"
| wake: "plk s i = None \<Longrightarrow> smp_step s (set_proc i (wake_proc ch (tab s i)) s)"
| kill: "plk s i = None \<Longrightarrow> smp_step s (set_proc i (kill_proc (tab s i)) s)"
| alloc: "plk s i = None \<Longrightarrow> p_state (tab s i) = UNUSED \<Longrightarrow>
    smp_step s (set_proc i (found_proc pid (tab s i)) s)"
| ready: "plk s i = None \<Longrightarrow> p_state (tab s i) = USED \<Longrightarrow>
    smp_step s (set_proc i ((tab s i)\<lparr>p_state := RUNNABLE\<rparr>) s)"
| reap: "plk s i = None \<Longrightarrow> p_state (tab s i) \<in> {USED, ZOMBIE} \<Longrightarrow>
    smp_step s (set_proc i (clear_proc (tab s i)) s)"

text \<open>The CPU executes on the kernel stack of the process.\<close>

definition on_stack :: "smp \<Rightarrow> nat \<Rightarrow> nat \<Rightarrow> bool" where
  "on_stack s c i \<longleftrightarrow> pcs s c \<in> {Entered i, Run i, Holding i, Leaving i}"

definition smp_init :: "smp \<Rightarrow> bool" where
  "smp_init s \<longleftrightarrow> pcs s = (\<lambda>_. Idle) \<and> plk s = (\<lambda>_. None) \<and> (\<forall>i. p_state (tab s i) \<noteq> RUNNING)"

definition lock_agrees :: "smp \<Rightarrow> bool" where
  "lock_agrees s \<longleftrightarrow> (\<forall>c i. plk s i = Some c \<longleftrightarrow> pcs s c \<in> {Locked i, Entered i, Holding i, Leaving i})"

definition runs :: "smp \<Rightarrow> nat \<Rightarrow> nat \<Rightarrow> bool" where
  "runs s c i \<longleftrightarrow> pcs s c \<in> {Entered i, Run i, Holding i}"

definition running_agrees :: "smp \<Rightarrow> bool" where
  "running_agrees s \<longleftrightarrow> (\<forall>i. p_state (tab s i) = RUNNING \<longleftrightarrow> (\<exists>c. runs s c i))"

definition one_stack :: "smp \<Rightarrow> bool" where
  "one_stack s \<longleftrightarrow> (\<forall>c d i. on_stack s c i \<longrightarrow> on_stack s d i \<longrightarrow> c = d)"

definition smp_inv :: "smp \<Rightarrow> bool" where
  "smp_inv s \<longleftrightarrow> lock_agrees s \<and> running_agrees s \<and> one_stack s"

lemma smp_inv_proc:
  assumes "smp_inv s" and "p_state p = RUNNING \<longleftrightarrow> p_state (tab s i) = RUNNING"
  shows "smp_inv (set_proc i p s)"
  using assms
  by (simp add: smp_inv_def lock_agrees_def running_agrees_def one_stack_def on_stack_def runs_def set_proc_def)

lemma runs_set_pc:
  "runs (set_pc c x s) d i \<longleftrightarrow> (if d = c then x \<in> {Entered i, Run i, Holding i} else runs s d i)"
  by (auto simp: runs_def set_pc_def)

lemma on_stack_set_pc:
  "on_stack (set_pc c x s) d i \<longleftrightarrow> (if d = c then x \<in> {Entered i, Run i, Holding i, Leaving i} else on_stack s d i)"
  by (auto simp: on_stack_def set_pc_def)

lemma runs_upd [simp]: "runs (set_lock i l s) = runs s" "runs (set_proc i p s) = runs s"
  "on_stack (set_lock i l s) = on_stack s" "on_stack (set_proc i p s) = on_stack s"
  "tab (set_pc c x s) = tab s" "tab (set_lock i l s) = tab s"
  "pcs (set_lock i l s) = pcs s" "pcs (set_proc i p s) = pcs s"
  by (simp_all add: fun_eq_iff runs_def on_stack_def smp_upd)

text \<open>A CPU that moves without starting or stopping to run a process.\<close>

lemma running_same:
  assumes "running_agrees s" and "\<And>j. x \<in> {Entered j, Run j, Holding j} \<longleftrightarrow> runs s c j"
  shows "running_agrees (set_pc c x (set_lock i l s))"
proof -
  have "runs (set_pc c x (set_lock i l s)) = runs s"
    using assms(2) by (auto simp: fun_eq_iff runs_set_pc)
  then show ?thesis using assms(1) by (simp add: running_agrees_def)
qed

lemma one_stack_less:
  assumes "one_stack s" and "\<And>j. x \<in> {Entered j, Run j, Holding j, Leaving j} \<Longrightarrow> on_stack s c j"
  shows "one_stack (set_pc c x (set_lock i l s))"
  using assms unfolding one_stack_def on_stack_set_pc runs_upd by metis

lemma set_lock_same: "set_lock i (plk s i) s = s"
  by (simp add: set_lock_def)

lemma smp_inv_move:
  assumes "smp_inv s" and "\<And>j. x \<in> {Entered j, Run j, Holding j} \<longleftrightarrow> runs s c j"
    and "\<And>j. x \<in> {Entered j, Run j, Holding j, Leaving j} \<Longrightarrow> on_stack s c j"
    and "lock_agrees (set_pc c x (set_lock i l s))"
  shows "smp_inv (set_pc c x (set_lock i l s))"
  using assms running_same one_stack_less by (simp add: smp_inv_def)

lemma lock_holder:
  "smp_inv s \<Longrightarrow> pcs s c \<in> {Locked i, Entered i, Holding i, Leaving i} \<Longrightarrow>
   pcs s d \<in> {Locked i, Entered i, Holding i, Leaving i} \<Longrightarrow> d = c"
  unfolding smp_inv_def lock_agrees_def by (metis option.inject)

lemma smp_inv_dispatch:
  assumes "smp_inv s" and "pcs s c = Locked i" and "p_state (tab s i) \<noteq> RUNNING" and "p_state p = RUNNING"
  shows "smp_inv (set_pc c (Entered i) (set_proc i p s))"
proof -
  have nr: "\<not> runs s d i" for d using assms by (auto simp: smp_inv_def running_agrees_def)
  have ns: "\<not> on_stack s d i" for d
    using nr [of d] lock_holder [OF assms(1), of c i d] assms(2) by (auto simp: on_stack_def runs_def)
  have nc: "\<not> runs s c j" "\<not> on_stack s c j" for j using assms(2) by (auto simp: runs_def on_stack_def)
  have "lock_agrees (set_pc c (Entered i) (set_proc i p s))"
    using assms(1,2) by (auto simp: smp_inv_def lock_agrees_def smp_upd)
  moreover have "running_agrees (set_pc c (Entered i) (set_proc i p s))"
  proof -
    have "runs (set_pc c (Entered i) (set_proc i p s)) d j \<longleftrightarrow> runs s d j \<or> d = c \<and> j = i" for d j
      using nc by (auto simp: runs_set_pc)
    then show ?thesis using assms by (auto simp: smp_inv_def running_agrees_def set_proc_def)
  qed
  moreover have "one_stack (set_pc c (Entered i) (set_proc i p s))"
    using assms(1) nc ns unfolding smp_inv_def one_stack_def on_stack_set_pc runs_upd by auto
  ultimately show ?thesis by (simp add: smp_inv_def)
qed

lemma smp_inv_give_up:
  assumes "smp_inv s" and "pcs s c = Holding i" and "p_state p \<noteq> RUNNING"
  shows "smp_inv (set_pc c (Leaving i) (set_proc i p s))"
proof -
  have c: "runs s c j \<longleftrightarrow> j = i" "on_stack s c j \<longleftrightarrow> j = i" for j using assms(2) by (auto simp: runs_def on_stack_def)
  have o1: "on_stack s d i \<Longrightarrow> d = c" for d
    using assms(1) c(2) [of i] unfolding smp_inv_def one_stack_def by blast
  have o2: "runs s d i \<Longrightarrow> d = c" for d using o1 [of d] by (auto simp: runs_def on_stack_def)
  note o = o1 o2
  have "lock_agrees (set_pc c (Leaving i) (set_proc i p s))"
    using assms(1,2) by (auto simp: smp_inv_def lock_agrees_def smp_upd)
  moreover have "running_agrees (set_pc c (Leaving i) (set_proc i p s))"
  proof -
    have "runs (set_pc c (Leaving i) (set_proc i p s)) d j \<longleftrightarrow> runs s d j \<and> j \<noteq> i" for d j
      using c o by (auto simp: runs_set_pc)
    then show ?thesis using assms by (auto simp: smp_inv_def running_agrees_def set_proc_def)
  qed
  moreover have "one_stack (set_pc c (Leaving i) (set_proc i p s))"
    using assms(1) c o unfolding smp_inv_def one_stack_def on_stack_set_pc runs_upd by auto
  ultimately show ?thesis by (simp add: smp_inv_def)
qed

definition holds :: "cpc \<Rightarrow> nat \<Rightarrow> bool" where
  "holds x i \<longleftrightarrow> x \<in> {Locked i, Entered i, Holding i, Leaving i}"

lemma lock_agrees_holds: "lock_agrees s \<longleftrightarrow> (\<forall>c i. plk s i = Some c \<longleftrightarrow> holds (pcs s c) i)"
  by (simp add: lock_agrees_def holds_def)

lemma lock_take:
  assumes "smp_inv s" and "plk s i = None" and "\<And>j. \<not> holds (pcs s c) j" and "\<And>j. holds x j \<longleftrightarrow> j = i"
  shows "lock_agrees (set_pc c x (set_lock i (Some c) s))"
proof -
  have "\<not> holds (pcs s d) i" for d
    using assms(1,2) unfolding smp_inv_def lock_agrees_holds by (metis option.distinct(1))
  then show ?thesis using assms by (simp add: smp_inv_def lock_agrees_holds smp_upd)
qed

lemma lock_drop:
  assumes "smp_inv s" and "\<And>j. holds (pcs s c) j \<longleftrightarrow> j = i" and "\<And>j. \<not> holds x j"
  shows "lock_agrees (set_pc c x (set_lock i None s))"
proof -
  have "plk s i = Some c" using assms(1,2) by (simp add: smp_inv_def lock_agrees_holds)
  then have "holds (pcs s d) i \<longleftrightarrow> d = c" for d
    using assms(1) unfolding smp_inv_def lock_agrees_holds by (metis option.inject)
  then show ?thesis using assms by (auto simp: smp_inv_def lock_agrees_holds smp_upd)
qed

lemma smp_inv_step: "smp_step s t \<Longrightarrow> smp_inv s \<Longrightarrow> smp_inv t"
proof (induction rule: smp_step.induct)
  case (choose s c i)
  have "smp_inv (set_pc c (Picked i) (set_lock i (plk s i) s))"
    using choose by (intro smp_inv_move) (auto simp: runs_def on_stack_def smp_inv_def lock_agrees_def smp_upd)
  then show ?case by (simp only: set_lock_same)
next
  case (grab s c i)
  then show ?case by (intro smp_inv_move lock_take) (auto simp: runs_def on_stack_def holds_def)
next
  case (dispatch s c i)
  then show ?case by (intro smp_inv_dispatch) (auto simp: eligible_def)
next
  case (skip s c i)
  then show ?case by (intro smp_inv_move lock_drop) (auto simp: runs_def on_stack_def holds_def)
next
  case (resume s c i)
  then show ?case by (intro smp_inv_move lock_drop) (auto simp: runs_def on_stack_def holds_def)
next
  case (relock s c i)
  then show ?case by (intro smp_inv_move lock_take) (auto simp: runs_def on_stack_def holds_def)
next
  case (give_up s c i st ch)
  then show ?case by (intro smp_inv_give_up) auto
next
  case (swtch s c i)
  then show ?case by (intro smp_inv_move lock_drop) (auto simp: runs_def on_stack_def holds_def)
qed (auto intro!: smp_inv_proc simp: wake_proc_def kill_proc_def found_proc_def clear_proc_def Let_def)

text \<open>C4: Whatever the interleaving of the CPUs, no two of them ever execute on the
  kernel stack of one process, and a process is \<open>RUNNING\<close> exactly while some CPU
  runs it.\<close>

theorem no_double_run:
  assumes "smp_init s" and "smp_step\<^sup>*\<^sup>* s t"
  shows "(on_stack t c i \<and> on_stack t d i \<longrightarrow> c = d)
    \<and> (p_state (tab t i) = RUNNING \<longleftrightarrow> (\<exists>e. pcs t e \<in> {Entered i, Run i, Holding i}))"
proof -
  have "smp_inv s" using assms(1)
    by (auto simp: smp_init_def smp_inv_def lock_agrees_def running_agrees_def one_stack_def runs_def on_stack_def)
  with assms(2) have "smp_inv t" by (induction rule: rtranclp_induct) (auto intro: smp_inv_step)
  then show ?thesis by (auto simp: smp_inv_def running_agrees_def one_stack_def runs_def)
qed

text \<open>Two CPUs and one process: it is dispatched on CPU 0.\<close>

definition ex_smp :: smp where
  "ex_smp = \<lparr>tab = (\<lambda>_. zero_proc\<lparr>p_state := RUNNABLE\<rparr>), plk = (\<lambda>_. None), pcs = (\<lambda>_. Idle), eco = ECO_QUOTA\<rparr>"

theorem no_double_run_witness:
  "\<exists>t. smp_step\<^sup>*\<^sup>* ex_smp t \<and> on_stack t 0 7 \<and> (on_stack t 1 7 \<longrightarrow> False) \<and> p_state (tab t 7) = RUNNING"
proof -
  let ?a = "set_pc 0 (Picked 7) ex_smp"
  let ?b = "set_pc 0 (Locked 7) (set_lock 7 (Some 0) ?a)"
  let ?c = "set_pc 0 (Entered 7) (set_proc 7 ((tab ?b 7)\<lparr>p_state := RUNNING\<rparr>) ?b)"
  have "smp_step ex_smp ?a" by (rule smp_step.choose) (simp add: ex_smp_def)
  moreover have "smp_step ?a ?b" by (rule smp_step.grab) (simp_all add: ex_smp_def smp_upd)
  moreover have "smp_step ?b ?c"
    by (rule smp_step.dispatch) (simp_all add: ex_smp_def smp_upd eligible_def zero_proc_def)
  ultimately have st: "smp_step\<^sup>*\<^sup>* ex_smp ?c" by (meson converse_rtranclp_into_rtranclp r_into_rtranclp)
  have i: "smp_init ex_smp" by (simp add: smp_init_def ex_smp_def zero_proc_def)
  have "on_stack ?c 0 7" by (simp add: on_stack_def smp_upd)
  moreover have "p_state (tab ?c 7) = RUNNING"
    using no_double_run [OF i st, of 0 7 0] by (auto simp: set_pc_def)
  moreover have "\<not> on_stack ?c 1 7"
    using no_double_run [OF i st, of 0 7 1] \<open>on_stack ?c 0 7\<close> by auto
  ultimately show ?thesis using st by blast
qed

section \<open>No wakeup is lost\<close>

text \<open>
  Processes that use one condition: \<open>acquire(l); while(!cond) sleep(ch, l); ...
  release(l)\<close> on one side and \<open>acquire(l); cond = 1; wakeup(ch); release(l)\<close> on the
  other.  The positions of a process: outside; at the test of the loop; in
  \<open>sleep\<close> before its own lock; with both locks; with the condition lock
  released; with its state set; switched away; back and about to take the
  condition lock again; on the other side, before setting the condition, and
  in the loop of \<open>wakeup\<close> at slot \<open>k\<close>.
\<close>

datatype wpc = Out | Test | SlpEnter | SlpLocked | SlpReleased | SlpSet | Asleep | Reacquire | Waker | Loop nat

record wst =
  cnd :: bool
  lkh :: "nat option"
  slk :: "nat \<Rightarrow> bool"  \<comment> \<open>a process holds its own lock\<close>
  wtab :: "nat \<Rightarrow> proc"
  wpcs :: "nat \<Rightarrow> wpc"

definition wgo :: "nat \<Rightarrow> wpc \<Rightarrow> wst \<Rightarrow> wst" where
  "wgo i x s = s\<lparr>wpcs := (wpcs s)(i := x)\<rparr>"

definition wproc :: "nat \<Rightarrow> proc \<Rightarrow> wst \<Rightarrow> wst" where
  "wproc i p s = s\<lparr>wtab := (wtab s)(i := p)\<rparr>"

definition wslk :: "nat \<Rightarrow> bool \<Rightarrow> wst \<Rightarrow> wst" where
  "wslk i b s = s\<lparr>slk := (slk s)(i := b)\<rparr>"

lemmas wupd = wgo_def wproc_def wslk_def

inductive wake_step :: "nat \<Rightarrow> chan \<Rightarrow> wst \<Rightarrow> wst \<Rightarrow> bool" for n ch where
  lock_test: "wpcs s i = Out \<Longrightarrow> lkh s = None \<Longrightarrow> wake_step n ch s (wgo i Test (s\<lparr>lkh := Some i\<rparr>))"
| lock_set: "wpcs s i = Out \<Longrightarrow> lkh s = None \<Longrightarrow> wake_step n ch s (wgo i Waker (s\<lparr>lkh := Some i\<rparr>))"
| test_true: "wpcs s i = Test \<Longrightarrow> cnd s \<Longrightarrow> wake_step n ch s (wgo i Out (s\<lparr>lkh := None, cnd := b\<rparr>))"
| test_false: "wpcs s i = Test \<Longrightarrow> \<not> cnd s \<Longrightarrow> wake_step n ch s (wgo i SlpEnter s)"
| sleep_lock: "wpcs s i = SlpEnter \<Longrightarrow> \<not> slk s i \<Longrightarrow> wake_step n ch s (wgo i SlpLocked (wslk i True s))"
| sleep_release: "wpcs s i = SlpLocked \<Longrightarrow> wake_step n ch s (wgo i SlpReleased (s\<lparr>lkh := None\<rparr>))"
| sleep_set: "wpcs s i = SlpReleased \<Longrightarrow>
    wake_step n ch s (wgo i SlpSet (wproc i ((wtab s i)\<lparr>p_chan := Some ch, p_state := SLEEPING\<rparr>) s))"
| sleep_swtch: "wpcs s i = SlpSet \<Longrightarrow> wake_step n ch s (wgo i Asleep (wslk i False s))"
| sleep_back: "wpcs s i = Asleep \<Longrightarrow> \<not> slk s i \<Longrightarrow> p_state (wtab s i) = RUNNABLE \<Longrightarrow>
    wake_step n ch s (wgo i Reacquire (wproc i ((wtab s i)\<lparr>p_chan := None, p_state := RUNNING\<rparr>) s))"
| sleep_relock: "wpcs s i = Reacquire \<Longrightarrow> lkh s = None \<Longrightarrow> wake_step n ch s (wgo i Test (s\<lparr>lkh := Some i\<rparr>))"
| set_cond: "wpcs s i = Waker \<Longrightarrow> wake_step n ch s (wgo i (Loop 0) (s\<lparr>cnd := True\<rparr>))"
| wake_slot: "wpcs s i = Loop k \<Longrightarrow> k < n \<Longrightarrow> k \<noteq> i \<Longrightarrow> \<not> slk s k \<Longrightarrow>
    wake_step n ch s (wgo i (Loop (k + 1)) (wproc k (wake_proc (Some ch) (wtab s k)) s))"
| wake_self: "wpcs s i = Loop k \<Longrightarrow> k < n \<Longrightarrow> k = i \<Longrightarrow> wake_step n ch s (wgo i (Loop (k + 1)) s)"
| wake_done: "wpcs s i = Loop k \<Longrightarrow> n \<le> k \<Longrightarrow> wake_step n ch s (wgo i Out (s\<lparr>lkh := None\<rparr>))"

definition wake_init :: "wst \<Rightarrow> bool" where
  "wake_init s \<longleftrightarrow> lkh s = None \<and> slk s = (\<lambda>_. False) \<and> wpcs s = (\<lambda>_. Out)"

definition has_lk :: "wpc \<Rightarrow> bool" where
  "has_lk x \<longleftrightarrow> x \<in> {Test, SlpEnter, SlpLocked, Waker} \<or> (\<exists>k. x = Loop k)"

text \<open>The process sleeps, or has given up the condition lock in order to.\<close>

definition committed :: "wst \<Rightarrow> nat \<Rightarrow> bool" where
  "committed s i \<longleftrightarrow> wpcs s i \<in> {SlpReleased, SlpSet} \<or> wpcs s i = Asleep \<and> p_state (wtab s i) = SLEEPING"

definition lk_ok :: "wst \<Rightarrow> bool" where
  "lk_ok s \<longleftrightarrow> (\<forall>i. lkh s = Some i \<longleftrightarrow> has_lk (wpcs s i))"

definition slk_ok :: "wst \<Rightarrow> bool" where
  "slk_ok s \<longleftrightarrow> (\<forall>i. slk s i \<longleftrightarrow> wpcs s i \<in> {SlpLocked, SlpReleased, SlpSet})"

definition cnd_ok :: "wst \<Rightarrow> bool" where
  "cnd_ok s \<longleftrightarrow> (\<forall>i. wpcs s i \<in> {SlpEnter, SlpLocked} \<longrightarrow> \<not> cnd s)"

definition chan_ok :: "chan \<Rightarrow> wst \<Rightarrow> bool" where
  "chan_ok ch s \<longleftrightarrow> (\<forall>i. wpcs s i \<in> {SlpSet, Asleep} \<longrightarrow> p_chan (wtab s i) = Some ch)"

definition wake_ok :: "nat \<Rightarrow> wst \<Rightarrow> bool" where
  "wake_ok n s \<longleftrightarrow> (\<forall>i < n. cnd s \<and> committed s i \<longrightarrow> (\<exists>w k. wpcs s w = Loop k \<and> k \<le> i))"

lemma lk_unique: "lk_ok s \<Longrightarrow> has_lk (wpcs s i) \<Longrightarrow> has_lk (wpcs s j) \<Longrightarrow> i = j"
  unfolding lk_ok_def by (metis option.inject)

lemma lk_free: "lk_ok s \<Longrightarrow> lkh s = None \<Longrightarrow> \<not> has_lk (wpcs s j)"
  unfolding lk_ok_def by (metis option.distinct(1))

lemma has_lk_simps [simp]:
  "\<not> has_lk Out" "has_lk Test" "has_lk SlpEnter" "has_lk SlpLocked" "\<not> has_lk SlpReleased" "\<not> has_lk SlpSet"
  "\<not> has_lk Asleep" "\<not> has_lk Reacquire" "has_lk Waker" "has_lk (Loop k)"
  by (simp_all add: has_lk_def)

lemma lk_ok_step: "wake_step n ch s t \<Longrightarrow> lk_ok s \<Longrightarrow> lk_ok t"
proof (induction rule: wake_step.induct)
  case (lock_test s i) then show ?case using lk_free by (auto simp: lk_ok_def wupd)
next
  case (lock_set s i) then show ?case using lk_free by (auto simp: lk_ok_def wupd)
next
  case (test_true s i b) then show ?case using lk_unique [of s i] by (auto simp: lk_ok_def wupd)
next
  case (sleep_release s i) then show ?case using lk_unique [of s i] by (auto simp: lk_ok_def wupd)
next
  case (sleep_relock s i) then show ?case using lk_free by (auto simp: lk_ok_def wupd)
next
  case (wake_done s i k) then show ?case using lk_unique [of s i] by (auto simp: lk_ok_def wupd)
qed (auto simp: lk_ok_def wupd)

lemma slk_ok_step: "wake_step n ch s t \<Longrightarrow> slk_ok s \<Longrightarrow> slk_ok t"
  by (induction rule: wake_step.induct) (auto simp: slk_ok_def wupd)

lemma cnd_ok_step: "wake_step n ch s t \<Longrightarrow> lk_ok s \<Longrightarrow> cnd_ok s \<Longrightarrow> cnd_ok t"
proof (induction rule: wake_step.induct)
  case (set_cond s i)
  then show ?case using lk_unique [of s i] by (auto simp: cnd_ok_def wupd) (metis has_lk_simps(3,4))+
next
  case (test_true s i b)
  then show ?case using lk_unique [of s i] by (auto simp: cnd_ok_def wupd)
qed (auto simp: cnd_ok_def wupd)

lemma chan_ok_step: "wake_step n ch s t \<Longrightarrow> chan_ok ch s \<Longrightarrow> chan_ok ch t"
  by (induction rule: wake_step.induct) (auto simp: chan_ok_def wupd wake_proc_def)

definition wake_inv :: "nat \<Rightarrow> chan \<Rightarrow> wst \<Rightarrow> bool" where
  "wake_inv n ch s \<longleftrightarrow> lk_ok s \<and> slk_ok s \<and> cnd_ok s \<and> chan_ok ch s \<and> wake_ok n s"

text \<open>Steps that commit nobody, set no condition and do not move the loop of \<open>wakeup\<close>.\<close>

lemma wake_keep:
  assumes "wake_ok n s" and "\<And>j. committed t j \<Longrightarrow> committed s j" and "cnd t \<Longrightarrow> cnd s"
    and "\<And>w k. wpcs s w = Loop k \<Longrightarrow> wpcs t w = Loop k"
  shows "wake_ok n t"
  using assms unfolding wake_ok_def by blast

lemma wake_ok_slot:
  assumes "wake_inv n ch s" and "wpcs s i = Loop k" and "k \<noteq> i" and "\<not> slk s k"
  shows "wake_ok n (wgo i (Loop (k + 1)) (wproc k (wake_proc (Some ch) (wtab s k)) s))" (is "wake_ok n ?t")
  unfolding wake_ok_def
proof (intro allI impI)
  fix j assume j: "j < n" "cnd ?t \<and> committed ?t j"
  then have "committed s j" using assms(2) by (auto simp: committed_def wupd wake_proc_def split: if_splits)
  then obtain w k' where w: "wpcs s w = Loop k'" "k' \<le> j"
    using assms(1) j by (auto simp: wake_inv_def wake_ok_def wupd)
  then have "w = i" using lk_unique [of s w i] assms(1,2) by (simp add: wake_inv_def)
  then have "k \<le> j" using w assms(2) by simp
  moreover have "j \<noteq> k"
    using j assms by (auto simp: committed_def wupd wake_proc_def wake_inv_def slk_ok_def chan_ok_def split: if_splits)
  ultimately show "\<exists>w k. wpcs ?t w = Loop k \<and> k \<le> j"
    by (intro exI [of _ i] exI [of _ "k + 1"]) (simp add: wupd)
qed

lemma wake_ok_loop:
  assumes "wake_inv n ch s" and "wpcs s i = Loop k" and "wpcs t = (wpcs s)(i := x)" and "wtab t = wtab s"
    and "cnd t = cnd s" and "x = Loop (k + 1) \<and> k = i \<or> x = Out \<and> n \<le> k"
  shows "wake_ok n t"
  unfolding wake_ok_def
proof (intro allI impI)
  fix j assume j: "j < n" "cnd t \<and> committed t j"
  then have c: "committed s j" "j \<noteq> i" using assms(2-6) by (auto simp: committed_def split: if_splits)
  then obtain w k' where w: "wpcs s w = Loop k'" "k' \<le> j"
    using assms(1,5) j by (auto simp: wake_inv_def wake_ok_def)
  then have "w = i" using lk_unique [of s w i] assms(1,2) by (simp add: wake_inv_def)
  then have "k \<le> j" using w assms(2) by simp
  then have "x = Loop (k + 1)" "k + 1 \<le> j" using assms(6) j c(2) by auto
  then show "\<exists>w k. wpcs t w = Loop k \<and> k \<le> j" using assms(3) by (intro exI [of _ i] exI [of _ "k + 1"]) simp
qed

lemmas wake_keep_simps = wake_inv_def wupd committed_def

lemma wake_ok_step: "wake_step n ch s t \<Longrightarrow> wake_inv n ch s \<Longrightarrow> wake_ok n t"
proof (induction rule: wake_step.induct)
  case (sleep_release s i)
  then have "\<not> cnd s" by (auto simp: wake_inv_def cnd_ok_def)
  then show ?case by (simp add: wake_ok_def wupd)
next
  case (set_cond s i)
  show ?case unfolding wake_ok_def
    by (intro allI impI exI [of _ i] exI [of _ 0]) (simp add: wupd)
next
  case (wake_slot s i k) then show ?case by (intro wake_ok_slot)
next
  case (wake_self s i k) then show ?case by (intro wake_ok_loop [of n ch s i k]) (auto simp: wupd)
next
  case (wake_done s i k) then show ?case by (intro wake_ok_loop [of n ch s i k]) (auto simp: wupd)
next
  case (lock_test s i)
  show ?case by (rule wake_keep [of n s]) (use lock_test in \<open>auto simp: wake_keep_simps split: if_splits\<close>)
next
  case (lock_set s i)
  show ?case by (rule wake_keep [of n s]) (use lock_set in \<open>auto simp: wake_keep_simps split: if_splits\<close>)
next
  case (test_true s i b)
  show ?case by (rule wake_keep [of n s]) (use test_true in \<open>auto simp: wake_keep_simps split: if_splits\<close>)
next
  case (test_false s i)
  show ?case by (rule wake_keep [of n s]) (use test_false in \<open>auto simp: wake_keep_simps split: if_splits\<close>)
next
  case (sleep_lock s i)
  show ?case by (rule wake_keep [of n s]) (use sleep_lock in \<open>auto simp: wake_keep_simps split: if_splits\<close>)
next
  case (sleep_set s i)
  show ?case by (rule wake_keep [of n s]) (use sleep_set in \<open>auto simp: wake_keep_simps split: if_splits\<close>)
next
  case (sleep_swtch s i)
  show ?case by (rule wake_keep [of n s]) (use sleep_swtch in \<open>auto simp: wake_keep_simps split: if_splits\<close>)
next
  case (sleep_back s i)
  show ?case by (rule wake_keep [of n s]) (use sleep_back in \<open>auto simp: wake_keep_simps split: if_splits\<close>)
next
  case (sleep_relock s i)
  show ?case by (rule wake_keep [of n s]) (use sleep_relock in \<open>auto simp: wake_keep_simps split: if_splits\<close>)
qed

text \<open>C5: No wakeup is lost: when the condition holds and nobody is between
  taking and releasing its lock, no process sleeps on the channel, and none has
  given up the lock in order to sleep.\<close>

theorem no_lost_wakeup:
  assumes "wake_init s" and "(wake_step n ch)\<^sup>*\<^sup>* s t" and "cnd t" and "lkh t = None" and "i < n"
  shows "wpcs t i \<notin> {SlpReleased, SlpSet} \<and> \<not> (wpcs t i = Asleep \<and> p_state (wtab t i) = SLEEPING)"
proof -
  have "wake_inv n ch s" using assms(1)
    by (auto simp: wake_init_def wake_inv_def lk_ok_def slk_ok_def cnd_ok_def chan_ok_def wake_ok_def committed_def)
  with assms(2) have t: "wake_inv n ch t"
    by (induction rule: rtranclp_induct)
      (auto simp: wake_inv_def intro: lk_ok_step slk_ok_step cnd_ok_step chan_ok_step wake_ok_step [unfolded wake_inv_def])
  have "\<not> committed t i"
  proof
    assume "committed t i"
    then obtain w k where "wpcs t w = Loop k" using t assms by (auto simp: wake_inv_def wake_ok_def)
    then show False using lk_free [of t w] t assms(4) by (simp add: wake_inv_def)
  qed
  then show ?thesis by (auto simp: committed_def)
qed

text \<open>Process 0 goes to sleep, process 1 sets the condition and wakes it.\<close>

definition ex_wake :: wst where
  "ex_wake = \<lparr>cnd = False, lkh = None, slk = (\<lambda>_. False), wtab = (\<lambda>_. zero_proc\<lparr>p_state := RUNNING\<rparr>), wpcs = (\<lambda>_. Out)\<rparr>"

theorem no_lost_wakeup_witness:
  "\<exists>t. (wake_step 2 ChTicks)\<^sup>*\<^sup>* ex_wake t \<and> cnd t \<and> wpcs t 0 = Asleep \<and> p_state (wtab t 0) \<noteq> SLEEPING"
proof -
  let ?a0 = ex_wake
  let ?a1 = "wgo 0 Test (?a0\<lparr>lkh := Some 0\<rparr>)"
  let ?a2 = "wgo 0 SlpEnter ?a1"
  let ?a3 = "wgo 0 SlpLocked (wslk 0 True ?a2)"
  let ?a4 = "wgo 0 SlpReleased (?a3\<lparr>lkh := None\<rparr>)"
  let ?a5 = "wgo 0 SlpSet (wproc 0 ((wtab ?a4 0)\<lparr>p_chan := Some ChTicks, p_state := SLEEPING\<rparr>) ?a4)"
  let ?a6 = "wgo 0 Asleep (wslk 0 False ?a5)"
  let ?a7 = "wgo 1 Waker (?a6\<lparr>lkh := Some 1\<rparr>)"
  let ?a8 = "wgo 1 (Loop 0) (?a7\<lparr>cnd := True\<rparr>)"
  let ?a9 = "wgo 1 (Loop (0 + 1)) (wproc 0 (wake_proc (Some ChTicks) (wtab ?a8 0)) ?a8)"
  let ?a10 = "wgo 1 (Loop (1 + 1)) ?a9"
  let ?a11 = "wgo 1 Out (?a10\<lparr>lkh := None\<rparr>)"
  have a: "wake_step 2 ChTicks ?a0 ?a1" by (rule wake_step.lock_test) (simp_all add: wupd ex_wake_def)
  have b: "wake_step 2 ChTicks ?a1 ?a2" by (rule wake_step.test_false) (simp_all add: wupd ex_wake_def)
  have c: "wake_step 2 ChTicks ?a2 ?a3" by (rule wake_step.sleep_lock) (simp_all add: wupd ex_wake_def)
  have d: "wake_step 2 ChTicks ?a3 ?a4" by (rule wake_step.sleep_release) (simp_all add: wupd ex_wake_def)
  have e: "wake_step 2 ChTicks ?a4 ?a5" by (rule wake_step.sleep_set) (simp_all add: wupd ex_wake_def)
  have f: "wake_step 2 ChTicks ?a5 ?a6" by (rule wake_step.sleep_swtch) (simp_all add: wupd ex_wake_def)
  have g: "wake_step 2 ChTicks ?a6 ?a7" by (rule wake_step.lock_set) (simp_all add: wupd ex_wake_def)
  have h: "wake_step 2 ChTicks ?a7 ?a8" by (rule wake_step.set_cond) (simp_all add: wupd ex_wake_def)
  have i: "wake_step 2 ChTicks ?a8 ?a9" by (rule wake_step.wake_slot) (simp_all add: wupd ex_wake_def)
  have j: "wake_step 2 ChTicks ?a9 ?a10" by (rule wake_step.wake_self) (simp_all add: wupd ex_wake_def)
  have k: "wake_step 2 ChTicks ?a10 ?a11" by (rule wake_step.wake_done [of _ _ 2]) (simp_all add: wupd ex_wake_def)
  note go = converse_rtranclp_into_rtranclp [where r = "wake_step 2 ChTicks"]
    and last = r_into_rtranclp [where r = "wake_step 2 ChTicks"]
  have st: "(wake_step 2 ChTicks)\<^sup>*\<^sup>* ?a0 ?a11"
    by (rule go [OF a], rule go [OF b], rule go [OF c], rule go [OF d], rule go [OF e], rule go [OF f],
        rule go [OF g], rule go [OF h], rule go [OF i], rule go [OF j], rule last [OF k])
  define t where "t = ?a11"
  have st': "(wake_step 2 ChTicks)\<^sup>*\<^sup>* ex_wake t" unfolding t_def by (rule st)
  have "cnd t" "lkh t = None" "wpcs t 0 = Asleep" unfolding t_def by (simp_all add: wupd)
  moreover have "wake_init ex_wake" by (simp add: wake_init_def ex_wake_def)
  ultimately have "p_state (wtab t 0) \<noteq> SLEEPING" using no_lost_wakeup [OF _ st', of 0] by simp
  then show ?thesis using st' \<open>cnd t\<close> \<open>wpcs t 0 = Asleep\<close> by blast
qed

end
