(* ===== verification/Ring.thy ===== *)
theory Ring
  imports Cstring
begin

text \<open>
  Ring buffers as the pipe, the console and the queues of the disk use them: a table
  of \<open>cap\<close> entries and free-running counters, where counter \<open>a\<close> stands for entry
  \<open>a\<close> modulo \<open>cap\<close>.  The counters are words, of 32 bits for the pipe and the console
  and of 16 bits for the disk; that they wrap around is harmless because \<open>cap\<close>
  divides the number of their values.
\<close>

text \<open>The \<open>n\<close> entries from counter \<open>a\<close> on.\<close>

definition ring_slice :: "nat \<Rightarrow> 'b list \<Rightarrow> 'w::len word \<Rightarrow> nat \<Rightarrow> 'b list" where
  "ring_slice cap d a n = map (\<lambda>k. d ! ((unat a + k) mod cap)) [0..<n]"

lemma ring_slice_length [simp]: "length (ring_slice cap d a n) = n"
  by (simp add: ring_slice_def)

lemma ring_slice_snoc: "ring_slice cap d a (Suc n) = ring_slice cap d a n @ [d ! ((unat a + n) mod cap)]"
  by (simp add: ring_slice_def)

lemma ring_slice_0 [simp]: "ring_slice cap d a 0 = []"
  by (simp add: ring_slice_def)

lemma counter_pred: "x \<noteq> d \<Longrightarrow> unat (x - d) = Suc (unat (x - (d + 1)))" for x d :: "'w::len word"
proof -
  assume "x \<noteq> d"
  then have "x - d \<noteq> 0" by simp
  then have "unat (x - d) = Suc (unat (x - d - 1))" by (simp add: unat_minus_one unat_gt_0 word_neq_0_conv)
  then show ?thesis by (simp add: algebra_simps)
qed

lemma counter_succ: "unat (t - a) < 2 ^ LENGTH('w) - 1 \<Longrightarrow> unat (t + 1 - a) = Suc (unat (t - a))" for t a :: "'w::len word"
proof -
  assume l: "unat (t - a) < 2 ^ LENGTH('w) - 1"
  have "unat (t - a + 1) = Suc (unat (t - a))" using l by (simp add: unat_word_ariths)
  then show ?thesis by (simp add: algebra_simps)
qed

lemma counter_add:
  fixes x y z :: "'w::len word"
  assumes "unat (x - y) + unat (z - x) < 2 ^ LENGTH('w)"
  shows "unat (z - y) = unat (x - y) + unat (z - x)"
proof -
  define p q where "p = x - y" and "q = z - x"
  have "unat (p + q) = unat p + unat q" using assms by (simp add: p_def [symmetric] q_def [symmetric] unat_word_ariths)
  then show ?thesis by (simp add: p_def q_def)
qed

locale ring =
  fixes cap :: nat and wd :: "'w::len itself"
  assumes cap_pos: "0 < cap" and cap_dvd: "cap dvd 2 ^ LENGTH('w)"
begin

lemma unat_add_mod: "unat (a + b :: 'w word) mod cap = (unat a + unat b) mod cap"
  using cap_dvd by (simp add: unat_word_ariths mod_mod_cancel)

lemma index: "unat t mod cap = (unat a + unat (t - a)) mod cap" for t a :: "'w word"
  using unat_add_mod [of a "t - a"] by simp

lemma slice_Cons: "ring_slice cap d (a :: 'w word) (Suc n) = d ! (unat a mod cap) # ring_slice cap d (a + 1) n"
proof -
  have "(unat (a + 1) + k) mod cap = (unat a + Suc k) mod cap" for k
    using unat_add_mod [of a 1] mod_add_left_eq [of "unat (a + 1)" cap k] mod_add_left_eq [of "unat a + 1" cap k] by simp
  then show ?thesis by (simp add: ring_slice_def upt_conv_Cons map_Suc_upt [symmetric] del: upt_Suc)
qed

lemma slice_append: "ring_slice cap d (a :: 'w word) (m + n) = ring_slice cap d a m @ ring_slice cap d (a + of_nat m) n"
  by (induction m arbitrary: a) (simp_all add: slice_Cons add.assoc)

lemma slice_frame:
  assumes "n < cap" "i = (unat a + n) mod cap"
  shows "ring_slice cap (d[i := x]) a n = ring_slice cap d a n"
proof -
  have "i \<noteq> (unat a + k) mod cap" if "k < n" for k
  proof
    assume "i = (unat a + k) mod cap"
    then have "n mod cap = k mod cap" using assms(2) by (simp add: mod_add_cong [of _ _ _ k] nat_mod_eq_iff)
    then show False using that assms(1) by simp
  qed
  then show ?thesis by (auto simp: ring_slice_def)
qed

lemma slice_update:
  assumes "n < cap" "length d = cap" "i = (unat a + n) mod cap"
  shows "ring_slice cap (d[i := x]) a (Suc n) = ring_slice cap d a n @ [x]"
  using assms slice_frame [OF assms(1,3), of d x] cap_pos by (simp add: ring_slice_snoc)

end

end
