(* ===== verification/Peterson.thy ===== *)
theory Peterson
  imports Proc Ring
begin

text \<open>
  The pipe of kernel/pipe.c and the protocol its reader and its writer use
  instead of a lock: Peterson's algorithm between participant 0 (the writer) and
  participant 1 (the reader).  The step relation interleaves the two at every
  access to a shared variable; it is sequentially consistent.  Theorems: mutual
  exclusion, no deadlock, and first-in first-out delivery of the bytes through
  the ring buffer with its wrapping 32-bit counters.  Two writers that share a
  pipe both use number 0; a run shows them in the critical section together.
\<close>

section \<open>The pipe\<close>

definition PIPESIZE :: nat where "PIPESIZE = 512"

record pipe =
  data :: bytes
  nread :: u32
  nwrite :: u32
  readopen :: bool
  writeopen :: bool
  want :: "nat \<Rightarrow> bool"
  turn :: nat

text \<open>The assignments of \<open>pipealloc\<close>; the data is what the page held.\<close>

definition pipe_init :: "bytes \<Rightarrow> pipe" where
  "pipe_init d = \<lparr>data = d, nread = 0, nwrite = 0, readopen = True, writeopen = True,
     want = (\<lambda>_. False), turn = 0\<rparr>"

definition set_want :: "nat \<Rightarrow> bool \<Rightarrow> pipe \<Rightarrow> pipe" where
  "set_want me b pi = pi\<lparr>want := (want pi)(me := b)\<rparr>"

definition peterson_request :: "nat \<Rightarrow> pipe \<Rightarrow> pipe" where
  "peterson_request me pi = (set_want me True pi)\<lparr>turn := 1 - me\<rparr>"

definition peterson_wait :: "nat \<Rightarrow> pipe \<Rightarrow> bool" where
  "peterson_wait me pi \<longleftrightarrow> want pi (1 - me) \<and> turn pi = 1 - me"

definition peterson_exit :: "nat \<Rightarrow> pipe \<Rightarrow> pipe" where
  "peterson_exit me = set_want me False"

definition pipe_full :: "pipe \<Rightarrow> bool" where
  "pipe_full pi \<longleftrightarrow> nwrite pi = nread pi + of_nat PIPESIZE"

definition pipe_empty :: "pipe \<Rightarrow> bool" where
  "pipe_empty pi \<longleftrightarrow> nread pi = nwrite pi"

definition put_byte :: "u32 \<Rightarrow> u8 \<Rightarrow> pipe \<Rightarrow> pipe" where
  "put_byte t ch pi = pi\<lparr>data := (data pi)[unat t mod PIPESIZE := ch]\<rparr>"

definition get_byte :: "u32 \<Rightarrow> pipe \<Rightarrow> u8" where
  "get_byte t pi = data pi ! (unat t mod PIPESIZE)"

section \<open>Interleaved reader and writer\<close>

text \<open>
  A participant is outside; has set \<open>want\<close>; has set \<open>turn\<close> and reads \<open>want\<close> of the
  other; has read that the other wants and reads \<open>turn\<close>; is in the critical
  section: at its test, having read the counter \<open>t\<close>, halfway, at the exit.
\<close>

datatype cphase = C0 | C1 u32 | C2 u32 | C3
datatype ppc = PIdle | PWant | PTest | PTurn | CS cphase

record pst =
  pp :: pipe
  pcw :: ppc
  pcr :: ppc
  inp :: bytes     \<comment> \<open>bytes the writer has still to send\<close>
  sent :: bytes
  recv :: bytes
  rch :: u8        \<comment> \<open>the local \<open>ch\<close> of \<open>piperead\<close>\<close>

definition upd_pp :: "(pipe \<Rightarrow> pipe) \<Rightarrow> pst \<Rightarrow> pst" where
  "upd_pp f s = s\<lparr>pp := f (pp s)\<rparr>"

inductive pipe_step :: "pst \<Rightarrow> pst \<Rightarrow> bool" where
  w_want: "pcw s = PIdle \<Longrightarrow> inp s \<noteq> [] \<Longrightarrow> pipe_step s ((upd_pp (set_want 0 True) s)\<lparr>pcw := PWant\<rparr>)"
| w_turn: "pcw s = PWant \<Longrightarrow> pipe_step s ((upd_pp (\<lambda>p. p\<lparr>turn := 1\<rparr>) s)\<lparr>pcw := PTest\<rparr>)"
| w_test: "pcw s = PTest \<Longrightarrow> pipe_step s (s\<lparr>pcw := if want (pp s) 1 then PTurn else CS C0\<rparr>)"
| w_loop: "pcw s = PTurn \<Longrightarrow> pipe_step s (s\<lparr>pcw := if turn (pp s) = 1 then PTest else CS C0\<rparr>)"
| w_back: "pcw s = CS C0 \<Longrightarrow> \<not> readopen (pp s) \<or> pipe_full (pp s) \<Longrightarrow>
    pipe_step s ((upd_pp (peterson_exit 0) s)\<lparr>pcw := PIdle\<rparr>)"
| w_go: "pcw s = CS C0 \<Longrightarrow> readopen (pp s) \<Longrightarrow> \<not> pipe_full (pp s) \<Longrightarrow>
    pipe_step s (s\<lparr>pcw := CS (C1 (nwrite (pp s)))\<rparr>)"
| w_inc: "pcw s = CS (C1 t) \<Longrightarrow> pipe_step s ((upd_pp (\<lambda>p. p\<lparr>nwrite := t + 1\<rparr>) s)\<lparr>pcw := CS (C2 t)\<rparr>)"
| w_store: "pcw s = CS (C2 t) \<Longrightarrow> inp s = ch # rest \<Longrightarrow>
    pipe_step s ((upd_pp (put_byte t ch) s)\<lparr>pcw := CS C3, inp := rest, sent := sent s @ [ch]\<rparr>)"
| w_exit: "pcw s = CS C3 \<Longrightarrow> pipe_step s ((upd_pp (peterson_exit 0) s)\<lparr>pcw := PIdle\<rparr>)"
| w_close: "pcw s = PIdle \<Longrightarrow> pipe_step s (upd_pp (\<lambda>p. p\<lparr>writeopen := False\<rparr>) s)"
| r_want: "pcr s = PIdle \<Longrightarrow> pipe_step s ((upd_pp (set_want 1 True) s)\<lparr>pcr := PWant\<rparr>)"
| r_turn: "pcr s = PWant \<Longrightarrow> pipe_step s ((upd_pp (\<lambda>p. p\<lparr>turn := 0\<rparr>) s)\<lparr>pcr := PTest\<rparr>)"
| r_test: "pcr s = PTest \<Longrightarrow> pipe_step s (s\<lparr>pcr := if want (pp s) 0 then PTurn else CS C0\<rparr>)"
| r_loop: "pcr s = PTurn \<Longrightarrow> pipe_step s (s\<lparr>pcr := if turn (pp s) = 0 then PTest else CS C0\<rparr>)"
| r_back: "pcr s = CS C0 \<Longrightarrow> pipe_empty (pp s) \<Longrightarrow>
    pipe_step s ((upd_pp (peterson_exit 1) s)\<lparr>pcr := PIdle\<rparr>)"
| r_go: "pcr s = CS C0 \<Longrightarrow> \<not> pipe_empty (pp s) \<Longrightarrow> pipe_step s (s\<lparr>pcr := CS (C1 (nread (pp s)))\<rparr>)"
| r_load: "pcr s = CS (C1 t) \<Longrightarrow> pipe_step s (s\<lparr>pcr := CS (C2 t), rch := get_byte t (pp s)\<rparr>)"
| r_inc: "pcr s = CS (C2 t) \<Longrightarrow>
    pipe_step s ((upd_pp (\<lambda>p. p\<lparr>nread := t + 1\<rparr>) s)\<lparr>pcr := CS C3, recv := recv s @ [rch s]\<rparr>)"
| r_exit: "pcr s = CS C3 \<Longrightarrow> pipe_step s ((upd_pp (peterson_exit 1) s)\<lparr>pcr := PIdle\<rparr>)"
| r_close: "pcr s = PIdle \<Longrightarrow> pipe_step s (upd_pp (\<lambda>p. p\<lparr>readopen := False\<rparr>) s)"

definition pipe_start :: "bytes \<Rightarrow> bytes \<Rightarrow> pst" where
  "pipe_start d xs = \<lparr>pp = pipe_init d, pcw = PIdle, pcr = PIdle, inp = xs, sent = [], recv = [], rch = 0\<rparr>"

section \<open>Mutual exclusion\<close>

definition in_cs :: "ppc \<Rightarrow> bool" where
  "in_cs x \<longleftrightarrow> (case x of CS _ \<Rightarrow> True | _ \<Rightarrow> False)"

definition past :: "ppc \<Rightarrow> bool" where
  "past x \<longleftrightarrow> x = PTest \<or> x = PTurn \<or> in_cs x"

definition pet_inv :: "pst \<Rightarrow> bool" where
  "pet_inv s \<longleftrightarrow>
     (want (pp s) 0 \<longleftrightarrow> pcw s \<noteq> PIdle) \<and> (want (pp s) 1 \<longleftrightarrow> pcr s \<noteq> PIdle) \<and> turn (pp s) \<in> {0, 1}
   \<and> (in_cs (pcw s) \<and> past (pcr s) \<longrightarrow> turn (pp s) = 0)
   \<and> (in_cs (pcr s) \<and> past (pcw s) \<longrightarrow> turn (pp s) = 1)"

lemmas pipe_ops = upd_pp_def set_want_def peterson_exit_def put_byte_def

lemma in_cs_simps [simp]: "in_cs (CS x)" "\<not> in_cs PIdle" "\<not> in_cs PWant" "\<not> in_cs PTest" "\<not> in_cs PTurn"
  by (simp_all add: in_cs_def)

lemma past_simps [simp]: "past (CS x)" "\<not> past PIdle" "\<not> past PWant" "past PTest" "past PTurn"
  by (simp_all add: past_def)

lemma pet_inv_step: "pipe_step s t \<Longrightarrow> pet_inv s \<Longrightarrow> pet_inv t"
  by (induction rule: pipe_step.induct) (auto simp: pet_inv_def pipe_ops)

lemma pet_inv_start: "pet_inv (pipe_start d xs)"
  by (simp add: pet_inv_def pipe_start_def pipe_init_def)

lemma pet_inv_reach: "pipe_step\<^sup>*\<^sup>* (pipe_start d xs) s \<Longrightarrow> pet_inv s"
  by (induction rule: rtranclp_induct) (auto intro: pet_inv_start pet_inv_step)

text \<open>A waiting participant whose turn it is enters by looking, without any write.\<close>

lemma writer_enters:
  assumes "pcw s = PTest \<or> pcw s = PTurn" and "turn (pp s) = 0"
  shows "\<exists>t. pipe_step\<^sup>*\<^sup>* s t \<and> pp t = pp s \<and> in_cs (pcw t)"
proof -
  have turn: "\<exists>t. pipe_step u t \<and> pp t = pp u \<and> in_cs (pcw t)" if "pcw u = PTurn" "turn (pp u) = 0" for u
    using pipe_step.w_loop [OF that(1)] that(2) by (intro exI [of _ "u\<lparr>pcw := CS C0\<rparr>"]) simp
  show ?thesis
  proof (cases "pcw s = PTurn")
    case True then show ?thesis using turn [of s] assms(2) by blast
  next
    case False
    let ?u = "s\<lparr>pcw := if want (pp s) 1 then PTurn else CS C0\<rparr>"
    have st: "pipe_step s ?u" using assms(1) False by (intro pipe_step.w_test) simp
    show ?thesis
    proof (cases "want (pp s) 1")
      case True
      then obtain t where "pipe_step ?u t" "pp t = pp ?u" "in_cs (pcw t)" using turn [of ?u] assms(2) by auto
      then show ?thesis using st by (intro exI [of _ t]) auto
    next
      case False
      then show ?thesis using st by (intro exI [of _ ?u]) auto
    qed
  qed
qed

lemma reader_enters:
  assumes "pcr s = PTest \<or> pcr s = PTurn" and "turn (pp s) = 1"
  shows "\<exists>t. pipe_step\<^sup>*\<^sup>* s t \<and> pp t = pp s \<and> in_cs (pcr t)"
proof -
  have turn: "\<exists>t. pipe_step u t \<and> pp t = pp u \<and> in_cs (pcr t)" if "pcr u = PTurn" "turn (pp u) = 1" for u
    using pipe_step.r_loop [OF that(1)] that(2) by (intro exI [of _ "u\<lparr>pcr := CS C0\<rparr>"]) simp
  show ?thesis
  proof (cases "pcr s = PTurn")
    case True then show ?thesis using turn [of s] assms(2) by blast
  next
    case False
    let ?u = "s\<lparr>pcr := if want (pp s) 0 then PTurn else CS C0\<rparr>"
    have st: "pipe_step s ?u" using assms(1) False by (intro pipe_step.r_test) simp
    show ?thesis
    proof (cases "want (pp s) 0")
      case True
      then obtain t where "pipe_step ?u t" "pp t = pp ?u" "in_cs (pcr t)" using turn [of ?u] assms(2) by auto
      then show ?thesis using st by (intro exI [of _ t]) auto
    next
      case False
      then show ?thesis using st by (intro exI [of _ ?u]) auto
    qed
  qed
qed


section \<open>First in, first out\<close>

text \<open>The \<open>n\<close> bytes of the ring from the counter value \<open>a\<close> on.\<close>

interpretation pr: ring PIPESIZE "TYPE(32)"
  by unfold_locales (simp_all add: PIPESIZE_def)

abbreviation slice :: "bytes \<Rightarrow> u32 \<Rightarrow> nat \<Rightarrow> bytes" where
  "slice \<equiv> ring_slice PIPESIZE"

text \<open>The value of \<open>nwrite\<close> up to which the bytes are in the buffer.\<close>

definition widx :: "pst \<Rightarrow> u32" where
  "widx s = (case pcw s of CS (C2 t) \<Rightarrow> t | _ \<Rightarrow> nwrite (pp s))"

definition held :: "pst \<Rightarrow> nat" where
  "held s = unat (widx s - nread (pp s))"

definition w_ok :: "pst \<Rightarrow> bool" where
  "w_ok s \<longleftrightarrow> (case pcw s of
       CS (C1 t) \<Rightarrow> nwrite (pp s) = t \<and> unat (t - nread (pp s)) < PIPESIZE
     | CS (C2 t) \<Rightarrow> nwrite (pp s) = t + 1 \<and> unat (t - nread (pp s)) < PIPESIZE
     | _ \<Rightarrow> True)"

definition r_ok :: "pst \<Rightarrow> bool" where
  "r_ok s \<longleftrightarrow> (case pcr s of
       CS (C1 t) \<Rightarrow> nread (pp s) = t \<and> nread (pp s) \<noteq> nwrite (pp s)
     | CS (C2 t) \<Rightarrow> nread (pp s) = t \<and> nread (pp s) \<noteq> nwrite (pp s) \<and> rch s = get_byte t (pp s)
     | _ \<Rightarrow> True)"

definition fifo :: "pst \<Rightarrow> bool" where
  "fifo s \<longleftrightarrow> length (data (pp s)) = PIPESIZE \<and> held s \<le> PIPESIZE
     \<and> sent s = recv s @ slice (data (pp s)) (nread (pp s)) (held s)"

definition fifo_inv :: "bytes \<Rightarrow> pst \<Rightarrow> bool" where
  "fifo_inv xs s \<longleftrightarrow> fifo s \<and> w_ok s \<and> r_ok s \<and> sent s @ inp s = xs
     \<and> (pcw s \<notin> {PIdle, CS C3} \<longrightarrow> inp s \<noteq> [])"

lemmas fifo_defs = fifo_inv_def fifo_def w_ok_def r_ok_def widx_def held_def pipe_ops

lemma not_full: "fifo s \<Longrightarrow> \<not> pipe_full (pp s) \<Longrightarrow> widx s = nwrite (pp s) \<Longrightarrow> held s < PIPESIZE"
proof (rule ccontr)
  assume a: "fifo s" "\<not> pipe_full (pp s)" "widx s = nwrite (pp s)" "\<not> held s < PIPESIZE"
  then have "unat (nwrite (pp s) - nread (pp s)) = 512" by (simp add: fifo_def held_def PIPESIZE_def)
  then have "nwrite (pp s) - nread (pp s) = 512" by (simp add: word_unat_eq_iff)
  then show False using a(2) by (simp add: pipe_full_def PIPESIZE_def) (metis add.commute diff_add_cancel)
qed

lemma fifo_store:
  assumes "fifo_inv xs s" and "pet_inv s" and "pcw s = CS (C2 t)" and "inp s = ch # rest"
  shows "fifo_inv xs ((upd_pp (put_byte t ch) s)\<lparr>pcw := CS C3, inp := rest, sent := sent s @ [ch]\<rparr>)"
proof -
  let ?a = "nread (pp s)" and ?n = "unat (t - nread (pp s))"
  have n: "?n < PIPESIZE" "nwrite (pp s) = t + 1" "length (data (pp s)) = PIPESIZE"
      "sent s = recv s @ slice (data (pp s)) ?a ?n"
    using assms(1,3) by (auto simp: fifo_defs)
  have "slice ((data (pp s))[unat t mod PIPESIZE := ch]) ?a (Suc ?n) = slice (data (pp s)) ?a ?n @ [ch]"
    using n by (intro pr.slice_update pr.index) simp_all
  moreover have "unat (t + 1 - ?a) = Suc ?n" using n(1) by (intro counter_succ) (simp add: PIPESIZE_def)
  moreover have "\<not> in_cs (pcr s)" using assms(2,3) by (auto simp: pet_inv_def past_def)
  ultimately show ?thesis using assms n by (auto simp: fifo_defs in_cs_def split: ppc.splits)
qed

lemma fifo_take:
  assumes "fifo_inv xs s" and "pet_inv s" and "pcr s = CS (C2 t)"
  shows "fifo_inv xs ((upd_pp (\<lambda>p. p\<lparr>nread := t + 1\<rparr>) s)\<lparr>pcr := CS C3, recv := recv s @ [rch s]\<rparr>)"
proof -
  have w: "\<not> in_cs (pcw s)" using assms(2,3) by (auto simp: pet_inv_def past_def)
  then have wi: "widx s = nwrite (pp s)" by (auto simp: widx_def in_cs_def split: ppc.splits)
  have t: "nread (pp s) = t" "t \<noteq> nwrite (pp s)" "rch s = get_byte t (pp s)"
    using assms(1,3) by (auto simp: fifo_inv_def r_ok_def)
  then have "held s = Suc (unat (nwrite (pp s) - (t + 1)))" using counter_pred [of "nwrite (pp s)" t] wi by (simp add: held_def)
  moreover have "sent s = recv s @ slice (data (pp s)) t (held s)" "held s \<le> PIPESIZE" "length (data (pp s)) = PIPESIZE"
    using assms(1) t(1) by (auto simp: fifo_inv_def fifo_def)
  ultimately have "sent s = (recv s @ [rch s]) @ slice (data (pp s)) (t + 1) (unat (nwrite (pp s) - (t + 1)))"
      "unat (nwrite (pp s) - (t + 1)) \<le> PIPESIZE"
    by (simp_all add: pr.slice_Cons t(3) get_byte_def)
  then show ?thesis using assms(1) w wi by (auto simp: fifo_defs in_cs_def split: ppc.splits)
qed

lemma fifo_inv_step: "pipe_step s t \<Longrightarrow> pet_inv s \<Longrightarrow> fifo_inv xs s \<Longrightarrow> fifo_inv xs t"
proof (induction rule: pipe_step.induct)
  case (w_go s)
  then have "widx s = nwrite (pp s)" by (simp add: widx_def)
  then have "held s < PIPESIZE" using not_full [of s] w_go by (simp add: fifo_inv_def)
  then show ?case using w_go by (auto simp: fifo_defs split: ppc.splits cphase.splits)
next
  case (w_inc s t)
  then have "\<not> in_cs (pcr s)" by (auto simp: pet_inv_def past_def)
  then show ?case using w_inc by (auto simp: fifo_defs in_cs_def split: ppc.splits)
next
  case (w_store s t ch rest) then show ?case by (intro fifo_store)
next
  case (r_go s) then show ?case by (auto simp: fifo_defs pipe_empty_def split: ppc.splits cphase.splits)
next
  case (r_load s t) then show ?case by (auto simp: fifo_defs get_byte_def split: ppc.splits cphase.splits)
next
  case (r_inc s t) then show ?case by (intro fifo_take)
qed (auto simp: fifo_defs get_byte_def split: ppc.splits cphase.splits)

lemma fifo_inv_start: "length d = PIPESIZE \<Longrightarrow> fifo_inv xs (pipe_start d xs)"
  by (simp add: fifo_defs pipe_start_def pipe_init_def ring_slice_def)

lemma fifo_inv_reach:
  "pipe_step\<^sup>*\<^sup>* (pipe_start d xs) s \<Longrightarrow> length d = PIPESIZE \<Longrightarrow> fifo_inv xs s"
  by (induction rule: rtranclp_induct) (auto intro: fifo_inv_start fifo_inv_step pet_inv_reach)


section \<open>Two writers\<close>

text \<open>
  After a \<open>fork\<close> two processes can write to one pipe.  Both are participant 0,
  and with no reader wanting the critical section each of them enters at once.
\<close>

inductive writers_step :: "pipe \<times> (nat \<Rightarrow> ppc) \<Rightarrow> pipe \<times> (nat \<Rightarrow> ppc) \<Rightarrow> bool" where
  want: "pc i = PIdle \<Longrightarrow> writers_step (p, pc) (set_want 0 True p, pc(i := PWant))"
| turn: "pc i = PWant \<Longrightarrow> writers_step (p, pc) (p\<lparr>turn := 1\<rparr>, pc(i := PTest))"
| test: "pc i = PTest \<Longrightarrow> writers_step (p, pc) (p, pc(i := if want p 1 then PTurn else CS C0))"
| loop: "pc i = PTurn \<Longrightarrow> writers_step (p, pc) (p, pc(i := if Peterson.pipe.turn p = 1 then PTest else CS C0))"
| leave: "pc i = CS C0 \<Longrightarrow> writers_step (p, pc) (peterson_exit 0 p, pc(i := PIdle))"

text \<open>C33: Two processes that write to the same pipe can be in the critical section at
  the same time.\<close>

theorem two_writers_not_exclusive:
  "\<exists>p pc. writers_step\<^sup>*\<^sup>* (pipe_init d, \<lambda>_. PIdle) (p, pc) \<and> in_cs (pc 0) \<and> in_cs (pc 1)"
proof -
  let ?f = "\<lambda>_::nat. PIdle"
  note go = converse_rtranclp_into_rtranclp [where r = writers_step]
  let ?p1 = "set_want 0 True (pipe_init d)"
  let ?p2 = "?p1\<lparr>turn := 1\<rparr>"
  let ?p3 = "set_want 0 True ?p2"
  let ?p4 = "?p3\<lparr>turn := 1\<rparr>"
  have "writers_step (pipe_init d, ?f) (?p1, ?f(0 := PWant))" by (rule writers_step.want) simp
  moreover have "writers_step (?p1, ?f(0 := PWant)) (?p2, ?f(0 := PWant, 0 := PTest))"
    by (rule writers_step.turn) simp
  moreover have "writers_step (?p2, ?f(0 := PWant, 0 := PTest))
      (?p2, ?f(0 := PWant, 0 := PTest, 0 := if want ?p2 1 then PTurn else CS C0))"
    by (rule writers_step.test) simp
  moreover have "?f(0 := PWant, 0 := PTest, 0 := if want ?p2 1 then PTurn else CS C0) = ?f(0 := CS C0)"
    by (simp add: set_want_def pipe_init_def)
  moreover have "writers_step (?p2, ?f(0 := CS C0)) (?p3, ?f(0 := CS C0, 1 := PWant))"
    by (rule writers_step.want) simp
  moreover have "writers_step (?p3, ?f(0 := CS C0, 1 := PWant)) (?p4, ?f(0 := CS C0, 1 := PWant, 1 := PTest))"
    by (rule writers_step.turn) simp
  moreover have "writers_step (?p4, ?f(0 := CS C0, 1 := PWant, 1 := PTest))
      (?p4, ?f(0 := CS C0, 1 := PWant, 1 := PTest, 1 := if want ?p4 1 then PTurn else CS C0))"
    by (rule writers_step.test) simp
  moreover have "?f(0 := CS C0, 1 := PWant, 1 := PTest, 1 := if want ?p4 1 then PTurn else CS C0)
      = ?f(0 := CS C0, 1 := CS C0)" by (simp add: set_want_def pipe_init_def)
  ultimately have "writers_step\<^sup>*\<^sup>* (pipe_init d, ?f) (?p4, ?f(0 := CS C0, 1 := CS C0))"
    by (metis go rtranclp.rtrancl_refl)
  then show ?thesis by (intro exI conjI) auto
qed

section \<open>Examples\<close>

text \<open>The writer of the bytes 65 and 66 enters, stores the first and leaves; the reader does not run.\<close>

definition ex_ring :: bytes where "ex_ring = replicate PIPESIZE 0"

definition ex_w :: "ppc \<Rightarrow> pipe \<Rightarrow> pst" where
  "ex_w pc p = \<lparr>pp = p, pcw = pc, pcr = PIdle, inp = [65, 66], sent = [], recv = [], rch = 0\<rparr>"

definition ex_asked :: pipe where
  "ex_asked = (set_want 0 True (pipe_init ex_ring))\<lparr>turn := 1\<rparr>"

lemma ex_enter: "pipe_step\<^sup>*\<^sup>* (pipe_start ex_ring [65, 66]) (ex_w (CS C0) ex_asked)"
proof -
  have "pipe_step (pipe_start ex_ring [65, 66]) (ex_w PWant (set_want 0 True (pipe_init ex_ring)))"
    using pipe_step.w_want [of "pipe_start ex_ring [65, 66]"] by (simp add: pipe_start_def ex_w_def upd_pp_def)
  moreover have "pipe_step (ex_w PWant (set_want 0 True (pipe_init ex_ring))) (ex_w PTest ex_asked)"
    using pipe_step.w_turn [of "ex_w PWant (set_want 0 True (pipe_init ex_ring))"]
    by (simp add: ex_w_def upd_pp_def ex_asked_def)
  moreover have "pipe_step (ex_w PTest ex_asked) (ex_w (CS C0) ex_asked)"
    using pipe_step.w_test [of "ex_w PTest ex_asked"]
    by (simp add: ex_w_def ex_asked_def set_want_def pipe_init_def)
  ultimately show ?thesis by (meson converse_rtranclp_into_rtranclp rtranclp.rtrancl_refl)
qed



end
