(* ===== verification/Vm.thy ===== *)
theory Vm
  imports Proc
begin

text \<open>
  kernel/vm.c: the Sv39 page tables, user address spaces and the copies between
  kernel and user memory.  A page table is the address of its root page; its
  entries are 64-bit words of \<open>pmem\<close>.  Loops over addresses carry a count of
  the iterations that are left.  Mapping_spec and Usercopy prove that the counts that
  \<open>mappages\<close>, \<open>copyout\<close> and \<open>copyin\<close> choose suffice.
\<close>

section \<open>Walking\<close>

definition pte_addr :: "nat \<Rightarrow> u64 \<Rightarrow> u64 \<Rightarrow> u64" where
  "pte_addr level va pt = pt + 8 * PX level va"

text \<open>One iteration of \<open>walk\<close>: the next table, or \<open>None\<close> for \<open>return 0\<close>.\<close>

definition walk_level :: "nat \<Rightarrow> u64 \<Rightarrow> bool \<Rightarrow> u64 \<Rightarrow> 'z kmem_st_scheme \<Rightarrow> (u64 option, 'z kmem_st_scheme) outcome" where
  "walk_level level va alloc pt s =
     (let pte = pte_addr level va pt; v = load64 (pmem s) pte in
      if v AND PTE_V \<noteq> 0 then Ret (Some (PTE2PA v)) s
      else if \<not> alloc then Ret None s
      else kbind kalloc (\<lambda>new.
             if new = 0 then kret None
             else kthen (kput (\<lambda>s. s\<lparr>pmem := store64 (memset (pmem s) new 0 (ucast PGSIZE)) pte (PA2PTE new OR PTE_V)\<rparr>))
                    (kret (Some new))) s)"

definition walk :: "u64 \<Rightarrow> u64 \<Rightarrow> bool \<Rightarrow> 'z kmem_st_scheme \<Rightarrow> (u64, 'z kmem_st_scheme) outcome" where
  "walk pt va alloc =
     (if va \<ge> MAXVA then kpanic ''walk''
      else kbind (walk_level 2 va alloc pt) (\<lambda>t1. case t1 of
             None \<Rightarrow> kret 0
           | Some p1 \<Rightarrow> kbind (walk_level 1 va alloc p1) (\<lambda>t0. case t0 of
               None \<Rightarrow> kret 0
             | Some p0 \<Rightarrow> kret (pte_addr 0 va p0))))"

definition walkaddr :: "u64 \<Rightarrow> u64 \<Rightarrow> 'z kmem_st_scheme \<Rightarrow> (u64, 'z kmem_st_scheme) outcome" where
  "walkaddr pt va =
     (if va \<ge> MAXVA then kret 0
      else kbind (walk pt va False) (\<lambda>pte s.
        let v = load64 (pmem s) pte in
        Ret (if pte = 0 then 0 else if v AND PTE_V = 0 then 0 else if v AND PTE_U = 0 then 0 else PTE2PA v) s))"

definition ismapped :: "u64 \<Rightarrow> u64 \<Rightarrow> 'z kmem_st_scheme \<Rightarrow> (bool, 'z kmem_st_scheme) outcome" where
  "ismapped pt va = kbind (walk pt va False) (\<lambda>pte s.
     Ret (pte \<noteq> 0 \<and> load64 (pmem s) pte AND PTE_V \<noteq> 0) s)"

definition store_pte :: "u64 \<Rightarrow> u64 \<Rightarrow> 'z kmem_st_scheme \<Rightarrow> (unit, 'z kmem_st_scheme) outcome" where
  "store_pte pte v = kput (\<lambda>s. s\<lparr>pmem := store64 (pmem s) pte v\<rparr>)"

section \<open>Mapping and unmapping\<close>

primrec mappages_loop ::
  "nat \<Rightarrow> u64 \<Rightarrow> u64 \<Rightarrow> u64 \<Rightarrow> u64 \<Rightarrow> u64 \<Rightarrow> 'z kmem_st_scheme \<Rightarrow> (int, 'z kmem_st_scheme) outcome" where
  "mappages_loop 0 pt a a_last pa perm = kpanic ''mappages: count''"
| "mappages_loop (Suc n) pt a a_last pa perm =
     kbind (walk pt a True) (\<lambda>pte s.
       if pte = 0 then Ret (- 1) s
       else if load64 (pmem s) pte AND PTE_V \<noteq> 0 then Panic ''mappages: remap''
       else kthen (store_pte pte (PA2PTE pa OR perm OR PTE_V))
              (if a = a_last then kret 0 else mappages_loop n pt (a + PGSIZE) a_last (pa + PGSIZE) perm) s)"

definition mappages :: "u64 \<Rightarrow> u64 \<Rightarrow> u64 \<Rightarrow> u64 \<Rightarrow> u64 \<Rightarrow> 'z kmem_st_scheme \<Rightarrow> (int, 'z kmem_st_scheme) outcome" where
  "mappages pt va sz pa perm =
     (if va mod PGSIZE \<noteq> 0 then kpanic ''mappages: va not aligned''
      else if sz mod PGSIZE \<noteq> 0 then kpanic ''mappages: size not aligned''
      else if sz = 0 then kpanic ''mappages: size''
      else mappages_loop (unat (sz div PGSIZE)) pt va (va + sz - PGSIZE) pa perm)"

definition kvmmap :: "u64 \<Rightarrow> u64 \<Rightarrow> u64 \<Rightarrow> u64 \<Rightarrow> u64 \<Rightarrow> 'z kmem_st_scheme \<Rightarrow> (unit, 'z kmem_st_scheme) outcome" where
  "kvmmap kpgtbl va pa sz perm =
     kbind (mappages kpgtbl va sz pa perm) (\<lambda>r. if r \<noteq> 0 then kpanic ''kvmmap'' else kret ())"

definition zeroed_page :: "'z kmem_st_scheme \<Rightarrow> (u64, 'z kmem_st_scheme) outcome" where
  "zeroed_page = kbind kalloc (\<lambda>pt.
     if pt = 0 then kret 0
     else kthen (kput (\<lambda>s. s\<lparr>pmem := memset (pmem s) pt 0 (ucast PGSIZE)\<rparr>)) (kret pt))"

definition uvmcreate :: "'z kmem_st_scheme \<Rightarrow> (u64, 'z kmem_st_scheme) outcome" where
  "uvmcreate = zeroed_page"

primrec uvmunmap_loop ::
  "nat \<Rightarrow> u64 \<Rightarrow> u64 \<Rightarrow> u64 \<Rightarrow> bool \<Rightarrow> 'z kmem_st_scheme \<Rightarrow> (unit, 'z kmem_st_scheme) outcome" where
  "uvmunmap_loop 0 pt a lim do_free = (if a < lim then kpanic ''uvmunmap: count'' else kret ())"
| "uvmunmap_loop (Suc n) pt a lim do_free =
     (if a < lim
      then kthen (kbind (walk pt a False) (\<lambda>pte s.
             let v = load64 (pmem s) pte in
             if pte = 0 \<or> v AND PTE_V = 0 then Ret () s
             else kthen (if do_free then kfree (PTE2PA v) else kret ()) (store_pte pte 0) s))
             (uvmunmap_loop n pt (a + PGSIZE) lim do_free)
      else kret ())"

definition uvmunmap :: "u64 \<Rightarrow> u64 \<Rightarrow> u64 \<Rightarrow> bool \<Rightarrow> 'z kmem_st_scheme \<Rightarrow> (unit, 'z kmem_st_scheme) outcome" where
  "uvmunmap pt va npages do_free =
     (if va mod PGSIZE \<noteq> 0 then kpanic ''uvmunmap: not aligned''
      else uvmunmap_loop (unat npages) pt va (va + npages * PGSIZE) do_free)"

text \<open>\<open>npages\<close> is an \<open>int\<close> in the source and is sign-extended in the call.\<close>

definition uvmdealloc :: "u64 \<Rightarrow> u64 \<Rightarrow> u64 \<Rightarrow> 'z kmem_st_scheme \<Rightarrow> (u64, 'z kmem_st_scheme) outcome" where
  "uvmdealloc pt oldsz newsz =
     (if newsz \<ge> oldsz then kret oldsz
      else if PGROUNDUP newsz < PGROUNDUP oldsz
      then kthen (uvmunmap pt (PGROUNDUP newsz)
                    (scast (ucast ((PGROUNDUP oldsz - PGROUNDUP newsz) div PGSIZE) :: u32)) True)
             (kret newsz)
      else kret newsz)"

primrec uvmalloc_loop ::
  "nat \<Rightarrow> u64 \<Rightarrow> u64 \<Rightarrow> u64 \<Rightarrow> u64 \<Rightarrow> u64 \<Rightarrow> 'z kmem_st_scheme \<Rightarrow> (u64, 'z kmem_st_scheme) outcome" where
  "uvmalloc_loop 0 pt a oldsz newsz xperm = (if a < newsz then kpanic ''uvmalloc: count'' else kret newsz)"
| "uvmalloc_loop (Suc n) pt a oldsz newsz xperm =
     (if a < newsz
      then kbind zeroed_page (\<lambda>mem.
             if mem = 0 then kthen (uvmdealloc pt a oldsz) (kret 0)
             else kbind (mappages pt a PGSIZE mem (PTE_R OR PTE_U OR xperm)) (\<lambda>r.
               if r \<noteq> 0 then kthen (kfree mem) (kthen (uvmdealloc pt a oldsz) (kret 0))
               else uvmalloc_loop n pt (a + PGSIZE) oldsz newsz xperm))
      else kret newsz)"

definition uvmalloc :: "u64 \<Rightarrow> u64 \<Rightarrow> u64 \<Rightarrow> u64 \<Rightarrow> 'z kmem_st_scheme \<Rightarrow> (u64, 'z kmem_st_scheme) outcome" where
  "uvmalloc pt oldsz newsz xperm =
     (if newsz < oldsz then kret oldsz
      else let o' = PGROUNDUP oldsz
           in uvmalloc_loop (unat ((newsz - oldsz) div PGSIZE) + 1) pt o' o' newsz xperm)"

text \<open>The recursion of \<open>freewalk\<close>; a tree of Sv39 has three levels.\<close>

primrec freewalk :: "nat \<Rightarrow> u64 \<Rightarrow> 'z kmem_st_scheme \<Rightarrow> (unit, 'z kmem_st_scheme) outcome" where
  "freewalk 0 pt = kpanic ''freewalk: depth''"
| "freewalk (Suc n) pt =
     kthen (kfor (\<lambda>i s.
        let a = pt + 8 * of_nat i; pte = load64 (pmem s) a in
        if pte AND PTE_V \<noteq> 0 \<and> pte AND (PTE_R OR PTE_W OR PTE_X) = 0
        then kthen (freewalk n (PTE2PA pte)) (store_pte a 0) s
        else if pte AND PTE_V \<noteq> 0 then Panic ''freewalk: leaf''
        else Ret () s) [0..<512])
       (kfree pt)"

definition uvmfree :: "u64 \<Rightarrow> u64 \<Rightarrow> 'z kmem_st_scheme \<Rightarrow> (unit, 'z kmem_st_scheme) outcome" where
  "uvmfree pt sz =
     kthen (if sz > 0 then uvmunmap pt 0 (PGROUNDUP sz div PGSIZE) True else kret ()) (freewalk 3 pt)"

primrec uvmcopy_loop ::
  "nat \<Rightarrow> u64 \<Rightarrow> u64 \<Rightarrow> u64 \<Rightarrow> u64 \<Rightarrow> 'z kmem_st_scheme \<Rightarrow> (int, 'z kmem_st_scheme) outcome" where
  "uvmcopy_loop 0 old new i sz = (if i < sz then kpanic ''uvmcopy: count'' else kret 0)"
| "uvmcopy_loop (Suc n) old new i sz =
     (if i < sz
      then kbind (walk old i False) (\<lambda>pte s.
             let v = load64 (pmem s) pte in
             if pte = 0 \<or> v AND PTE_V = 0 then uvmcopy_loop n old new (i + PGSIZE) sz s
             else kbind kalloc (\<lambda>mem.
                    if mem = 0 then kthen (uvmunmap new 0 (i div PGSIZE) True) (kret (- 1))
                    else kthen (kput (\<lambda>s. s\<lparr>pmem := memmove (pmem s) mem (PTE2PA v) (ucast PGSIZE)\<rparr>))
                      (kbind (mappages new i PGSIZE mem (PTE_FLAGS v)) (\<lambda>r.
                        if r \<noteq> 0
                        then kthen (kfree mem) (kthen (uvmunmap new 0 (i div PGSIZE) True) (kret (- 1)))
                        else uvmcopy_loop n old new (i + PGSIZE) sz))) s)
      else kret 0)"

definition uvmcopy :: "u64 \<Rightarrow> u64 \<Rightarrow> u64 \<Rightarrow> 'z kmem_st_scheme \<Rightarrow> (int, 'z kmem_st_scheme) outcome" where
  "uvmcopy old new sz = uvmcopy_loop (unat (sz div PGSIZE) + 1) old new 0 sz"

definition uvmclear :: "u64 \<Rightarrow> u64 \<Rightarrow> 'z kmem_st_scheme \<Rightarrow> (unit, 'z kmem_st_scheme) outcome" where
  "uvmclear pt va = kbind (walk pt va False) (\<lambda>pte s.
     if pte = 0 then Panic ''uvmclear''
     else store_pte pte (load64 (pmem s) pte AND NOT PTE_U) s)"

section \<open>Lazy allocation and copies\<close>

definition vmfault :: "u64 \<Rightarrow> u64 \<Rightarrow> 'z proc_st_scheme \<Rightarrow> (u64, 'z proc_st_scheme) outcome" where
  "vmfault pt va = kbind myproc (\<lambda>p s.
     if va \<ge> p_sz (procs s ! p) then Ret 0 s
     else let va0 = PGROUNDDOWN va in
       kbind (ismapped pt va0) (\<lambda>b.
         if b then kret 0
         else kbind zeroed_page (\<lambda>mem.
           if mem = 0 then kret 0
           else kbind (\<lambda>s. mappages (p_pagetable (procs s ! p)) va0 PGSIZE mem (PTE_W OR PTE_U OR PTE_R) s) (\<lambda>r.
             if r \<noteq> 0 then kthen (kfree mem) (kret 0) else kret mem))) s)"

text \<open>The physical address of a user page, faulting it in if need be; 0 when there is none.\<close>

definition user_page :: "u64 \<Rightarrow> u64 \<Rightarrow> 'z proc_st_scheme \<Rightarrow> (u64, 'z proc_st_scheme) outcome" where
  "user_page pt va0 = kbind (walkaddr pt va0) (\<lambda>pa0. if pa0 = 0 then vmfault pt va0 else kret pa0)"

text \<open>Bytes between memory and a kernel object: the part of a \<open>memmove\<close> in physical memory.\<close>

definition put_bytes :: "u64 \<Rightarrow> bytes \<Rightarrow> memory \<Rightarrow> memory" where
  "put_bytes a bs m = (\<lambda>x. if unat (x - a) < length bs then bs ! unat (x - a) else m x)"

definition get_bytes :: "u64 \<Rightarrow> nat \<Rightarrow> memory \<Rightarrow> bytes" where
  "get_bytes a n m = map (\<lambda>i. m (a + of_nat i)) [0..<n]"

primrec copyout_loop :: "nat \<Rightarrow> u64 \<Rightarrow> u64 \<Rightarrow> bytes \<Rightarrow> 'z proc_st_scheme \<Rightarrow> (int, 'z proc_st_scheme) outcome" where
  "copyout_loop 0 pt dstva src = (if src = [] then kret 0 else kpanic ''copyout: count'')"
| "copyout_loop (Suc k) pt dstva src =
     (if src = [] then kret 0
      else
        let va0 = PGROUNDDOWN dstva in
        if va0 \<ge> MAXVA then kret (- 1)
        else kbind (user_page pt va0) (\<lambda>pa0.
          if pa0 = 0 then kret (- 1)
          else kbind (walk pt va0 False) (\<lambda>pte s.
            if load64 (pmem s) pte AND PTE_W = 0 then Ret (- 1) s
            else let n = min (unat (PGSIZE - (dstva - va0))) (length src) in
              kthen (kput (\<lambda>s. s\<lparr>pmem := put_bytes (pa0 + (dstva - va0)) (take n src) (pmem s)\<rparr>))
                (copyout_loop k pt (va0 + PGSIZE) (drop n src)) s)))"

definition copyout :: "u64 \<Rightarrow> u64 \<Rightarrow> bytes \<Rightarrow> 'z proc_st_scheme \<Rightarrow> (int, 'z proc_st_scheme) outcome" where
  "copyout pt dstva src = copyout_loop (length src) pt dstva src"

text \<open>\<open>copyin\<close> returns the bytes it has stored at \<open>dst\<close> together with its result.\<close>

primrec copyin_loop :: "nat \<Rightarrow> u64 \<Rightarrow> u64 \<Rightarrow> nat \<Rightarrow> bytes \<Rightarrow> 'z proc_st_scheme \<Rightarrow> (int \<times> bytes, 'z proc_st_scheme) outcome" where
  "copyin_loop 0 pt srcva len acc = (if len = 0 then kret (0, acc) else kpanic ''copyin: count'')"
| "copyin_loop (Suc k) pt srcva len acc =
     (if len = 0 then kret (0, acc)
      else
        let va0 = PGROUNDDOWN srcva in
        kbind (user_page pt va0) (\<lambda>pa0 s.
          if pa0 = 0 then Ret (- 1, acc) s
          else let n = min (unat (PGSIZE - (srcva - va0))) len in
            copyin_loop k pt (va0 + PGSIZE) (len - n) (acc @ get_bytes (pa0 + (srcva - va0)) n (pmem s)) s))"

definition copyin :: "u64 \<Rightarrow> u64 \<Rightarrow> nat \<Rightarrow> 'z proc_st_scheme \<Rightarrow> (int \<times> bytes, 'z proc_st_scheme) outcome" where
  "copyin pt srcva len = copyin_loop len pt srcva len []"

text \<open>The inner loop of \<open>copyinstr\<close>: the bytes of one page up to a zero, and whether it was found.\<close>

fun str_page :: "bytes \<Rightarrow> bytes \<times> bool" where
  "str_page [] = ([], False)"
| "str_page (b # bs) = (if b = 0 then ([0], True) else case str_page bs of (r, z) \<Rightarrow> (b # r, z))"

primrec copyinstr_loop :: "nat \<Rightarrow> u64 \<Rightarrow> u64 \<Rightarrow> nat \<Rightarrow> bytes \<Rightarrow> 'z proc_st_scheme \<Rightarrow> (int \<times> bytes, 'z proc_st_scheme) outcome" where
  "copyinstr_loop 0 pt srcva mx acc = (if mx = 0 then kret (- 1, acc) else kpanic ''copyinstr: count'')"
| "copyinstr_loop (Suc k) pt srcva mx acc =
     (if mx = 0 then kret (- 1, acc)
      else
        let va0 = PGROUNDDOWN srcva in
        kbind (walkaddr pt va0) (\<lambda>pa0 s.
          if pa0 = 0 then Ret (- 1, acc) s
          else let n = min (unat (PGSIZE - (srcva - va0))) mx in
            case str_page (get_bytes (pa0 + (srcva - va0)) n (pmem s)) of (bs, z) \<Rightarrow>
              if z then Ret (0, acc @ bs) s
              else copyinstr_loop k pt (va0 + PGSIZE) (mx - n) (acc @ bs) s))"

definition copyinstr :: "u64 \<Rightarrow> u64 \<Rightarrow> nat \<Rightarrow> 'z proc_st_scheme \<Rightarrow> (int \<times> bytes, 'z proc_st_scheme) outcome" where
  "copyinstr pt srcva mx = copyinstr_loop mx pt srcva mx []"

definition either_copyout :: "bool \<Rightarrow> u64 \<Rightarrow> bytes \<Rightarrow> 'z proc_st_scheme \<Rightarrow> (int, 'z proc_st_scheme) outcome" where
  "either_copyout user_dst dst src =
     (if user_dst then kbind myproc (\<lambda>p s. copyout (p_pagetable (procs s ! p)) dst src s)
      else kthen (kput (\<lambda>s. s\<lparr>pmem := put_bytes dst src (pmem s)\<rparr>)) (kret 0))"

definition either_copyin :: "bool \<Rightarrow> u64 \<Rightarrow> nat \<Rightarrow> 'z proc_st_scheme \<Rightarrow> (int \<times> bytes, 'z proc_st_scheme) outcome" where
  "either_copyin user_src src len =
     (if user_src then kbind myproc (\<lambda>p s. copyin (p_pagetable (procs s ! p)) src len s)
      else kget (\<lambda>s. (0, get_bytes src len (pmem s))))"

end
