(* ===== verification/Console.thy ===== *)
theory Console
  imports Vm Ring
begin

text \<open>
  kernel/console.c and the interrupt side of kernel/uart.c: the line discipline of
  the console.  The registers of the UART are not state: what it receives is an
  argument of \<open>uartintr\<close>, what is sent is appended to \<open>uart_out\<close>.  A routine that
  has to wait ends in \<open>Sleep\<close>; when it is resumed it tests its condition again with
  the arguments its loop has reached.
\<close>

section \<open>Data\<close>

definition INPUT_BUF_SIZE :: nat where "INPUT_BUF_SIZE = 128"

record console =
  c_buf :: bytes
  c_r :: u32
  c_w :: u32
  c_e :: u32

record con_st = proc_st +
  con :: console
  tx_busy :: bool

definition upd_con :: "(console \<Rightarrow> console) \<Rightarrow> 'z con_st_scheme \<Rightarrow> 'z con_st_scheme" where
  "upd_con f s = s\<lparr>con := f (con s)\<rparr>"

text \<open>\<open>C(x)\<close>: Control-x.\<close>

definition ctrl :: "char \<Rightarrow> u32" where
  "ctrl x = of_char x - of_char CHR ''@''"

definition c_at :: "console \<Rightarrow> u32 \<Rightarrow> u8" where
  "c_at c a = c_buf c ! (unat a mod INPUT_BUF_SIZE)"

section \<open>Input\<close>

text \<open>The loop of Control-U; its first argument bounds the iterations.\<close>

primrec kill_line :: "nat \<Rightarrow> 'z con_st_scheme \<Rightarrow> (unit, 'z con_st_scheme) outcome" where
  "kill_line 0 = kret ()"
| "kill_line (Suc n) = (\<lambda>s.
     if c_e (con s) \<noteq> c_w (con s) \<and> c_at (con s) (c_e (con s) - 1) \<noteq> of_char NL
     then kthen (kput (upd_con (\<lambda>c. c\<lparr>c_e := c_e c - 1\<rparr>))) (kthen (consputc BACKSPACE) (kill_line n)) s
     else Ret () s)"

definition backspace :: "'z con_st_scheme \<Rightarrow> (unit, 'z con_st_scheme) outcome" where
  "backspace s =
     (if c_e (con s) \<noteq> c_w (con s)
      then kthen (kput (upd_con (\<lambda>c. c\<lparr>c_e := c_e c - 1\<rparr>))) (consputc BACKSPACE) s
      else Ret () s)"

definition con_store :: "u32 \<Rightarrow> console \<Rightarrow> console" where
  "con_store ch c = c\<lparr>c_buf := (c_buf c)[unat (c_e c) mod INPUT_BUF_SIZE := ucast ch], c_e := c_e c + 1\<rparr>"

definition con_default :: "u32 \<Rightarrow> 'z con_st_scheme \<Rightarrow> (unit, 'z con_st_scheme) outcome" where
  "con_default c0 s =
     (if c0 \<noteq> 0 \<and> c_e (con s) - c_r (con s) < of_nat INPUT_BUF_SIZE
      then let c = (if c0 = 13 then of_char NL else c0) in
        kthen (consputc c) (kthen (kput (upd_con (con_store c))) (\<lambda>s.
          if c = of_char NL \<or> c = ctrl CHR ''D'' \<or> c_e (con s) - c_r (con s) = of_nat INPUT_BUF_SIZE
          then kthen (kput (upd_con (\<lambda>c. c\<lparr>c_w := c_e c\<rparr>))) (wakeup (Some ChCons)) s
          else Ret () s)) s
      else Ret () s)"

definition consoleintr :: "u32 \<Rightarrow> 'z con_st_scheme \<Rightarrow> (unit, 'z con_st_scheme) outcome" where
  "consoleintr c = critical ConsLock
     (if c = ctrl CHR ''P'' then procdump
      else if c = ctrl CHR ''U'' then (\<lambda>s. kill_line (unat (c_e (con s) - c_w (con s))) s)
      else if c = ctrl CHR ''H'' \<or> c = 0x7F then backspace
      else con_default c)"

text \<open>\<open>idle\<close> is the bit \<open>LSR_TX_IDLE\<close>, \<open>cs\<close> the characters the receiver holds.\<close>

definition uartintr :: "bool \<Rightarrow> u8 list \<Rightarrow> 'z con_st_scheme \<Rightarrow> (unit, 'z con_st_scheme) outcome" where
  "uartintr idle cs =
     kthen (critical UartTxLock
        (if idle then kthen (kput (\<lambda>s. s\<lparr>tx_busy := False\<rparr>)) (wakeup (Some ChTx)) else kret ()))
       (kfor (\<lambda>c. consoleintr (ucast c)) cs)"

section \<open>Reading and writing\<close>

text \<open>
  The loop of \<open>consoleread\<close> with \<open>n\<close> bytes to go; the result is what is left of
  \<open>n\<close>, or -1 for a process that has been killed.
\<close>

primrec consoleread_loop :: "bool \<Rightarrow> nat \<Rightarrow> u64 \<Rightarrow> nat \<Rightarrow> 'z con_st_scheme \<Rightarrow> (int, 'z con_st_scheme) outcome" where
  "consoleread_loop user_dst target dst 0 = kret (int target)"
| "consoleread_loop user_dst target dst (Suc n) = (\<lambda>s.
     if c_r (con s) = c_w (con s)
     then kbind myproc (\<lambda>p. kbind (killed p) (\<lambda>k. if k \<noteq> 0 then kret (- 1) else kthen (sleep ChCons ConsLock) (kret 0))) s
     else let c = c_at (con s) (c_r (con s)) in
       kthen (kput (upd_con (\<lambda>c. c\<lparr>c_r := c_r c + 1\<rparr>)))
         (if ucast c = ctrl CHR ''D''
          then kthen (if Suc n < target then kput (upd_con (\<lambda>c. c\<lparr>c_r := c_r c - 1\<rparr>)) else kret ())
                 (kret (int target - int (Suc n)))
          else kbind (either_copyout user_dst dst [c]) (\<lambda>r.
            if r = - 1 then kret (int target - int (Suc n))
            else if c = of_char NL then kret (int target - int n)
            else consoleread_loop user_dst target (dst + 1) n)) s)"

definition consoleread :: "bool \<Rightarrow> u64 \<Rightarrow> int \<Rightarrow> 'z con_st_scheme \<Rightarrow> (int, 'z con_st_scheme) outcome" where
  "consoleread user_dst dst n = critical ConsLock (if n \<le> 0 then kret 0 else consoleread_loop user_dst (nat n) dst (nat n))"

definition uartwrite :: "bytes \<Rightarrow> 'z con_st_scheme \<Rightarrow> (unit, 'z con_st_scheme) outcome" where
  "uartwrite buf = critical UartTxLock (kfor (\<lambda>ch s.
     if tx_busy s then sleep ChTx UartTxLock s
     else Ret () (s\<lparr>uart_out := uart_out s @ [ch], tx_busy := True\<rparr>)) buf)"

function consolewrite_loop :: "bool \<Rightarrow> u64 \<Rightarrow> nat \<Rightarrow> nat \<Rightarrow> 'z con_st_scheme \<Rightarrow> (nat, 'z con_st_scheme) outcome" where
  "consolewrite_loop user_src src n i =
     (if i < n
      then let nn = min 32 (n - i) in
        kbind (either_copyin user_src (src + of_nat i) nn) (\<lambda>(r, buf).
          if r = - 1 then kret i
          else kthen (uartwrite buf) (consolewrite_loop user_src src n (i + nn)))
      else kret i)"
  by pat_completeness auto
termination
  by (relation "measure (\<lambda>(u, src, n, i). n - i)") auto

declare consolewrite_loop.simps [simp del]

definition consolewrite :: "bool \<Rightarrow> u64 \<Rightarrow> int \<Rightarrow> 'z con_st_scheme \<Rightarrow> (int, 'z con_st_scheme) outcome" where
  "consolewrite user_src src n = kbind (consolewrite_loop user_src src (nat n) 0) (\<lambda>i. kret (int i))"

section \<open>The line discipline\<close>

text \<open>The bytes a reader may take, and the line that is still being edited.\<close>

definition committed :: "console \<Rightarrow> bytes" where
  "committed c = ring_slice INPUT_BUF_SIZE (c_buf c) (c_r c) (unat (c_w c - c_r c))"

definition editing :: "console \<Rightarrow> bytes" where
  "editing c = ring_slice INPUT_BUF_SIZE (c_buf c) (c_w c) (unat (c_e c - c_w c))"

definition con_ok :: "console \<Rightarrow> bool" where
  "con_ok c \<longleftrightarrow> length (c_buf c) = INPUT_BUF_SIZE \<and> unat (c_w c - c_r c) + unat (c_e c - c_w c) \<le> INPUT_BUF_SIZE
     \<and> of_char NL \<notin> set (editing c)"

text \<open>What a key does to the committed bytes and to the edited line.\<close>

definition key :: "u32 \<Rightarrow> bytes \<times> bytes \<Rightarrow> bytes \<times> bytes" where
  "key c = (\<lambda>(done, edit).
     if c = 21 then (done, [])
     else if c = 8 \<or> c = 127 then (done, butlast edit)
     else if c \<noteq> 0 \<and> length done + length edit < INPUT_BUF_SIZE
     then let ch = (if c = 13 then 10 else c); edit' = edit @ [ucast ch] in
       if ch = 10 \<or> ch = 4 \<or> length done + length edit' = INPUT_BUF_SIZE then (done @ edit', []) else (done, edit')
     else (done, edit))"

interpretation cr: ring INPUT_BUF_SIZE "TYPE(32)"
  by unfold_locales (simp_all add: INPUT_BUF_SIZE_def)

lemma ctrl_simps [simp]: "ctrl CHR ''P'' = 16" "ctrl CHR ''U'' = 21" "ctrl CHR ''H'' = 8" "ctrl CHR ''D'' = 4"
  by (simp_all add: ctrl_def)

lemma NL_code [simp]: "(of_char NL :: u32) = 10" "(of_char NL :: u8) = 10"
  by (simp_all add: NL_def)

lemma length_committed [simp]: "length (committed c) = unat (c_w c - c_r c)" "length (editing c) = unat (c_e c - c_w c)"
  by (simp_all add: committed_def editing_def)

lemma con_total:
  assumes "con_ok c"
  shows "unat (c_e c - c_r c) = unat (c_w c - c_r c) + unat (c_e c - c_w c)"
  by (rule counter_add) (use assms in \<open>simp add: con_ok_def INPUT_BUF_SIZE_def\<close>)

lemma con_all:
  assumes "con_ok c"
  shows "ring_slice INPUT_BUF_SIZE (c_buf c) (c_r c) (unat (c_e c - c_r c)) = committed c @ editing c"
  unfolding con_total [OF assms] cr.slice_append by (simp add: committed_def editing_def)

text \<open>Erasing the last byte of the line.\<close>

lemma erase_ok:
  assumes "con_ok c" "c_e c \<noteq> c_w c"
  shows "con_ok (c\<lparr>c_e := c_e c - 1\<rparr>)" "editing (c\<lparr>c_e := c_e c - 1\<rparr>) = butlast (editing c)"
    "committed (c\<lparr>c_e := c_e c - 1\<rparr>) = committed c" "c_at c (c_e c - 1) = last (editing c)" "editing c \<noteq> []"
proof -
  let ?n = "unat (c_e c - 1 - c_w c)"
  have n: "unat (c_e c - c_w c) = Suc ?n" using counter_pred [OF assms(2)] by (simp add: algebra_simps)
  have e: "editing c = ring_slice INPUT_BUF_SIZE (c_buf c) (c_w c) ?n @ [c_buf c ! ((unat (c_w c) + ?n) mod INPUT_BUF_SIZE)]"
    unfolding editing_def n ring_slice_snoc ..
  show ed: "editing (c\<lparr>c_e := c_e c - 1\<rparr>) = butlast (editing c)" unfolding e by (simp add: editing_def)
  show "committed (c\<lparr>c_e := c_e c - 1\<rparr>) = committed c" by (simp add: committed_def)
  show "c_at c (c_e c - 1) = last (editing c)" "editing c \<noteq> []"
    using cr.index [of "c_e c - 1" "c_w c"] unfolding e by (simp_all add: c_at_def)
  show "con_ok (c\<lparr>c_e := c_e c - 1\<rparr>)"
    using assms(1) n ed by (auto simp: con_ok_def dest: in_set_butlastD)
qed

text \<open>Appending a byte to the line.\<close>

lemma store_ok:
  assumes c: "con_ok c" and room: "length (committed c) + length (editing c) < INPUT_BUF_SIZE"
  fixes ch :: u32
  defines "c' \<equiv> con_store ch c"
  shows "editing c' = editing c @ [ucast ch]" "committed c' = committed c" "length (c_buf c') = INPUT_BUF_SIZE"
    "c_w c' = c_w c" "c_r c' = c_r c" "unat (c_e c' - c_w c) = Suc (unat (c_e c - c_w c))" "unat (c_e c' - c_r c) = Suc (unat (c_e c - c_r c))"
proof -
  have l: "length (c_buf c) = INPUT_BUF_SIZE" using c by (simp add: con_ok_def)
  let ?i = "unat (c_e c) mod INPUT_BUF_SIZE" and ?n = "unat (c_e c - c_r c)"
  have lt: "?n < INPUT_BUF_SIZE" using con_total [OF c] room by simp
  show w: "unat (c_e c' - c_w c) = Suc (unat (c_e c - c_w c))"
    using counter_succ [of "c_e c" "c_w c"] room by (simp add: c'_def con_store_def INPUT_BUF_SIZE_def)
  show r: "unat (c_e c' - c_r c) = Suc ?n"
    using counter_succ [of "c_e c" "c_r c"] lt by (simp add: c'_def con_store_def INPUT_BUF_SIZE_def)
  have "ring_slice INPUT_BUF_SIZE ((c_buf c)[?i := ucast ch]) (c_r c) (Suc ?n) = ring_slice INPUT_BUF_SIZE (c_buf c) (c_r c) ?n @ [ucast ch]"
    by (rule cr.slice_update [OF lt l cr.index])
  also have "\<dots> = committed c @ editing c @ [ucast ch]" by (simp add: con_all [OF c])
  also have "ring_slice INPUT_BUF_SIZE ((c_buf c)[?i := ucast ch]) (c_r c) (Suc ?n) = committed c' @ editing c'"
    using cr.slice_append [of "(c_buf c)[?i := ucast ch]" "c_r c" "unat (c_w c - c_r c)" "Suc (unat (c_e c - c_w c))"] w con_total [OF c]
    by (simp add: committed_def editing_def c'_def con_store_def)
  finally have "committed c' @ editing c' = committed c @ editing c @ [ucast ch]" .
  moreover have "length (committed c') = length (committed c)" by (simp add: c'_def con_store_def)
  ultimately show "editing c' = editing c @ [ucast ch]" "committed c' = committed c" by auto
  show "length (c_buf c') = INPUT_BUF_SIZE" "c_w c' = c_w c" "c_r c' = c_r c" using l by (simp_all add: c'_def con_store_def)
qed

text \<open>Committing the line.\<close>

lemma commit_line:
  assumes "unat (c_w c - c_r c) + unat (c_e c - c_w c) \<le> INPUT_BUF_SIZE" "length (c_buf c) = INPUT_BUF_SIZE"
  defines "c' \<equiv> c\<lparr>c_w := c_e c\<rparr>"
  shows "con_ok c'" "committed c' = committed c @ editing c" "editing c' = []"
proof -
  have t: "unat (c_e c - c_r c) = unat (c_w c - c_r c) + unat (c_e c - c_w c)"
    by (rule counter_add) (use assms(1) in \<open>simp add: INPUT_BUF_SIZE_def\<close>)
  show "committed c' = committed c @ editing c" "editing c' = []"
    by (simp_all add: c'_def committed_def editing_def t cr.slice_append)
  then show "con_ok c'" using assms t by (simp add: con_ok_def c'_def)
qed

section \<open>Keys\<close>

definition con_ready :: "'z con_st_scheme \<Rightarrow> bool" where
  "con_ready s \<longleftrightarrow> con_ok (con s) \<and> \<not> panicked s \<and> no_plocks s \<and> ConsLock \<notin> set (locks s)"

text \<open>What an interrupt of the console leaves alone.\<close>

definition con_frame :: "'z con_st_scheme \<Rightarrow> 'z con_st_scheme \<Rightarrow> bool" where
  "con_frame s t \<longleftrightarrow> t = s\<lparr>uart_out := uart_out t, con := con t, procs := procs t\<rparr>"

lemma con_frame_fields:
  assumes "con_frame s t"
  shows "locks t = locks s" "panicked t = panicked s" "pmem t = pmem s" "curproc t = curproc s"
proof -
  note e = assms [unfolded con_frame_def]
  show "locks t = locks s" "panicked t = panicked s" "pmem t = pmem s" "curproc t = curproc s"
    using arg_cong [OF e, of locks] arg_cong [OF e, of panicked] arg_cong [OF e, of pmem] arg_cong [OF e, of curproc] by simp_all
qed

lemma con_frame_refl: "con_frame s s"
  by (simp add: con_frame_def)

lemma con_frame_trans: "con_frame s t \<Longrightarrow> con_frame t u \<Longrightarrow> con_frame s u"
proof -
  assume t: "con_frame s t" and u: "con_frame t u"
  let ?upd = "\<lambda>x. x\<lparr>uart_out := uart_out u, con := con u, procs := procs u\<rparr>"
  have "u = ?upd t" using u by (simp only: con_frame_def)
  also have "\<dots> = ?upd (s\<lparr>uart_out := uart_out t, con := con t, procs := procs t\<rparr>)"
    using t unfolding con_frame_def by (rule arg_cong)
  finally show ?thesis by (simp add: con_frame_def)
qed

lemma kill_line_ok:
  "con_ok (con s) \<Longrightarrow> \<not> panicked s \<Longrightarrow> n = unat (c_e (con s) - c_w (con s)) \<Longrightarrow>
   \<exists>t. kill_line n s = Ret () t \<and> con_ok (con t) \<and> committed (con t) = committed (con s) \<and> editing (con t) = [] \<and> con_frame s t"
proof (induction n arbitrary: s)
  case 0
  then show ?case by (intro exI [of _ s]) (simp add: kret_def con_frame_refl editing_def)
next
  case (Suc n)
  let ?c = "con s" and ?s = "upd_con (\<lambda>c. c\<lparr>c_e := c_e c - 1\<rparr>) s"
  let ?t = "?s\<lparr>uart_out := uart_out s @ cons_out [BACKSPACE]\<rparr>"
  have ne: "c_e ?c \<noteq> c_w ?c" using Suc.prems(3) by auto
  note e = erase_ok [OF Suc.prems(1) ne]
  have "last (editing ?c) \<in> set (editing ?c)" using e(5) by simp
  then have nl: "c_at ?c (c_e ?c - 1) \<noteq> 10" using e(4) Suc.prems(1) by (auto simp: con_ok_def)
  have n: "n = unat (c_e (con ?t) - c_w (con ?t))"
    using Suc.prems(3) counter_pred [OF ne] by (simp add: upd_con_def algebra_simps)
  obtain u where u: "kill_line n ?t = Ret () u" "con_ok (con u)" "committed (con u) = committed (con ?t)" "editing (con u) = []" "con_frame ?t u"
    using Suc.IH [of ?t] Suc.prems(2) e(1) n by (auto simp: upd_con_def)
  have "kill_line (Suc n) s = Ret () u"
    using ne nl u(1) Suc.prems(2) by (simp add: consputc_Ret upd_con_def)
  moreover have "con_frame s ?t" by (simp add: con_frame_def upd_con_def)
  ultimately show ?case using u e(3) con_frame_trans by (intro exI [of _ u]) (auto simp: upd_con_def)
qed

lemma wakeup_con:
  "no_plocks s \<Longrightarrow> \<exists>t. wakeup ch s = Ret () t \<and> con t = con s \<and> con_frame s t"
  by (simp add: wakeup_eq con_frame_def)

lemma con_default_ok:
  assumes ok: "con_ok (con s)" "\<not> panicked s" "no_plocks s" and c: "unat c < 256" "c \<noteq> 21" "c \<noteq> 8" "c \<noteq> 127"
  shows "\<exists>t. con_default c s = Ret () t \<and> con_ok (con t)
    \<and> (committed (con t), editing (con t)) = key c (committed (con s), editing (con s)) \<and> con_frame s t"
proof (cases "c \<noteq> 0 \<and> length (committed (con s)) + length (editing (con s)) < INPUT_BUF_SIZE")
  case False
  have "(c_e (con s) - c_r (con s) < of_nat INPUT_BUF_SIZE) = (unat (c_e (con s) - c_r (con s)) < INPUT_BUF_SIZE)"
    by (simp add: word_less_nat_alt INPUT_BUF_SIZE_def)
  then have "con_default c s = Ret () s" using False con_total [OF ok(1)] by (auto simp: con_default_def)
  moreover have "key c (committed (con s), editing (con s)) = (committed (con s), editing (con s))"
    using False c by (auto simp: key_def)
  ultimately show ?thesis using ok con_frame_refl by auto
next
  case True
  define ch where "ch = (if c = 13 then 10 else c)"
  let ?s = "upd_con (con_store ch) (s\<lparr>uart_out := uart_out s @ cons_out [ch]\<rparr>)"
  have room: "length (committed (con s)) + length (editing (con s)) < INPUT_BUF_SIZE" using True by simp
  note st = store_ok [OF ok(1) room, of ch]
  have sc: "con ?s = con_store ch (con s)" by (simp add: upd_con_def)
  have guard: "c_e (con s) - c_r (con s) < of_nat INPUT_BUF_SIZE"
    using room con_total [OF ok(1)] by (simp add: word_less_nat_alt INPUT_BUF_SIZE_def)
  have full: "c_e (con ?s) - c_r (con ?s) = of_nat INPUT_BUF_SIZE \<longleftrightarrow> length (committed (con s)) + length (editing (con s)) + 1 = INPUT_BUF_SIZE"
    unfolding sc st(5) word_unat_eq_iff using st(7) con_total [OF ok(1)] by (simp add: INPUT_BUF_SIZE_def)
  have fr: "con_frame s ?s" by (simp add: con_frame_def upd_con_def)
  show ?thesis
  proof (cases "ch = 10 \<or> ch = 4 \<or> length (committed (con s)) + length (editing (con s)) + 1 = INPUT_BUF_SIZE")
    case com: True
    let ?u = "upd_con (\<lambda>c. c\<lparr>c_w := c_e c\<rparr>) ?s"
    have "no_plocks ?u" using ok(3) by (simp add: upd_con_def no_plocks_def)
    from wakeup_con [OF this] obtain t where t: "wakeup (Some ChCons) ?u = Ret () t" "con t = con ?u" "con_frame ?u t" by blast
    have "unat (c_w (con ?s) - c_r (con ?s)) + unat (c_e (con ?s) - c_w (con ?s)) \<le> INPUT_BUF_SIZE" "length (c_buf (con ?s)) = INPUT_BUF_SIZE"
      using st room by (simp_all add: sc)
    note cl = commit_line [OF this, unfolded sc]
    have k: "key c (committed (con s), editing (con s)) = (committed (con s) @ editing (con s) @ [ucast ch], [])"
      using True com c by (auto simp: key_def Let_def ch_def)
    have "con_default c s = Ret () t"
      using True com guard full t(1) ok(2) by (auto simp: con_default_def Let_def ch_def consputc_Ret)
    moreover have "con_frame s t" using fr t(3) con_frame_trans [of s ?s ?u] con_frame_trans [of s ?u t]
      by (auto simp: con_frame_def upd_con_def)
    moreover have "con t = (con_store ch (con s))\<lparr>c_w := c_e (con_store ch (con s))\<rparr>" using t(2) by (simp add: upd_con_def)
    ultimately show ?thesis unfolding k using cl st(1,2) by (intro exI [of _ t]) simp
  next
    case False
    have "con_default c s = Ret () ?s"
      using True False guard full ok(2) by (auto simp: con_default_def Let_def ch_def consputc_Ret)
    moreover have "ucast ch \<noteq> (10 :: u8)"
    proof
      assume "ucast ch = (10 :: u8)"
      then have "unat (ucast ch :: u8) = 10" by simp
      moreover have "unat ch < 256" using c(1) by (simp add: ch_def)
      ultimately have "unat ch = 10" by (simp add: unsigned_ucast_eq take_bit_nat_eq_self)
      then show False using False by (simp add: word_unat_eq_iff)
    qed
    then have "con_ok (con ?s)" using st ok(1) room by (auto simp: con_ok_def sc)
    moreover have "key c (committed (con s), editing (con s)) = (committed (con s), editing (con s) @ [ucast ch])"
      using True False c by (auto simp: key_def Let_def ch_def)
    ultimately show ?thesis using fr st(1,2) by (intro exI [of _ ?s]) (simp add: sc)
  qed
qed

lemma backspace_ok:
  assumes ok: "con_ok (con s)" "\<not> panicked s"
  shows "\<exists>t. backspace s = Ret () t \<and> con_ok (con t) \<and> committed (con t) = committed (con s)
    \<and> editing (con t) = butlast (editing (con s)) \<and> con_frame s t"
proof (cases "c_e (con s) = c_w (con s)")
  case True
  then show ?thesis using ok by (intro exI [of _ s]) (simp add: backspace_def con_frame_refl editing_def)
next
  case False
  let ?t = "(upd_con (\<lambda>c. c\<lparr>c_e := c_e c - 1\<rparr>) s)\<lparr>uart_out := uart_out s @ cons_out [BACKSPACE]\<rparr>"
  have "backspace s = Ret () ?t" using False ok(2) by (simp add: backspace_def consputc_Ret upd_con_def)
  then show ?thesis using erase_ok [OF ok(1) False] by (intro exI [of _ ?t]) (simp add: upd_con_def con_frame_def)
qed

lemma con_frame_unlock: "con_frame (s\<lparr>locks := l\<rparr>) t \<Longrightarrow> con_frame s (t\<lparr>locks := locks s\<rparr>)"
proof -
  assume "con_frame (s\<lparr>locks := l\<rparr>) t"
  from arg_cong [OF this [unfolded con_frame_def], of "\<lambda>u. u\<lparr>locks := locks s\<rparr>"] show ?thesis by (simp add: con_frame_def)
qed

lemma consoleintr_ok:
  assumes r: "con_ready s" and c: "unat c < 256" "c \<noteq> 16"
  shows "\<exists>t. consoleintr c s = Ret () t \<and> con_ready t
    \<and> (committed (con t), editing (con t)) = key c (committed (con s), editing (con s)) \<and> con_frame s t"
proof -
  let ?s = "s\<lparr>locks := ConsLock # locks s\<rparr>"
  have ok: "con_ok (con ?s)" "\<not> panicked ?s" "no_plocks ?s" "ConsLock \<notin> set (locks s)" and np: "no_plocks s"
    using r by (auto simp: con_ready_def no_plocks_def)
  let ?body = "if c = 21 then (\<lambda>s. kill_line (unat (c_e (con s) - c_w (con s))) s)
      else if c = 8 \<or> c = 0x7F then backspace else con_default c"
  have "\<exists>t. ?body ?s = Ret () t \<and> con_ok (con t)
      \<and> (committed (con t), editing (con t)) = key c (committed (con ?s), editing (con ?s)) \<and> con_frame ?s t"
  proof (cases "c = 21")
    case True
    then show ?thesis using kill_line_ok [OF ok(1,2) refl] by (auto simp: key_def)
  next
    case n21: False
    show ?thesis
    proof (cases "c = 8 \<or> c = 127")
      case True
      then show ?thesis using backspace_ok [OF ok(1,2)] n21 by (auto simp: key_def)
    next
      case False
      then show ?thesis using con_default_ok [OF ok(1-3) c(1) n21] n21 by simp
    qed
  qed
  then obtain t where t: "?body ?s = Ret () t" "con_ok (con t)"
      "(committed (con t), editing (con t)) = key c (committed (con s), editing (con s))" "con_frame ?s t" by auto
  note f = con_frame_fields [OF t(4)]
  have "consoleintr c s = Ret () (t\<lparr>locks := locks s\<rparr>)"
    unfolding consoleintr_def by (rule critical_Ret) (use ok(4) t(1) f(1) c(2) in \<open>auto split: if_splits\<close>)
  moreover have "con_ready (t\<lparr>locks := locks s\<rparr>)" using t(2) f ok np by (simp add: con_ready_def no_plocks_def)
  ultimately show ?thesis using t(3) con_frame_unlock [OF t(4)] by (intro exI [of _ "t\<lparr>locks := locks s\<rparr>"]) simp
qed

lemma keys_ok:
  assumes "con_ready s" "\<forall>c \<in> set cs. unat c < 256 \<and> c \<noteq> 16"
  shows "\<exists>t. kfor consoleintr cs s = Ret () t \<and> con_ready t
    \<and> (committed (con t), editing (con t)) = fold key cs (committed (con s), editing (con s)) \<and> con_frame s t"
  using assms
proof (induction cs arbitrary: s)
  case Nil
  then show ?case using con_frame_refl by auto
next
  case (Cons c cs)
  then obtain t where t: "consoleintr c s = Ret () t" "con_ready t"
      "(committed (con t), editing (con t)) = key c (committed (con s), editing (con s))" "con_frame s t"
    using consoleintr_ok [of s c] by auto
  then obtain u where "kfor consoleintr cs t = Ret () u" "con_ready u"
      "(committed (con u), editing (con u)) = fold key cs (committed (con t), editing (con t))" "con_frame t u"
    using Cons.IH [OF t(2)] Cons.prems(2) by auto
  then show ?case using t con_frame_trans by auto
qed

section \<open>Reading a line\<close>

text \<open>
  What a read of \<open>n\<close> bytes takes from the committed bytes: up to and with a newline,
  up to an end-of-file mark, which is left in place unless it comes first, or all
  \<open>n\<close>; \<open>None\<close> when it has to wait.
\<close>

fun read_line :: "bool \<Rightarrow> nat \<Rightarrow> bytes \<Rightarrow> (bytes \<times> bytes) option" where
  "read_line first 0 xs = Some ([], xs)"
| "read_line first (Suc n) [] = None"
| "read_line first (Suc n) (x # xs) =
     (if x = 4 then Some ([], if first then xs else x # xs)
      else if x = 10 then Some ([x], xs)
      else map_option (\<lambda>(l, r). (x # l, r)) (read_line False n xs))"

lemma read_line_length: "read_line first n xs = Some (l, r) \<Longrightarrow> length l \<le> n"
  by (induction first n xs arbitrary: l r rule: read_line.induct) (auto split: if_splits)

lemma committed_Cons:
  assumes "con_ok c" "c_r c \<noteq> c_w c"
  shows "committed c = c_at c (c_r c) # committed (c\<lparr>c_r := c_r c + 1\<rparr>)" "con_ok (c\<lparr>c_r := c_r c + 1\<rparr>)"
proof -
  have n: "unat (c_w c - c_r c) = Suc (unat (c_w c - (c_r c + 1)))" using counter_pred [of "c_w c" "c_r c"] assms(2) by simp
  show "committed c = c_at c (c_r c) # committed (c\<lparr>c_r := c_r c + 1\<rparr>)"
    unfolding committed_def n cr.slice_Cons by (simp add: c_at_def)
  show "con_ok (c\<lparr>c_r := c_r c + 1\<rparr>)" using assms(1) n by (simp add: con_ok_def editing_def)
qed

lemma put_bytes_Cons:
  assumes "length xs < 2 ^ 64"
  shows "put_bytes (a + 1) xs (put_bytes a [x] m) = put_bytes a (x # xs) m"
proof
  fix y
  show "put_bytes (a + 1) xs (put_bytes a [x] m) y = put_bytes a (x # xs) m y"
  proof (cases "y = a")
    case True
    have "unat (- 1 :: u64) = 2 ^ 64 - 1" by (simp add: unsigned_minus_1_eq_mask mask_eq_exp_minus_1)
    then show ?thesis using True assms by (simp add: put_bytes_def)
  next
    case False
    then have "y - a \<noteq> 0" by simp
    then have "unat (y - a) = Suc (unat (y - a - 1))" by (simp add: unat_minus_one unat_gt_0 word_neq_0_conv)
    then have "unat (y - a) = Suc (unat (y - (a + 1)))" by (simp add: algebra_simps)
    then show ?thesis by (simp add: put_bytes_def)
  qed
qed

lemma put_bytes_Nil [simp]: "put_bytes a [] m = m"
  by (simp add: put_bytes_def)

lemma consoleread_step:
  assumes "c_r (con s) \<noteq> c_w (con s)"
  shows "consoleread_loop False target dst (Suc n) s =
    (let x = c_at (con s) (c_r (con s)); s1 = upd_con (\<lambda>c. c\<lparr>c_r := c_r c + 1\<rparr>) s; t = s1\<lparr>pmem := put_bytes dst [x] (pmem s)\<rparr> in
     if ucast x = (4 :: u32) then Ret (int target - int (Suc n)) (if Suc n < target then s else s1)
     else if x = 10 then Ret (int target - int n) t
     else consoleread_loop False target (dst + 1) n t)"
proof -
  let ?s = "upd_con (\<lambda>c. c\<lparr>c_r := c_r c + 1\<rparr>) s"
  have e: "upd_con (\<lambda>c. c\<lparr>c_r := c_r c - 1\<rparr>) ?s = s" "pmem ?s = pmem s" by (simp_all add: upd_con_def)
  show ?thesis
    unfolding consoleread_loop.simps Let_def if_not_P [OF assms] kthen_kput ctrl_simps either_copyout_def NL_code if_False
    by (simp add: e kput_def kret_def kthen_def kbind_def)
qed

declare consoleread_loop.simps(2) [simp del]

lemma consoleread_loop_ok:
  assumes "con_ok (con s)" "read_line (Suc n' = target) n xs = Some (l, r)" "committed (con s) = xs" "n = Suc n'" "n \<le> target" "target < 2 ^ 63"
  shows "\<exists>t. consoleread_loop False target dst n s = Ret (int target - int n + int (length l)) t \<and> con_ok (con t) \<and> committed (con t) = r
    \<and> editing (con t) = editing (con s) \<and> pmem t = put_bytes dst l (pmem s) \<and> locks t = locks s"
  using assms
proof (induction n arbitrary: n' s xs l r dst)
  case 0
  then show ?case by simp
next
  case (Suc n)
  let ?c = "con s" and ?s = "upd_con (\<lambda>c. c\<lparr>c_r := c_r c + 1\<rparr>) s"
  have n': "n' = n" using Suc.prems(4) by simp
  obtain x ys where xs: "xs = x # ys" using Suc.prems(2) by (cases xs) auto
  then have ne: "c_r ?c \<noteq> c_w ?c" using Suc.prems(3) by (auto simp: committed_def)
  note cc = committed_Cons [OF Suc.prems(1) ne]
  have x: "c_at ?c (c_r ?c) = x" "committed (con ?s) = ys" "con_ok (con ?s)" "editing (con ?s) = editing ?c"
    using cc xs Suc.prems(3) by (auto simp: upd_con_def editing_def)
  have u4: "ucast x = (4 :: u32) \<longleftrightarrow> x = 4"
    using unat_ucast_u8 [of x] by (auto simp: word_unat_eq_iff)
  have sub: "c_r c + 1 - 1 = c_r c" for c :: console by simp
  consider (eof) "x = 4" | (nl) "x = 10" | (other) "x \<noteq> 4" "x \<noteq> 10" by blast
  then show ?case
  proof cases
    case eof
    show ?thesis
    proof (cases "Suc n < target")
      case True
      then have "l = []" "r = xs" using Suc.prems(2,5) eof xs n' by auto
      then show ?thesis using True eof ne x(1) u4 Suc.prems(1,3)
        by (intro exI [of _ s]) (simp add: consoleread_step)
    next
      case False
      then have "l = []" "r = ys" using Suc.prems(2,5) eof xs n' by auto
      then show ?thesis using False eof ne x u4
        by (intro exI [of _ ?s]) (simp add: consoleread_step, simp add: upd_con_def)
    qed
  next
    case nl
    then have "l = [x]" "r = ys" using Suc.prems(2) xs by auto
    then show ?thesis using nl ne x u4 
      by (intro exI [of _ "?s\<lparr>pmem := put_bytes dst [x] (pmem s)\<rparr>"]) (simp add: consoleread_step, simp add: upd_con_def)
  next
    case other
    let ?t = "?s\<lparr>pmem := put_bytes dst [x] (pmem s)\<rparr>"
    obtain l' where l: "read_line False n ys = Some (l', r)" "l = x # l'" using Suc.prems(2) xs other by (auto split: option.splits)
    have step: "consoleread_loop False target dst (Suc n) s = consoleread_loop False target (dst + 1) n ?t"
      using other ne x(1) u4 by (simp add: consoleread_step)
    show ?thesis
    proof (cases n)
      case 0
      then show ?thesis using l step x
        by (intro exI [of _ ?t]) (simp add: kret_def upd_con_def)
    next
      case (Suc k)
      have "read_line (Suc k = target) n ys = Some (l', r)" using l(1) Suc Suc.prems(5) by simp
      from Suc.IH [of ?t k ys l' r "dst + 1", OF _ this _ Suc] x obtain t where
        t: "consoleread_loop False target (dst + 1) n ?t = Ret (int target - int n + int (length l')) t" "con_ok (con t)" "committed (con t) = r"
          "editing (con t) = editing (con ?t)" "pmem t = put_bytes (dst + 1) l' (pmem ?t)" "locks t = locks ?t"
        using Suc.prems(5,6) by (auto simp: upd_con_def)
      have "length l' < 2 ^ 64" using read_line_length [OF l(1)] Suc.prems(5,6) by simp
      then show ?thesis using t step l(2) x by (intro exI [of _ t]) (simp add: put_bytes_Cons upd_con_def)
    qed
  qed
qed

text \<open>C25: The line discipline of the console: after any sequence of keys (all but Control-P)
  the ring buffer holds the bytes that may be read followed by the line being edited, as
  \<open>key\<close> describes, with erase, kill and end-of-file, never more than 128 in all, across
  the wrap-around of its counters; and a read then returns the bytes up to the newline, the
  end-of-file mark or the size asked for, in order, and removes exactly those.\<close>

theorem console_lines:
  assumes "con_ready s" and "\<forall>c \<in> set cs. unat c < 256 \<and> c \<noteq> 16"
  shows "\<exists>t done edit. kfor consoleintr cs s = Ret () t \<and> fold key cs (committed (con s), editing (con s)) = (done, edit)
    \<and> committed (con t) = done \<and> editing (con t) = edit \<and> length done + length edit \<le> INPUT_BUF_SIZE
    \<and> (\<forall>n l r dst. 0 < n \<longrightarrow> n < 2 ^ 31 \<longrightarrow> read_line True n done = Some (l, r) \<longrightarrow>
         (\<exists>u. consoleread False dst (int n) t = Ret (int (length l)) u \<and> committed (con u) = r \<and> editing (con u) = edit
            \<and> pmem u = put_bytes dst l (pmem t)))"
proof -
  obtain t where t: "kfor consoleintr cs s = Ret () t" "con_ready t"
      "(committed (con t), editing (con t)) = fold key cs (committed (con s), editing (con s))"
    using keys_ok [OF assms] by blast
  have "\<exists>u. consoleread False dst (int n) t = Ret (int (length l)) u \<and> committed (con u) = r \<and> editing (con u) = editing (con t)
      \<and> pmem u = put_bytes dst l (pmem t)"
    if n: "0 < n" "n < 2 ^ 31" and l: "read_line True n (committed (con t)) = Some (l, r)" for n l r dst
  proof -
    obtain k where k: "n = Suc k" using n(1) by (cases n) auto
    let ?t = "t\<lparr>locks := ConsLock # locks t\<rparr>"
    have "con_ok (con ?t)" using t(2) by (simp add: con_ready_def)
    moreover have "read_line (Suc k = n) n (committed (con ?t)) = Some (l, r)" using l k by simp
    ultimately obtain u where u: "consoleread_loop False n dst n ?t = Ret (int n - int n + int (length l)) u" "committed (con u) = r"
        "editing (con u) = editing (con ?t)" "pmem u = put_bytes dst l (pmem ?t)" "locks u = locks ?t"
      using consoleread_loop_ok [of ?t k n n "committed (con ?t)" l r dst] k n(2) by auto
    have "consoleread False dst (int n) t = Ret (int (length l)) (u\<lparr>locks := locks t\<rparr>)"
      unfolding consoleread_def by (rule critical_Ret) (use t(2) u(1,5) n(1) in \<open>simp_all add: con_ready_def\<close>)
    then show ?thesis using u by (intro exI [of _ "u\<lparr>locks := locks t\<rparr>"]) simp
  qed
  moreover have "length (committed (con t)) + length (editing (con t)) \<le> INPUT_BUF_SIZE"
    using t(2) by (simp add: con_ready_def con_ok_def)
  ultimately show ?thesis using t(1,3)
    by (intro exI [of _ t] exI [of _ "committed (con t)"] exI [of _ "editing (con t)"]) simp
qed

text \<open>A machine on which the counters are about to wrap around.\<close>

definition ex_con :: con_st where
  "ex_con = proc_st.extend ex_st
     \<lparr>con = \<lparr>c_buf = replicate 128 0, c_r = 0xFFFFFFFE, c_w = 0xFFFFFFFE, c_e = 0xFFFFFFFE\<rparr>, tx_busy = False\<rparr>"

theorem console_lines_witness:
  "con_ready ex_con \<and> (\<exists>t u. kfor consoleintr [108, 120, 8, 115, 13] ex_con = Ret () t \<and> consoleread False 0x1000 100 t = Ret 3 u
     \<and> pmem u = put_bytes 0x1000 [108, 115, 10] (pmem t) \<and> committed (con u) = [])"
proof -
  let ?cs = "[108, 120, 8, 115, 13] :: u32 list"
  have r: "con_ready ex_con"
    by (simp add: con_ready_def con_ok_def ex_con_def ex_st_def proc_st.defs INPUT_BUF_SIZE_def editing_def no_plocks_def)
  have f: "fold key ?cs (committed (con ex_con), editing (con ex_con)) = ([108, 115, 10], [])"
    by (simp add: ex_con_def proc_st.defs committed_def editing_def key_def INPUT_BUF_SIZE_def)
  have "\<forall>c \<in> set ?cs. unat c < 256 \<and> c \<noteq> 16" by simp
  from console_lines [OF r this, unfolded f] obtain t where t: "kfor consoleintr ?cs ex_con = Ret () t"
      "\<forall>n l r dst. 0 < n \<longrightarrow> n < 2 ^ 31 \<longrightarrow> read_line True n [108, 115, 10] = Some (l, r) \<longrightarrow>
         (\<exists>u. consoleread False dst (int n) t = Ret (int (length l)) u \<and> committed (con u) = r \<and> editing (con u) = []
            \<and> pmem u = put_bytes dst l (pmem t))" by auto
  have "read_line b (numeral k) (x # xs) = read_line b (Suc (pred_numeral k)) (x # xs)" for b k x xs by (simp add: numeral_eq_Suc)
  then have "read_line True 100 [108, 115, 10] = Some ([108, 115, 10], [])" by simp
  with t(2) [rule_format, of 100 "[108, 115, 10]" "[]" "0x1000"] obtain u where
    "consoleread False 0x1000 100 t = Ret 3 u" "committed (con u) = []" "pmem u = put_bytes 0x1000 [108, 115, 10] (pmem t)" by auto
  then show ?thesis using r t(1) by blast
qed

end
