(* ===== verification/Pagetable.thy ===== *)
theory Pagetable
  imports Vm
begin

text \<open>
  Page tables seen as functions.  A table of kernel/vm.c is a tree of pages; the
  ghost map \<open>pgtab\<close> names its pages by their position.  \<open>pt_inv\<close> says that
  memory holds such a tree, apart from the free list, and \<open>leaf\<close> is the entry
  for a virtual address.  The lemmas say what a store to an entry does to the tree,
  and how \<open>walk\<close> follows and extends it; Mapping_spec builds on them.
\<close>

section \<open>Slots of a page\<close>

definition slot :: "u64 \<Rightarrow> u64 \<Rightarrow> u64" where
  "slot p i = p + 8 * i"

lemma slot_pte_addr: "pte_addr level va pt = slot pt (PX level va)"
  by (simp add: pte_addr_def slot_def)

lemma slot_byte:
  fixes i k :: u64
  assumes "i < 512" and "k < 8"
  shows "unat (8 * i + k) = 8 * unat i + unat k" and "8 * i + k < 4096"
proof -
  have i: "unat i < 512" "unat k < 8" using assms by (simp_all add: word_less_nat_alt)
  then show u: "unat (8 * i + k) = 8 * unat i + unat k" by (simp add: unat_word_ariths)
  show "8 * i + k < 4096" using i by (simp add: word_less_nat_alt u)
qed

lemma slot_in_page: "i < 512 \<Longrightarrow> k < 8 \<Longrightarrow> in_page p (slot p i + k)"
  using in_page_offset [OF slot_byte(2), of i k p] by (simp add: slot_def add.assoc)

lemma store64_slot_frame:
  assumes "i < 512" and "\<not> in_page p x"
  shows "store64 m (slot p i) v x = m x"
proof (rule store64_frame_u64, rule ccontr)
  assume "\<not> 8 \<le> x - slot p i"
  then have "x - slot p i < 8" by (simp add: not_le)
  from slot_in_page [OF assms(1) this, of p] assms(2) show False by simp
qed

lemma slot_apart:
  assumes "i < 512" "j < 512" "i \<noteq> j" "k < 8"
  shows "8 \<le> slot p j + k - slot p i"
proof -
  have u: "unat (8 * j + k) = 8 * unat j + unat k" "unat (8 * i) = 8 * unat i"
    using slot_byte(1) [OF assms(2,4)] slot_byte(1) [OF assms(1), of 0] by simp_all
  have b: "unat i < 512" "unat j < 512" "unat k < 8" "unat i \<noteq> unat j"
    using assms by (simp_all add: word_less_nat_alt word_unat_eq_iff)
  have eq: "slot p j + k - slot p i = (8 * j + k) - 8 * i" by (simp add: slot_def algebra_simps)
  have "8 \<le> unat ((8 * j + k) - 8 * i)"
    using u b by (auto simp: unat_sub_if')
  then show ?thesis unfolding eq by (simp add: word_le_nat_alt)
qed

lemma load64_store_slot:
  assumes "page_aligned p" "page_aligned q" "i < 512" "j < 512"
  shows "load64 (store64 m (slot p i) v) (slot q j) = (if p = q \<and> i = j then v else load64 m (slot q j))"
proof (cases "p = q \<and> i = j")
  case True
  then show ?thesis by (simp add: mem_simps)
next
  case False
  have "store64 m (slot p i) v (slot q j + k) = m (slot q j + k)" if "k < 8" for k
  proof (cases "p = q")
    case True
    then have "i \<noteq> j" using False by simp
    then show ?thesis using True assms(3,4) that by (simp add: store64_frame_u64 slot_apart)
  next
    case ne: False
    have "in_page q (slot q j + k)" using assms(4) that by (rule slot_in_page)
    then have "\<not> in_page p (slot q j + k)" using in_page_disjoint [OF assms(2,1)] ne by blast
    then show ?thesis using assms(3) by (intro store64_slot_frame)
  qed
  then show ?thesis using False by (auto intro: load64_agree_u64)
qed

lemma load64_memset_slot:
  assumes "page_aligned p" "page_aligned q" "j < 512"
  shows "load64 (memset m p 0 (ucast PGSIZE)) (slot q j) = (if p = q then 0 else load64 m (slot q j))"
proof -
  have q: "in_page q (slot q j + k)" if "k < 8" for k using assms(3) that by (rule slot_in_page)
  show ?thesis
  proof (cases "p = q")
    case True
    have "load64 (memset m p 0 (ucast PGSIZE)) (slot q j) = load64 (\<lambda>_. 0) (slot q j)"
      using True q by (intro load64_agree_u64) (simp add: memset_page)
    then show ?thesis using True by (simp add: load_defs)
  next
    case False
    then have "\<not> in_page p (slot q j + k)" if "k < 8" for k
      using in_page_disjoint [OF assms(2,1)] q that by blast
    then show ?thesis using False by (auto intro!: load64_agree_u64 simp: memset_page)
  qed
qed

lemma load64_slot_agree:
  assumes "j < 512" and "\<And>a. in_page q a \<Longrightarrow> m a = n a"
  shows "load64 m (slot q j) = load64 n (slot q j)"
  using assms by (intro load64_agree_u64) (simp add: slot_in_page)

section \<open>Trees of tables\<close>

text \<open>Positions of table pages: the root, below entry \<open>i\<close>, below entries \<open>i\<close> and \<open>j\<close>.\<close>

datatype tkey = K2 | K1 u64 | K0 u64 u64

type_synonym pgtab = "tkey \<Rightarrow> u64 option"

fun child :: "tkey \<Rightarrow> u64 \<Rightarrow> tkey" where
  "child K2 i = K1 i"
| "child (K1 i) j = K0 i j"
| "child (K0 i j) k = K0 i j"

fun inner :: "tkey \<Rightarrow> bool" where
  "inner (K0 _ _) = False"
| "inner _ = True"

text \<open>An entry of an inner table refers to the page below it or is invalid.\<close>

definition entry_ok :: "memory \<Rightarrow> u64 option \<Rightarrow> u64 \<Rightarrow> bool" where
  "entry_ok m c a \<longleftrightarrow> (case c of
       None \<Rightarrow> load64 m a AND PTE_V = 0
     | Some q \<Rightarrow> load64 m a = PA2PTE q OR PTE_V)"

definition pt_tree :: "memory \<Rightarrow> pgtab \<Rightarrow> bool" where
  "pt_tree m T \<longleftrightarrow>
     T K2 \<noteq> None \<and> (\<forall>k p. T k = Some p \<longrightarrow> page_aligned p \<and> p \<noteq> 0)
   \<and> (\<forall>k k' p. T k = Some p \<longrightarrow> T k' = Some p \<longrightarrow> k = k')
   \<and> (\<forall>k p j. inner k \<longrightarrow> T k = Some p \<longrightarrow> j < 512 \<longrightarrow> entry_ok m (T (child k j)) (slot p j))
   \<and> (\<forall>k j. inner k \<longrightarrow> T (child k j) \<noteq> None \<longrightarrow> T k \<noteq> None \<and> j < 512)"

definition pt_inv :: "'z kmem_st_scheme \<Rightarrow> pgtab \<Rightarrow> u64 list \<Rightarrow> bool" where
  "pt_inv s T xs \<longleftrightarrow> kmem_inv s xs \<and> pt_tree (pmem s) T
     \<and> (\<forall>k p. T k = Some p \<longrightarrow> valid_page s p \<and> p \<notin> set xs)"

definition leafkey :: "u64 \<Rightarrow> tkey" where
  "leafkey va = K0 (PX 2 va) (PX 1 va)"

definition leaf :: "memory \<Rightarrow> pgtab \<Rightarrow> u64 \<Rightarrow> u64" where
  "leaf m T va = (case T (leafkey va) of None \<Rightarrow> 0 | Some p \<Rightarrow> load64 m (slot p (PX 0 va)))"

lemma PTE_V_nonzero [simp]: "PTE_V \<noteq> 0"
  by (simp add: PTE_V_def)

lemma PTE2PA_table: "page_aligned q \<Longrightarrow> PTE2PA (PA2PTE q OR PTE_V) = q"
  by (rule PTE2PA_PA2PTE) (simp_all add: PTE_V_def)

lemma tree_frame:
  assumes "pt_tree m T" and "\<And>k p a. T k = Some p \<Longrightarrow> in_page p a \<Longrightarrow> m' a = m a"
  shows "pt_tree m' T" and "leaf m' T = leaf m T"
proof -
  have e: "load64 m' (slot p j) = load64 m (slot p j)" if "T k = Some p" "j < 512" for k p j
    using that assms(2) by (intro load64_slot_agree)
  have "entry_ok m' c (slot p j) = entry_ok m c (slot p j)" if "T k = Some p" "j < 512" for k p j c
    by (simp only: entry_ok_def e [OF that])
  then show "pt_tree m' T"
    using assms(1) unfolding pt_tree_def by (intro conjI) (blast, blast, blast, metis, blast)
  show "leaf m' T = leaf m T"
    using e by (auto simp: fun_eq_iff leaf_def PX_less split: option.splits)
qed

text \<open>A new zeroed table page hung into an invalid entry.\<close>

lemma tree_extend:
  assumes t: "pt_tree m T" and k: "inner k" "T k = Some p" "j < 512" "T (child k j) = None"
    and q: "page_aligned q" "q \<noteq> 0" "\<And>k. T k \<noteq> Some q"
  shows "pt_tree (store64 (memset m q 0 (ucast PGSIZE)) (slot p j) (PA2PTE q OR PTE_V)) (T(child k j \<mapsto> q))"
    (is "pt_tree ?m ?T")
    and "leaf (store64 (memset m q 0 (ucast PGSIZE)) (slot p j) (PA2PTE q OR PTE_V)) (T(child k j \<mapsto> q)) = leaf m T"
proof -
  have al: "page_aligned p'" if "T k' = Some p'" for k' p' using t that by (auto simp: pt_tree_def)
  have inj: "k1 = k2" if "T k1 = Some p'" "T k2 = Some p'" for k1 k2 p' using t that unfolding pt_tree_def by blast
  have up: "T k' \<noteq> None \<and> i < 512" if "inner k'" "T (child k' i) \<noteq> None" for k' i
    using t that unfolding pt_tree_def by blast
  have ld: "load64 ?m (slot p' i) = (if p' = p \<and> i = j then PA2PTE q OR PTE_V else load64 m (slot p' i))"
    if "T k' = Some p'" "i < 512" for k' p' i
    using that q(3) [of k'] al k
    by (subst load64_store_slot) (auto simp: load64_memset_slot q(1))
  have lq: "load64 ?m (slot q i) = 0" if "i < 512" for i
    using that q(1) q(3) [of k] al k by (subst load64_store_slot) (auto simp: load64_memset_slot)
  have ch: "child k' i = child k j \<longleftrightarrow> k' = k \<and> i = j" if "inner k'" for k' i
    using that k(1) by (cases k'; cases k) auto
  have nk: "k \<noteq> child k j" using k(1) by (cases k) auto
  have below: "T (child (child k j) i) = None" if "inner (child k j)" for i
    using up [OF that, of i] k(4) by blast
  show tr: "pt_tree ?m ?T"
    unfolding pt_tree_def
  proof (intro conjI allI impI)
    show "?T K2 \<noteq> None" using t by (auto simp: pt_tree_def)
    fix k' p' assume "?T k' = Some p'"
    then show "page_aligned p'" "p' \<noteq> 0" using t q by (auto simp: pt_tree_def split: if_splits)
  next
    fix k1 k2 p' assume "?T k1 = Some p'" "?T k2 = Some p'"
    then show "k1 = k2" using inj q(3) by (auto split: if_splits)
  next
    fix k' p' and i :: u64 assume a: "inner k'" "?T k' = Some p'" "i < 512"
    show "entry_ok ?m (?T (child k' i)) (slot p' i)"
    proof (cases "k' = child k j")
      case True
      then have "p' = q" "?T (child k' i) = None" using a below nk by (auto simp: ch)
      then show ?thesis using lq a by (simp add: entry_ok_def)
    next
      case False
      then have T: "T k' = Some p'" using a by simp
      then have old: "entry_ok m (T (child k' i)) (slot p' i)" using t a unfolding pt_tree_def by blast
      have pk: "p' = p \<longleftrightarrow> k' = k" using inj T k(2) by auto
      show ?thesis
      proof (cases "k' = k \<and> i = j")
        case True
        then show ?thesis using ld [OF T a(3)] pk by (simp add: entry_ok_def)
      next
        case False
        then have "?T (child k' i) = T (child k' i)" "load64 ?m (slot p' i) = load64 m (slot p' i)"
          using ld [OF T a(3)] pk ch [OF a(1), of i] by auto
        then show ?thesis using old by (simp only: entry_ok_def)
      qed
    qed
  next
    fix k' i assume a: "inner k'" "?T (child k' i) \<noteq> None"
    then show "?T k' \<noteq> None" "i < 512"
      using up [OF a(1), of i] ch [OF a(1), of i] k by (auto split: if_splits)
  qed
  show "leaf ?m ?T = leaf m T"
  proof (rule ext)
    fix va
    show "leaf ?m ?T va = leaf m T va"
    proof (cases "leafkey va = child k j")
      case True
      then show ?thesis using k(4) lq by (simp add: leaf_def PX_less)
    next
      case False
      have "k' \<noteq> leafkey va" if "inner k'" for k' using that by (auto simp: leafkey_def)
      then have "p' \<noteq> p" if "T (leafkey va) = Some p'" for p' using inj that k(1,2) by blast
      then show ?thesis using False ld by (auto simp: leaf_def PX_less split: option.splits)
    qed
  qed
qed

section \<open>walk\<close>

text \<open>
  The new tree has grown by pages taken from the front of the free list; no
  leaf has changed and no byte outside the pages of the tree.
\<close>

definition pt_grow ::
  "'z kmem_st_scheme \<Rightarrow> pgtab \<Rightarrow> u64 list \<Rightarrow> 'z kmem_st_scheme \<Rightarrow> pgtab \<Rightarrow> u64 list \<Rightarrow> bool" where
  "pt_grow s T xs t T' xs' \<longleftrightarrow>
     pt_inv t T' xs' \<and> T \<subseteq>\<^sub>m T' \<and> t = s\<lparr>pmem := pmem t, freelist := freelist t\<rparr>
   \<and> (\<exists>ys. xs = ys @ xs' \<and> (\<forall>k p. T' k = Some p \<longrightarrow> T k = Some p \<or> p \<in> set ys))
   \<and> (\<forall>a. (\<forall>k p. T' k = Some p \<longrightarrow> \<not> in_page p a) \<longrightarrow> pmem t a = pmem s a)"

definition pt_ext ::
  "'z kmem_st_scheme \<Rightarrow> pgtab \<Rightarrow> u64 list \<Rightarrow> 'z kmem_st_scheme \<Rightarrow> pgtab \<Rightarrow> u64 list \<Rightarrow> bool" where
  "pt_ext s T xs t T' xs' \<longleftrightarrow> pt_grow s T xs t T' xs' \<and> leaf (pmem t) T' = leaf (pmem s) T"

lemma pt_ext_refl: "pt_inv s T xs \<Longrightarrow> pt_ext s T xs s T xs"
  by (simp add: pt_ext_def pt_grow_def)

lemma pt_grow_trans:
  assumes 1: "pt_grow s T xs t T' xs'" and 2: "pt_grow t T' xs' u T'' xs''"
  shows "pt_grow s T xs u T'' xs''"
proof -
  have le: "T' \<subseteq>\<^sub>m T''" using 2 by (simp add: pt_grow_def)
  have "T \<subseteq>\<^sub>m T''" using 1 le by (auto simp: pt_grow_def intro: map_le_trans)
  moreover have "u = s\<lparr>pmem := pmem u, freelist := freelist u\<rparr>"
  proof -
    have t: "t = s\<lparr>pmem := pmem t, freelist := freelist t\<rparr>" and u: "u = t\<lparr>pmem := pmem u, freelist := freelist u\<rparr>"
      using 1 2 unfolding pt_grow_def by blast+
    show ?thesis by (subst (1) u, subst t) simp
  qed
  moreover from 1 2 obtain ys zs where "xs = ys @ xs'" "\<forall>k p. T' k = Some p \<longrightarrow> T k = Some p \<or> p \<in> set ys"
      "xs' = zs @ xs''" "\<forall>k p. T'' k = Some p \<longrightarrow> T' k = Some p \<or> p \<in> set zs"
    by (auto simp: pt_grow_def)
  then have "xs = (ys @ zs) @ xs'' \<and> (\<forall>k p. T'' k = Some p \<longrightarrow> T k = Some p \<or> p \<in> set (ys @ zs))"
    by (auto; blast)
  moreover have "pmem u a = pmem s a" if "\<forall>k p. T'' k = Some p \<longrightarrow> \<not> in_page p a" for a
  proof -
    have "\<forall>k p. T' k = Some p \<longrightarrow> \<not> in_page p a"
      using that le by (metis domI map_le_def)
    then show ?thesis using that 1 2 by (simp add: pt_grow_def)
  qed
  moreover have "pt_inv u T'' xs''" using 2 by (simp add: pt_grow_def)
  ultimately show ?thesis unfolding pt_grow_def by blast
qed

lemma pt_ext_trans: "pt_ext s T xs t T' xs' \<Longrightarrow> pt_ext t T' xs' u T'' xs'' \<Longrightarrow> pt_ext s T xs u T'' xs''"
  by (auto simp: pt_ext_def intro: pt_grow_trans)

lemma walk_level_read:
  assumes "pt_tree (pmem s) T" and "inner k" and "T k = Some p"
  shows "walk_level level va False p s = Ret (T (child k (PX level va))) s"
proof -
  have e: "entry_ok (pmem s) (T (child k (PX level va))) (slot p (PX level va))"
    using assms PX_less unfolding pt_tree_def by blast
  show ?thesis
  proof (cases "T (child k (PX level va))")
    case None
    then show ?thesis using e by (simp add: walk_level_def slot_pte_addr entry_ok_def Let_def)
  next
    case (Some q)
    then have "page_aligned q" using assms(1) by (auto simp: pt_tree_def)
    then show ?thesis using e Some by (simp add: walk_level_def slot_pte_addr entry_ok_def Let_def PTE2PA_table)
  qed
qed

lemma walk_level_present:
  assumes "pt_tree (pmem s) T" and "inner k" and "T k = Some p" and "T (child k (PX level va)) = Some q"
  shows "walk_level level va alloc p s = Ret (Some q) s"
proof -
  have "entry_ok (pmem s) (Some q) (slot p (PX level va))"
    using assms PX_less unfolding pt_tree_def by (metis (no_types, lifting))
  moreover have "page_aligned q" using assms(1,4) by (auto simp: pt_tree_def)
  ultimately show ?thesis by (simp add: walk_level_def slot_pte_addr entry_ok_def Let_def PTE2PA_table)
qed

lemma walk_level_absent:
  assumes i: "pt_inv s T xs" and k: "inner k" "T k = Some p" "T (child k (PX level va)) = None"
  shows "if xs = [] then walk_level level va True p s = Ret None s
    else \<exists>t. walk_level level va True p s = Ret (Some (hd xs)) t
      \<and> pt_ext s T xs t (T(child k (PX level va) \<mapsto> hd xs)) (tl xs)"
proof -
  let ?j = "PX level va"
  have tr: "pt_tree (pmem s) T" and km: "kmem_inv s xs" using i by (auto simp: pt_inv_def)
  have "entry_ok (pmem s) None (slot p ?j)"
    using tr k PX_less unfolding pt_tree_def by (metis (no_types, lifting))
  then have nv: "load64 (pmem s) (slot p ?j) AND PTE_V = 0" by (simp add: entry_ok_def)
  show ?thesis
  proof (cases xs)
    case Nil
    then show ?thesis using nv km kalloc_nil [of s] by (simp add: walk_level_def slot_pte_addr Let_def kbind_def kret_def)
  next
    case (Cons q ys)
    obtain u where u: "kalloc s = Ret q u" "kmem_inv u ys" "kend u = kend s"
        "\<forall>a. pmem u a = (if in_page q a then 5 else pmem s a)"
      using kalloc_cons [OF km [unfolded Cons]] by (elim exE conjE) (rule that)
    have u': "u = s\<lparr>freelist := freelist u, pmem := pmem u\<rparr>"
    proof -
      have "freelist s = q" "q \<noteq> 0" "KmemLock \<notin> set (locks s)" using km Cons by (auto simp: kmem_inv_def)
      then have "u = s\<lparr>freelist := load64 (pmem s) q, pmem := memset (pmem s) q 5 (ucast PGSIZE)\<rparr>"
        using u(1) kalloc_eq [of s] by simp
      then show ?thesis by simp
    qed
    have q: "page_aligned q" "q \<noteq> 0" "valid_page s q" "q \<notin> set ys"
      using km Cons kmem.nonzero [OF km, of q] by (auto simp: kmem_inv_def valid_page_def)
    have nq: "T k' \<noteq> Some q" for k' using i Cons by (auto simp: pt_inv_def)
    have al: "page_aligned p'" if "T k' = Some p'" for k' p' using tr that by (auto simp: pt_tree_def)
    have fr: "pmem u a = pmem s a" if "T k' = Some p'" "in_page p' a" for k' p' a
      using u(4) that in_page_disjoint [OF al [OF that(1)] q(1)] nq [of k'] by auto
    have tu: "pt_tree (pmem u) T" "leaf (pmem u) T = leaf (pmem s) T"
      using tree_frame [OF tr, of "pmem u"] fr by blast+
    let ?m = "store64 (memset (pmem u) q 0 (ucast PGSIZE)) (slot p ?j) (PA2PTE q OR PTE_V)"
    let ?t = "u\<lparr>pmem := ?m\<rparr>" and ?T = "T(child k ?j \<mapsto> q)"
    have w: "walk_level level va True p s = Ret (Some q) ?t"
      using nv u(1) q(2) by (simp add: walk_level_def slot_pte_addr Let_def kbind_def kthen_def kput_def kret_def)
    have tree: "pt_tree ?m ?T" "leaf ?m ?T = leaf (pmem s) T"
      using tree_extend [OF tu(1) k(1,2) PX_less k(3) q(1,2) nq] tu(2) by simp_all
    have out: "?m a = pmem u a" if "\<not> in_page q a" "\<not> in_page p a" for a
      using that PX_less by (simp add: store64_slot_frame memset_page)
    have "freelist_at ?m (freelist u) ys"
    proof (rule freelist_at_agree [of "pmem u"])
      show "freelist_at (pmem u) (freelist u) ys" using u(2) by (simp add: kmem_inv_def)
      fix x a assume x: "x \<in> set ys" "in_page x a"
      have "page_aligned x" "x \<noteq> q" "x \<noteq> p"
        using x(1) u(2) q(4) i k(2) Cons by (auto simp: kmem_inv_def valid_page_def pt_inv_def)
      then show "?m a = pmem u a"
        using out in_page_disjoint [of x q a] in_page_disjoint [of x p a] x(2) q(1) al [OF k(2)] by blast
    qed
    then have "kmem_inv ?t ys" using u(2) by (simp add: kmem_inv_def valid_page_def)
    moreover have "valid_page ?t p' \<and> p' \<notin> set ys" if "?T k' = Some p'" for k' p'
      using that i q u(3) Cons by (auto simp: pt_inv_def valid_page_def split: if_splits)
    ultimately have inv: "pt_inv ?t ?T ys" using tree(1) by (simp add: pt_inv_def)
    have "pt_ext s T xs ?t ?T ys"
      unfolding pt_ext_def pt_grow_def
    proof (intro conjI)
      show "T \<subseteq>\<^sub>m ?T" using k(3) by (auto simp: map_le_def)
      show "\<exists>zs. xs = zs @ ys \<and> (\<forall>k p. ?T k = Some p \<longrightarrow> T k = Some p \<or> p \<in> set zs)"
        using Cons by (intro exI [of _ "[q]"]) auto
      show "?t = s\<lparr>pmem := pmem ?t, freelist := freelist ?t\<rparr>" by (subst u') simp
      show "\<forall>a. (\<forall>k p. ?T k = Some p \<longrightarrow> \<not> in_page p a) \<longrightarrow> pmem ?t a = pmem s a"
      proof (intro allI impI)
        fix a assume a: "\<forall>k p. ?T k = Some p \<longrightarrow> \<not> in_page p a"
        have "\<not> in_page q a" using a [rule_format, of "child k ?j"] by simp
        moreover have "\<not> in_page p a" using a [rule_format, of k p] k by (cases k) auto
        ultimately show "pmem ?t a = pmem s a" using out u(4) by simp
      qed
    qed (use inv tree(2) in simp_all)
    then show ?thesis using w Cons by auto
  qed
qed

end
