(* ===== verification/Mapping_spec.thy ===== *)
theory Mapping_spec
  imports Pagetable
begin

text \<open>
  \<open>walk\<close> and \<open>mappages\<close> of kernel/vm.c as lookup and update of the function \<open>leaf\<close>, the
  entry of each virtual address.
\<close>

section \<open>Indices determine the page\<close>

lemma PX_nat: "unat (PX level va) = unat va div 2 ^ (12 + 9 * level) mod 512"
proof -
  have "PX level va = take_bit 9 (drop_bit (12 + 9 * level) va)"
    by (simp add: PX_def PXSHIFT_def take_bit_eq_mask mask_eq_decr_exp)
  then have "unat (PX level va) = take_bit 9 (drop_bit (12 + 9 * level) (take_bit 64 (unat va)))"
    by (simp only: unsigned_take_bit_eq unsigned_drop_bit_eq) simp
  moreover have "take_bit 64 (unat va) = unat va" using u64_bound [of va] by (simp add: take_bit_nat_eq_self)
  ultimately show ?thesis by (simp add: take_bit_eq_mod drop_bit_eq_div)
qed

lemma PX_inj:
  assumes "va < MAXVA" "vb < MAXVA" "PX 2 va = PX 2 vb" "PX 1 va = PX 1 vb" "PX 0 va = PX 0 vb"
  shows "PGROUNDDOWN va = PGROUNDDOWN vb"
proof -
  have b: "unat va < 2 ^ 38" "unat vb < 2 ^ 38" using assms(1,2) by (simp_all add: word_less_nat_alt MAXVA_val)
  have d: "x div 4096 = x div 4096 mod 512 + 512 * (x div 2097152 mod 512) + 262144 * (x div 1073741824 mod 512)" if "x < 2 ^ 38" for x :: nat
  proof -
    have "x div 1073741824 < 512" using that by (simp add: less_mult_imp_div_less)
    moreover have "x div 2097152 = x div 4096 div 512" "x div 1073741824 = x div 4096 div 512 div 512" by (simp_all add: div_mult2_eq [symmetric])
    moreover have "a = r + 512 * q + 262144 * (c mod 512)" if "a = r + 512 * b" "b = q + 512 * c" "c < 512" for a b c q r :: nat
      using that by simp
    ultimately show ?thesis by (metis mod_mult_div_eq)
  qed
  have "unat (PX 0 va) = unat (PX 0 vb)" "unat (PX 1 va) = unat (PX 1 vb)" "unat (PX 2 va) = unat (PX 2 vb)" using assms(3-5) by simp_all
  then have "unat va div 4096 = unat vb div 4096" using d [OF b(1)] d [OF b(2)] by (simp add: PX_nat)
  then show ?thesis by (simp add: word_unat_eq_iff unat_PGROUNDDOWN)
qed

text \<open>Two addresses have the same entry.\<close>

definition same_pte :: "u64 \<Rightarrow> u64 \<Rightarrow> bool" where
  "same_pte va vb \<longleftrightarrow> leafkey va = leafkey vb \<and> PX 0 va = PX 0 vb"

lemma same_pte_page: "va < MAXVA \<Longrightarrow> vb < MAXVA \<Longrightarrow> same_pte va vb \<longleftrightarrow> PGROUNDDOWN va = PGROUNDDOWN vb"
proof
  assume "va < MAXVA" "vb < MAXVA" "same_pte va vb"
  then show "PGROUNDDOWN va = PGROUNDDOWN vb" by (auto simp: same_pte_def leafkey_def intro: PX_inj)
next
  assume "PGROUNDDOWN va = PGROUNDDOWN vb"
  then have "unat va div 4096 = unat vb div 4096" by (simp add: word_unat_eq_iff unat_PGROUNDDOWN)
  then have "unat va div 2 ^ (12 + 9 * l) = unat vb div 2 ^ (12 + 9 * l)" for l
    by (simp add: power_add div_mult2_eq)
  then have "PX l va = PX l vb" for l by (simp add: word_unat_eq_iff PX_nat)
  then show "same_pte va vb" by (simp add: same_pte_def leafkey_def)
qed

section \<open>walk\<close>

lemma slot_nonzero: "page_aligned p \<Longrightarrow> p \<noteq> 0 \<Longrightarrow> i < 512 \<Longrightarrow> slot p i \<noteq> 0"
  using slot_in_page [of i 0 p] in_page_disjoint [of p 0 0] by auto

lemma pt_page: "pt_inv s T xs \<Longrightarrow> T k = Some p \<Longrightarrow> page_aligned p \<and> p \<noteq> 0 \<and> valid_page s p \<and> p \<notin> set xs"
  unfolding pt_inv_def pt_tree_def by blast

lemma walk_read:
  assumes t: "pt_tree (pmem s) T" and r: "T K2 = Some root" and va: "va < MAXVA"
  shows "walk root va False s = Ret (case T (leafkey va) of None \<Rightarrow> 0 | Some p \<Rightarrow> slot p (PX 0 va)) s"
proof -
  have 2: "walk_level 2 va False root s = Ret (T (K1 (PX 2 va))) s" using walk_level_read [OF t _ r, of 2 va] by simp
  show ?thesis
  proof (cases "T (K1 (PX 2 va))")
    case None
    have "T (child (K1 (PX 2 va)) j) = None" for j using t None unfolding pt_tree_def by (metis inner.simps(3))
    from this [of "PX 1 va"] show ?thesis using 2 None va by (simp add: walk_def leafkey_def kret_def not_le [symmetric])
  next
    case (Some p)
    have "walk_level 1 va False p s = Ret (T (K0 (PX 2 va) (PX 1 va))) s" using walk_level_read [OF t _ Some, of 1 va] by simp
    then show ?thesis using 2 Some va by (auto simp: walk_def leafkey_def kret_def slot_pte_addr not_le [symmetric] split: option.splits)
  qed
qed

text \<open>One level, with a page from the free list where there is none.\<close>

lemma walk_level_alloc:
  assumes i: "pt_inv s T xs" and k: "inner k" "T k = Some p"
  shows "\<exists>r t T' xs'. walk_level level va True p s = Ret r t \<and> pt_ext s T xs t T' xs'
    \<and> (case r of None \<Rightarrow> xs' = [] | Some q \<Rightarrow> T' (child k (PX level va)) = Some q)"
proof (cases "T (child k (PX level va))")
  case None
  show ?thesis
  proof (cases xs)
    case Nil
    then show ?thesis using walk_level_absent [OF i k None] pt_ext_refl [OF i] by (intro exI [of _ None]) auto
  next
    case (Cons q ys)
    then obtain t where "walk_level level va True p s = Ret (Some q) t" "pt_ext s T xs t (T(child k (PX level va) \<mapsto> q)) ys"
      using walk_level_absent [OF i k None] by auto
    then show ?thesis by (intro exI [of _ "Some q"] exI [of _ t] exI [of _ "T(child k (PX level va) \<mapsto> q)"] exI [of _ ys]) simp
  qed
next
  case (Some q)
  have "pt_tree (pmem s) T" using i by (simp add: pt_inv_def)
  then have "walk_level level va True p s = Ret (Some q) s" using k Some by (rule walk_level_present)
  then show ?thesis using Some pt_ext_refl [OF i] by (intro exI [of _ "Some q"] exI [of _ s] exI [of _ T] exI [of _ xs]) simp
qed

lemma pt_ext_inv: "pt_ext s T xs t T' xs' \<Longrightarrow> pt_inv t T' xs'" "pt_ext s T xs t T' xs' \<Longrightarrow> T k = Some p \<Longrightarrow> T' k = Some p"
  unfolding pt_ext_def pt_grow_def map_le_def by blast (metis domI)

lemma walk_alloc:
  assumes i: "pt_inv s T xs" and r: "T K2 = Some root" and va: "va < MAXVA"
  shows "\<exists>a t T' xs'. walk root va True s = Ret a t \<and> pt_ext s T xs t T' xs'
    \<and> (if a = 0 then xs' = [] else \<exists>p. T' (leafkey va) = Some p \<and> a = slot p (PX 0 va))"
proof -
  have ik: "inner K2" "inner (K1 x)" for x by simp_all
  obtain r2 t2 T2 xs2 where 2: "walk_level 2 va True root s = Ret r2 t2" "pt_ext s T xs t2 T2 xs2"
    "case r2 of None \<Rightarrow> xs2 = [] | Some q \<Rightarrow> T2 (child K2 (PX 2 va)) = Some q"
    using walk_level_alloc [OF i ik(1) r, of 2 va] by blast
  show ?thesis
  proof (cases r2)
    case None
    then show ?thesis using 2 va by (intro exI [of _ 0]) (auto simp: walk_def kret_def not_le [symmetric])
  next
    case (Some q)
    then have q: "T2 (K1 (PX 2 va)) = Some q" using 2 by simp
    obtain r1 t1 T1 xs1 where 1: "walk_level 1 va True q t2 = Ret r1 t1" "pt_ext t2 T2 xs2 t1 T1 xs1"
      "case r1 of None \<Rightarrow> xs1 = [] | Some q \<Rightarrow> T1 (child (K1 (PX 2 va)) (PX 1 va)) = Some q"
      using walk_level_alloc [OF pt_ext_inv(1) [OF 2(2)] ik(2) q, of 1 va] by blast
    have e: "pt_ext s T xs t1 T1 xs1" using 2(2) 1(2) by (rule pt_ext_trans)
    show ?thesis
    proof (cases r1)
      case None
      then show ?thesis using 1 2 Some e va by (intro exI [of _ 0] exI [of _ t1] exI [of _ T1] exI [of _ xs1]) (simp add: walk_def kret_def not_le [symmetric])
    next
      case (Some p)
      then have p: "T1 (leafkey va) = Some p" using 1 by (simp add: leafkey_def)
      then have "slot p (PX 0 va) \<noteq> 0" using pt_page [OF pt_ext_inv(1) [OF e] p] by (intro slot_nonzero PX_less) simp_all
      then show ?thesis using 1 2 Some \<open>r2 = Some q\<close> e va p
        by (intro exI [of _ "slot p (PX 0 va)"] exI [of _ t1] exI [of _ T1] exI [of _ xs1]) (simp add: walk_def kret_def slot_pte_addr not_le [symmetric])
    qed
  qed
qed

section \<open>Setting an entry\<close>

lemma pt_set:
  assumes i: "pt_inv s T xs" and p: "T (leafkey va) = Some p"
    and t_def: "t = s\<lparr>pmem := store64 (pmem s) (slot p (PX 0 va)) v\<rparr>"
  shows "pt_grow s T xs t T xs"
    and "leaf (pmem t) T vb = (if same_pte vb va then v else leaf (pmem s) T vb)"
proof -
  let ?m = "store64 (pmem s) (slot p (PX 0 va)) v"
  have tr: "pt_tree (pmem s) T" using i by (simp add: pt_inv_def)
  have inj: "k = k'" if "T k = Some q" "T k' = Some q" for k k' q using tr that unfolding pt_tree_def by blast
  have ld: "load64 ?m (slot q j) = (if q = p \<and> j = PX 0 va then v else load64 (pmem s) (slot q j))" if "T k = Some q" "j < 512" for k q j
    using that pt_page [OF i that(1)] pt_page [OF i p] PX_less by (subst load64_store_slot) auto
  have e: "entry_ok ?m c (slot q j) = entry_ok (pmem s) c (slot q j)" if "inner k" "T k = Some q" "j < 512" for k q j c
  proof -
    have "q \<noteq> p" using inj [of k q "leafkey va"] that p by (auto simp: leafkey_def)
    then show ?thesis using ld [OF that(2,3)] by (simp add: entry_ok_def split: option.split)
  qed
  have tree: "pt_tree ?m T" using tr e unfolding pt_tree_def by (intro conjI) (blast, blast, blast, metis, blast)
  have fr: "?m a = pmem s a" if "\<not> in_page p a" for a using store64_slot_frame [OF PX_less that] .
  have "freelist_at ?m (freelist s) xs"
  proof (rule freelist_at_agree [of "pmem s"])
    show "freelist_at (pmem s) (freelist s) xs" using i by (simp add: pt_inv_def kmem_inv_def)
    fix x a assume x: "x \<in> set xs" "in_page x a"
    have "page_aligned x" using i x(1) by (auto simp: pt_inv_def kmem_inv_def valid_page_def)
    then show "?m a = pmem s a" using fr in_page_disjoint [of x p a] x pt_page [OF i p] by blast
  qed
  then have "kmem_inv t xs" using i by (auto simp: t_def pt_inv_def kmem_inv_def valid_page_def)
  then have "pt_inv t T xs" using i tree unfolding pt_inv_def by (auto simp: t_def valid_page_def)
  then show "pt_grow s T xs t T xs" using fr p unfolding pt_grow_def by (auto simp: t_def)
  show "leaf (pmem t) T vb = (if same_pte vb va then v else leaf (pmem s) T vb)"
  proof (cases "T (leafkey vb)")
    case None
    then show ?thesis using p by (auto simp: leaf_def same_pte_def)
  next
    case (Some q)
    then show ?thesis using ld [OF Some PX_less] inj [of "leafkey vb" q "leafkey va"] p by (auto simp: t_def leaf_def same_pte_def)
  qed
qed

section \<open>mappages\<close>

text \<open>The entry that \<open>mappages\<close> writes for the page \<open>k\<close> of its range, and the leaves after it.\<close>

definition mapped_pte :: "u64 \<Rightarrow> u64 \<Rightarrow> nat \<Rightarrow> u64" where
  "mapped_pte pa perm k = PA2PTE (pa + of_nat k * PGSIZE) OR perm OR PTE_V"

definition map_leaf :: "(u64 \<Rightarrow> u64) \<Rightarrow> u64 \<Rightarrow> nat \<Rightarrow> u64 \<Rightarrow> u64 \<Rightarrow> u64 \<Rightarrow> u64" where
  "map_leaf f va n pa perm vb =
     (if unat va div 4096 \<le> unat vb div 4096 \<and> unat vb div 4096 < unat va div 4096 + n
      then mapped_pte pa perm (unat vb div 4096 - unat va div 4096) else f vb)"

lemma map_leaf_0 [simp]: "map_leaf f va 0 pa perm = f"
  by (auto simp: map_leaf_def fun_eq_iff)

lemma map_leaf_Suc:
  assumes "page_aligned va" "unat va + 4096 * Suc n \<le> 2 ^ 38" "vb < MAXVA"
  shows "map_leaf (\<lambda>vb. if same_pte vb va then PA2PTE pa OR perm OR PTE_V else f vb) (va + PGSIZE) n (pa + PGSIZE) perm vb
    = map_leaf f va (Suc n) pa perm vb"
proof -
  have u: "unat (va + PGSIZE) = unat va + 4096" using assms(2) by (simp add: PGSIZE_def unat_word_ariths)
  then have d: "unat (va + PGSIZE) div 4096 = Suc (unat va div 4096)" by simp
  have va: "va < MAXVA" using assms(2) by (simp add: word_less_nat_alt MAXVA_val)
  have s: "same_pte vb va \<longleftrightarrow> unat vb div 4096 = unat va div 4096"
    using same_pte_page [OF assms(3) va] by (simp add: word_unat_eq_iff unat_PGROUNDDOWN)
  have m: "mapped_pte (pa + PGSIZE) perm k = mapped_pte pa perm (Suc k)" for k by (simp add: mapped_pte_def algebra_simps)
  have z: "mapped_pte pa perm 0 = PA2PTE pa OR perm OR PTE_V" by (simp add: mapped_pte_def)
  show ?thesis
  proof (cases "unat vb div 4096 = unat va div 4096")
    case True
    then show ?thesis by (simp add: map_leaf_def d s z)
  next
    case False
    then show ?thesis by (auto simp: map_leaf_def d s m Suc_diff_Suc)
  qed
qed

lemma mappages_loop_spec:
  assumes "pt_inv s T xs" "T K2 = Some root" "page_aligned va" "0 < n" "unat va + 4096 * n \<le> 2 ^ 38"
    and "\<And>vb. unat va div 4096 \<le> unat vb div 4096 \<Longrightarrow> unat vb div 4096 < unat va div 4096 + n \<Longrightarrow> leaf (pmem s) T vb AND PTE_V = 0"
  shows "\<exists>r t T' xs' k. mappages_loop n root va (va + of_nat (n - 1) * PGSIZE) pa perm s = Ret r t
    \<and> pt_grow s T xs t T' xs' \<and> k \<le> n \<and> (\<forall>vb < MAXVA. leaf (pmem t) T' vb = map_leaf (leaf (pmem s) T) va k pa perm vb)
    \<and> (if r = 0 then k = n else r = - 1 \<and> xs' = [])"
  using assms
proof (induction n arbitrary: s T xs va pa)
  case (Suc n)
  note u = u64_bound
  have va: "va < MAXVA" using Suc.prems(5) by (simp add: word_less_nat_alt MAXVA_val)
  obtain a t T1 xs1 where w: "walk root va True s = Ret a t" "pt_ext s T xs t T1 xs1"
    "if a = 0 then xs1 = [] else \<exists>p. T1 (leafkey va) = Some p \<and> a = slot p (PX 0 va)"
    using walk_alloc [OF Suc.prems(1,2) va] by blast
  have g1: "pt_grow s T xs t T1 xs1" "leaf (pmem t) T1 = leaf (pmem s) T" "pt_inv t T1 xs1" "T1 K2 = Some root"
    using w(2) pt_ext_inv [OF w(2)] Suc.prems(2) unfolding pt_ext_def by blast+
  show ?case
  proof (cases "a = 0")
    case True
    then show ?thesis using w g1 by (intro exI [of _ "- 1"] exI [of _ t] exI [of _ T1] exI [of _ xs1] exI [of _ 0]) simp
  next
    case False
    then obtain p where p: "T1 (leafkey va) = Some p" "a = slot p (PX 0 va)" using w(3) by auto
    have nv: "load64 (pmem t) a AND PTE_V = 0" using Suc.prems(6) [of va] g1(2) p by (simp add: leaf_def fun_eq_iff) (metis option.simps(5))
    let ?v = "PA2PTE pa OR perm OR PTE_V"
    define t2 where "t2 = t\<lparr>pmem := store64 (pmem t) (slot p (PX 0 va)) ?v\<rparr>"
    note g2 = pt_set [OF g1(3) p(1) t2_def]
    have l2: "leaf (pmem t2) T1 = (\<lambda>vb. if same_pte vb va then ?v else leaf (pmem s) T vb)" using g2(2) g1(2) by auto
    have g: "pt_grow s T xs t2 T1 xs1" using g1(1) g2(1) by (rule pt_grow_trans)
    have st: "mappages_loop (Suc n) root va l pa perm s = (if va = l then Ret 0 t2 else mappages_loop n root (va + PGSIZE) l (pa + PGSIZE) perm t2)" for l
      using w(1) False nv p(2) by (simp add: store_pte_def t2_def kret_def)
    show ?thesis
    proof (cases n)
      case 0
      have "leaf (pmem t2) T1 vb = map_leaf (leaf (pmem s) T) va 1 pa perm vb" if "vb < MAXVA" for vb
        using map_leaf_Suc [OF Suc.prems(3) _ that, of 0] Suc.prems(5) l2 0 by simp
      then show ?thesis using 0 st g by (intro exI [of _ 0] exI [of _ t2] exI [of _ T1] exI [of _ xs1] exI [of _ 1]) simp
    next
      case (Suc m)
      have up: "unat (va + PGSIZE) = unat va + 4096" using Suc.prems(5) by (simp add: PGSIZE_def unat_word_ariths)
      have last: "va + of_nat (Suc n - 1) * PGSIZE = va + PGSIZE + of_nat (n - 1) * PGSIZE" using Suc by (simp add: algebra_simps)
      have "of_nat n * PGSIZE \<noteq> (0 :: u64)"
        using Suc.prems(5) Suc by (simp add: PGSIZE_def word_unat_eq_iff unat_word_ariths unat_of_nat)
      then have ne: "va \<noteq> va + of_nat (Suc n - 1) * PGSIZE" by simp
      have "\<exists>r u T' xs' k. mappages_loop n root (va + PGSIZE) (va + PGSIZE + of_nat (n - 1) * PGSIZE) (pa + PGSIZE) perm t2 = Ret r u
        \<and> pt_grow t2 T1 xs1 u T' xs' \<and> k \<le> n
        \<and> (\<forall>vb < MAXVA. leaf (pmem u) T' vb = map_leaf (leaf (pmem t2) T1) (va + PGSIZE) k (pa + PGSIZE) perm vb)
        \<and> (if r = 0 then k = n else r = - 1 \<and> xs' = [])"
      proof (rule Suc.IH)
        show "pt_inv t2 T1 xs1" using g2(1) unfolding pt_grow_def by blast
        show "T1 K2 = Some root" by (fact g1)
        show "page_aligned (va + PGSIZE)" using Suc.prems(3) up by (simp add: page_aligned_nat)
        show "0 < n" using Suc by simp
        show "unat (va + PGSIZE) + 4096 * n \<le> 2 ^ 38" using Suc.prems(5) up by simp
        fix vb :: u64 assume vb: "unat (va + PGSIZE) div 4096 \<le> unat vb div 4096" "unat vb div 4096 < unat (va + PGSIZE) div 4096 + n"
        have "unat vb div 4096 < 2 ^ 26" using vb(2) up Suc.prems(5) by simp
        then have "vb < MAXVA" by (simp add: word_less_nat_alt MAXVA_val)
        then have "\<not> same_pte vb va" using same_pte_page [of vb va] va vb(1) up by (simp add: word_unat_eq_iff unat_PGROUNDDOWN)
        then show "leaf (pmem t2) T1 vb AND PTE_V = 0" using l2 Suc.prems(6) [of vb] vb up by simp
      qed
      then obtain r u T' xs' k where r: "mappages_loop n root (va + PGSIZE) (va + PGSIZE + of_nat (n - 1) * PGSIZE) (pa + PGSIZE) perm t2 = Ret r u"
        "pt_grow t2 T1 xs1 u T' xs'" "k \<le> n" "if r = 0 then k = n else r = - 1 \<and> xs' = []"
        "\<forall>vb < MAXVA. leaf (pmem u) T' vb = map_leaf (leaf (pmem t2) T1) (va + PGSIZE) k (pa + PGSIZE) perm vb" by blast
      have "leaf (pmem u) T' vb = map_leaf (leaf (pmem s) T) va (Suc k) pa perm vb" if "vb < MAXVA" for vb
        using map_leaf_Suc [OF Suc.prems(3) _ that, of k] r(3,5) that Suc.prems(5) l2 by simp
      moreover have "mappages_loop (Suc n) root va (va + of_nat (Suc n - 1) * PGSIZE) pa perm s = Ret r u"
        using st [of "va + of_nat (Suc n - 1) * PGSIZE"] ne r(1) unfolding last by (simp del: mappages_loop.simps)
      ultimately show ?thesis using r(3,4) pt_grow_trans [OF g r(2)]
        by (intro exI [of _ r] exI [of _ u] exI [of _ T'] exI [of _ xs'] exI [of _ "Suc k"]) (simp del: mappages_loop.simps)
    qed
  qed
qed simp

section \<open>The property\<close>

text \<open>
  C23: \<open>mappages\<close> on a page table that does not map the range yet returns.  If it
  returns 0, exactly the pages of the range are mapped, page \<open>k\<close> to the physical page
  \<open>pa + k * PGSIZE\<close> with the permissions asked for, and every other entry is as it was;
  if it returns -1, the free list is exhausted and a first part of the range is mapped.
  The table stays a tree whose new pages come from the free list, and no byte outside
  the pages of the tree and those taken changes.
\<close>

theorem mappages_correct:
  assumes "pt_inv s T xs" and "T K2 = Some root" and "va mod PGSIZE = 0" and "sz mod PGSIZE = 0" and "sz \<noteq> 0"
    and "unat va + unat sz \<le> unat MAXVA"
    and "\<forall>vb. va \<le> vb \<and> unat vb < unat va + unat sz \<longrightarrow> leaf (pmem s) T vb AND PTE_V = 0"
  shows "\<exists>r t T' xs' k. mappages root va sz pa perm s = Ret r t \<and> pt_grow s T xs t T' xs'
    \<and> (r = 0 \<and> k = unat sz div 4096 \<or> r = - 1 \<and> k \<le> unat sz div 4096 \<and> xs' = [])
    \<and> (\<forall>vb < MAXVA. leaf (pmem t) T' vb =
         (if va \<le> vb \<and> unat vb < unat va + 4096 * k
          then PA2PTE (pa + (PGROUNDDOWN vb - va)) OR perm OR PTE_V else leaf (pmem s) T vb))"
proof -
  let ?n = "unat sz div 4096"
  have al: "page_aligned va" "4096 dvd unat va" "4096 dvd unat sz" using assms(3,4) page_aligned_nat by (auto simp: page_aligned_def)
  have "0 < unat sz" using assms(5) by (simp add: unat_gt_0)
  then have sz: "unat sz = 4096 * ?n" "0 < ?n" "unat (sz div PGSIZE) = ?n" using al(3) by (auto simp: PGSIZE_def unat_div unat_eq_zero elim!: dvdE)
  have last: "va + sz - PGSIZE = va + of_nat (?n - 1) * PGSIZE"
  proof -
    have "sz = of_nat (unat sz)" by simp
    also have "\<dots> = of_nat ?n * PGSIZE" by (subst sz(1)) (simp add: PGSIZE_def)
    also have "of_nat ?n = (of_nat (?n - 1) + 1 :: u64)" using sz(2) by (metis Suc_pred' of_nat_Suc add.commute)
    finally show ?thesis by (simp add: algebra_simps)
  qed
  have range: "va \<le> vb \<and> unat vb < unat va + 4096 * k \<longleftrightarrow> unat va div 4096 \<le> unat vb div 4096 \<and> unat vb div 4096 < unat va div 4096 + k" for vb k
    using al(2) by (auto simp: word_le_nat_alt elim!: dvdE)
  have un: "leaf (pmem s) T vb AND PTE_V = 0"
    if "unat va div 4096 \<le> unat vb div 4096" "unat vb div 4096 < unat va div 4096 + ?n" for vb
    using assms(7) range [of vb ?n] that sz(1) by metis
  have b: "unat va + 4096 * ?n \<le> 2 ^ 38" using assms(6) sz(1) by (simp add: MAXVA_val)
  obtain r t T' xs' k where r: "mappages_loop ?n root va (va + of_nat (?n - 1) * PGSIZE) pa perm s = Ret r t" "pt_grow s T xs t T' xs'" "k \<le> ?n"
    "\<forall>vb < MAXVA. leaf (pmem t) T' vb = map_leaf (leaf (pmem s) T) va k pa perm vb" "if r = 0 then k = ?n else r = - 1 \<and> xs' = []"
    using mappages_loop_spec [OF assms(1,2) al(1) sz(2) b un] by blast
  have m: "mappages root va sz pa perm s = Ret r t" using assms(3-5) r(1) unfolding mappages_def last sz(3) by simp
  have e: "mapped_pte pa perm (unat vb div 4096 - unat va div 4096) = PA2PTE (pa + (PGROUNDDOWN vb - va)) OR perm OR PTE_V"
    if "unat va div 4096 \<le> unat vb div 4096" for vb
  proof -
    have "PGROUNDDOWN vb - va = of_nat (unat vb div 4096 - unat va div 4096) * PGSIZE"
    proof -
      have f: "PGROUNDDOWN x = of_nat (unat x div 4096) * PGSIZE" for x
      proof -
        have "PGROUNDDOWN x = of_nat (unat (PGROUNDDOWN x))" by simp
        also have "\<dots> = of_nat (unat x div 4096) * PGSIZE" unfolding unat_PGROUNDDOWN by (simp add: PGSIZE_def)
        finally show ?thesis .
      qed
      show ?thesis using f [of vb] f [of va] PGROUNDDOWN_id [OF al(1)] that by (simp add: of_nat_diff algebra_simps)
    qed
    then show ?thesis by (simp add: mapped_pte_def)
  qed
  have "leaf (pmem t) T' vb = (if va \<le> vb \<and> unat vb < unat va + 4096 * k
      then PA2PTE (pa + (PGROUNDDOWN vb - va)) OR perm OR PTE_V else leaf (pmem s) T vb)" if "vb < MAXVA" for vb
    using r(4) that e [of vb] range [of vb k] by (auto simp: map_leaf_def)
  then show ?thesis using m r(2,3,5) by (intro exI [of _ r] exI [of _ t] exI [of _ T'] exI [of _ xs'] exI [of _ k]) (auto split: if_splits)
qed

text \<open>Three pages of memory: an empty table and two free pages.\<close>

definition ex_vm :: kmem_st where
  "ex_vm = \<lparr>locks = [], uart_out = [], panicking = False, panicked = False,
     pmem = store64 (\<lambda>_. 0) 0x87FFE000 0x87FFF000, freelist = 0x87FFE000, kend = 0x87FFD000\<rparr>"

lemma ex_vm_slot: "page_aligned q \<Longrightarrow> q \<noteq> 0x87FFE000 \<Longrightarrow> j < 512 \<Longrightarrow> load64 (pmem ex_vm) (slot q j) = 0"
  using load64_store_slot [of "0x87FFE000" q 0 j "\<lambda>_. 0" "0x87FFF000"]
  by (simp add: ex_vm_def slot_def page_aligned_def PGSIZE_def load_defs)

lemma ex_vm_ok: "pt_inv ex_vm [K2 \<mapsto> 0x87FFD000] [0x87FFE000, 0x87FFF000]"
proof -
  have z: "load64 (pmem ex_vm) 0x87FFF000 = 0" using ex_vm_slot [of "0x87FFF000" 0] by (simp add: slot_def page_aligned_def PGSIZE_def)
  have "kmem_inv ex_vm [0x87FFE000, 0x87FFF000]" using z
    by (simp add: kmem_inv_def ex_vm_def valid_page_def page_aligned_def PGSIZE_def PHYSTOP_val mem_simps)
  moreover have "pt_tree (pmem ex_vm) [K2 \<mapsto> 0x87FFD000]"
    using ex_vm_slot [of "0x87FFD000"] by (auto simp: pt_tree_def entry_ok_def page_aligned_def PGSIZE_def split: if_splits elim!: inner.elims)
  ultimately show ?thesis by (auto simp: pt_inv_def ex_vm_def valid_page_def page_aligned_def PGSIZE_def PHYSTOP_val split: if_splits)
qed

theorem mappages_correct_witness:
  "\<exists>r t T' xs' k. mappages 0x87FFD000 0x1000 0x1000 0x80000000 (PTE_R OR PTE_X) ex_vm = Ret r t
    \<and> pt_grow ex_vm [K2 \<mapsto> 0x87FFD000] [0x87FFE000, 0x87FFF000] t T' xs'
    \<and> (r = 0 \<and> k = 1 \<or> r = - 1 \<and> k \<le> 1 \<and> xs' = [])
    \<and> (\<forall>vb < MAXVA. leaf (pmem t) T' vb = (if 0x1000 \<le> vb \<and> unat vb < 0x1000 + 4096 * k
          then PA2PTE (0x80000000 + (PGROUNDDOWN vb - 0x1000)) OR (PTE_R OR PTE_X) OR PTE_V
          else leaf (pmem ex_vm) [K2 \<mapsto> 0x87FFD000] vb))"
  using mappages_correct [OF ex_vm_ok, of "0x87FFD000" "0x1000" "0x1000" "0x80000000" "PTE_R OR PTE_X"]
  by (simp add: PGSIZE_def MAXVA_val leaf_def leafkey_def)

end
