(* ===== verification/Usercopy.thy ===== *)
theory Usercopy
  imports Mapping_spec
begin

text \<open>
  \<open>copyout\<close> and \<open>copyin\<close> of kernel/vm.c against the memory a user program sees: the
  bytes at the physical addresses its page table gives.  The theory shows that, on pages
  that are mapped for the user, \<open>copyout\<close> overwrites exactly the range it is given in
  that memory, across page boundaries, and \<open>copyin\<close> reads it.
\<close>

section \<open>User memory\<close>

definition user_map :: "memory \<Rightarrow> pgtab \<Rightarrow> u64 \<Rightarrow> bool" where
  "user_map m T va \<longleftrightarrow> va < MAXVA \<and> leaf m T va AND PTE_V \<noteq> 0 \<and> leaf m T va AND PTE_U \<noteq> 0"

definition utrans :: "memory \<Rightarrow> pgtab \<Rightarrow> u64 \<Rightarrow> u64" where
  "utrans m T va = PTE2PA (leaf m T va) + (va - PGROUNDDOWN va)"

definition umem :: "memory \<Rightarrow> pgtab \<Rightarrow> u64 \<Rightarrow> u8" where
  "umem m T va = m (utrans m T va)"

text \<open>
  The pages of the user are neither tables nor free, and no two pages of the user share a
  physical page.
\<close>

definition user_space :: "'z kmem_st_scheme \<Rightarrow> pgtab \<Rightarrow> u64 list \<Rightarrow> bool" where
  "user_space s T xs \<longleftrightarrow> pt_inv s T xs
     \<and> (\<forall>va. user_map (pmem s) T va \<longrightarrow> PTE2PA (leaf (pmem s) T va) \<noteq> 0 \<and> PTE2PA (leaf (pmem s) T va) \<notin> set xs
          \<and> (\<forall>k. T k \<noteq> Some (PTE2PA (leaf (pmem s) T va))))
     \<and> (\<forall>va vb. user_map (pmem s) T va \<and> user_map (pmem s) T vb \<and> PTE2PA (leaf (pmem s) T va) = PTE2PA (leaf (pmem s) T vb) \<longrightarrow>
          PGROUNDDOWN va = PGROUNDDOWN vb)"

lemma PTE2PA_aligned: "page_aligned (PTE2PA v)"
proof -
  have "take_bit 12 (PTE2PA v) = 0" by (rule bit_word_eqI) (simp add: PTE2PA_def bit_simps)
  then show ?thesis by (simp add: page_aligned_def PGSIZE_def take_bit_eq_mod)
qed

lemma offset_less: "va - PGROUNDDOWN va < 4096"
  by (simp add: word_less_nat_alt PGROUNDDOWN_offset)

lemma utrans_page: "in_page (PTE2PA (leaf m T va)) (utrans m T va)"
  unfolding utrans_def by (rule in_page_offset [OF offset_less])

lemma leaf_page: "va < MAXVA \<Longrightarrow> vb < MAXVA \<Longrightarrow> PGROUNDDOWN va = PGROUNDDOWN vb \<Longrightarrow> leaf m T va = leaf m T vb"
  using same_pte_page [of va vb] by (simp add: same_pte_def leaf_def split: option.split)

lemma PGROUNDDOWN_idem [simp]: "PGROUNDDOWN (PGROUNDDOWN va) = PGROUNDDOWN va"
  by (rule PGROUNDDOWN_id) simp

lemma PGROUNDDOWN_MAXVA: "va < MAXVA \<Longrightarrow> PGROUNDDOWN va < MAXVA"
  using PGROUNDDOWN_le order_le_less_trans by blast

lemma leaf_down: "va < MAXVA \<Longrightarrow> leaf m T (PGROUNDDOWN va) = leaf m T va"
  by (rule leaf_page) (auto intro: PGROUNDDOWN_MAXVA)

lemma walkaddr_user:
  assumes "pt_tree (pmem s) T" "T K2 = Some root" "user_map (pmem s) T va"
  shows "walkaddr root (PGROUNDDOWN va) s = Ret (PTE2PA (leaf (pmem s) T va)) s"
    and "\<exists>pte. walk root (PGROUNDDOWN va) False s = Ret pte s \<and> load64 (pmem s) pte = leaf (pmem s) T va"
proof -
  have va: "PGROUNDDOWN va < MAXVA" "leaf (pmem s) T (PGROUNDDOWN va) = leaf (pmem s) T va"
    using assms(3) PGROUNDDOWN_MAXVA leaf_down by (auto simp: user_map_def)
  have v: "leaf (pmem s) T va AND PTE_V \<noteq> 0" "leaf (pmem s) T va AND PTE_U \<noteq> 0" using assms(3) by (auto simp: user_map_def)
  obtain p where p: "T (leafkey (PGROUNDDOWN va)) = Some p" "leaf (pmem s) T va = load64 (pmem s) (slot p (PX 0 (PGROUNDDOWN va)))"
    using v(1) va(2) by (cases "T (leafkey (PGROUNDDOWN va))") (auto simp: leaf_def)
  have w: "walk root (PGROUNDDOWN va) False s = Ret (slot p (PX 0 (PGROUNDDOWN va))) s"
    using walk_read [OF assms(1,2) va(1)] p(1) by simp
  have "page_aligned p" "p \<noteq> 0" using assms(1) p(1) unfolding pt_tree_def by blast+
  then have "slot p (PX 0 (PGROUNDDOWN va)) \<noteq> 0" by (intro slot_nonzero PX_less)
  then show "walkaddr root (PGROUNDDOWN va) s = Ret (PTE2PA (leaf (pmem s) T va)) s"
    using w p(2) v va(1) by (simp add: walkaddr_def not_le [symmetric])
  show "\<exists>pte. walk root (PGROUNDDOWN va) False s = Ret pte s \<and> load64 (pmem s) pte = leaf (pmem s) T va"
    using w p(2) by auto
qed

section \<open>Within a page\<close>

lemma page_room: "unat (PGSIZE - (va - PGROUNDDOWN va)) = 4096 - unat va mod 4096"
proof -
  have "va - PGROUNDDOWN va \<le> PGSIZE" using offset_less [of va] by (simp add: PGSIZE_def)
  then show ?thesis by (simp add: unat_sub PGROUNDDOWN_offset) (simp add: PGSIZE_def)
qed

lemma unat_plus: "unat va + i < 2 ^ 64 \<Longrightarrow> unat (va + of_nat i :: u64) = unat va + i"
  by (simp add: unat_word_ariths unat_of_nat)

lemma div_page: "i < 4096 - x mod 4096 \<Longrightarrow> (x + i) div 4096 = x div 4096" for x :: nat
proof -
  assume "i < 4096 - x mod 4096"
  moreover have "x + i = (x mod 4096 + i) + 4096 * (x div 4096)" by simp
  ultimately show ?thesis by (metis add_0_right div_less div_mult_self2 less_diff_conv add.commute zero_neq_numeral)
qed

lemma map_split: "c \<le> n \<Longrightarrow> map f [0..<c] @ map (\<lambda>i. f (c + i)) [0..<n - c] = map f [0..<n]"
  by (auto simp: list_eq_iff_nth_eq nth_append)

lemma in_chunk:
  assumes "i < 4096 - unat va mod 4096" "unat va + i < 2 ^ 38"
  shows "PGROUNDDOWN (va + of_nat i) = PGROUNDDOWN va" "va + of_nat i - PGROUNDDOWN (va + of_nat i) = va - PGROUNDDOWN va + of_nat i"
proof -
  have u: "unat (va + of_nat i) = unat va + i" using assms(2) by (intro unat_plus) simp
  have "(unat va + i) div 4096 = unat va div 4096" using assms(1) by (rule div_page)
  then show d: "PGROUNDDOWN (va + of_nat i) = PGROUNDDOWN va" by (simp add: word_unat_eq_iff unat_PGROUNDDOWN u)
  show "va + of_nat i - PGROUNDDOWN (va + of_nat i) = va - PGROUNDDOWN va + of_nat i" unfolding d by simp
qed

lemma next_page:
  assumes "4096 - unat va mod 4096 \<le> n" "unat va + n \<le> 2 ^ 38"
  shows "PGROUNDDOWN va + PGSIZE = va + of_nat (4096 - unat va mod 4096)"
proof -
  have m: "unat va mod 4096 < 4096" by simp
  have "unat (PGROUNDDOWN va + PGSIZE) = unat va div 4096 * 4096 + 4096" using assms
    by (simp add: unat_word_ariths unat_PGROUNDDOWN PGSIZE_def)
  moreover have "unat (va + of_nat (4096 - unat va mod 4096)) = unat va + (4096 - unat va mod 4096)"
    using assms by (intro unat_plus) simp
  moreover have "unat va = unat va div 4096 * 4096 + unat va mod 4096" by simp
  ultimately show ?thesis using m unfolding word_unat_eq_iff by linarith
qed

section \<open>copyin\<close>

definition user_range :: "memory \<Rightarrow> pgtab \<Rightarrow> u64 \<Rightarrow> nat \<Rightarrow> bool" where
  "user_range m T va n \<longleftrightarrow> unat va + n \<le> 2 ^ 38
     \<and> (\<forall>i < n. user_map m T (va + of_nat i) \<and> PTE2PA (leaf m T (va + of_nat i)) \<noteq> 0)"

lemma user_range_drop: "user_range m T va n \<Longrightarrow> k \<le> n \<Longrightarrow> user_range m T (va + of_nat k) (n - k)"
proof -
  assume r: "user_range m T va n" "k \<le> n"
  then have "unat (va + of_nat k) = unat va + k" by (intro unat_plus) (simp add: user_range_def)
  moreover have "va + of_nat k + of_nat i = va + of_nat (k + i)" for i by simp
  moreover have "user_map m T (va + of_nat (k + i)) \<and> PTE2PA (leaf m T (va + of_nat (k + i))) \<noteq> 0" if "i < n - k" for i
    using r that unfolding user_range_def by (metis less_diff_conv add.commute)
  ultimately show ?thesis using r unfolding user_range_def by (simp add: add.assoc)
qed

lemma user_page_ok:
  assumes "pt_tree (pmem s) T" "T K2 = Some root" "user_range (pmem s) T va n" "0 < n"
  shows "user_page root (PGROUNDDOWN va) s = Ret (PTE2PA (leaf (pmem s) T va)) s"
proof -
  have "user_map (pmem s) T va" "PTE2PA (leaf (pmem s) T va) \<noteq> 0" using assms(3,4) by (auto simp: user_range_def dest!: spec [of _ 0])
  then show ?thesis using walkaddr_user(1) [OF assms(1,2)] by (simp add: user_page_def kret_def)
qed

lemma get_bytes_user:
  assumes "user_range m T va n" "n \<le> 4096 - unat va mod 4096"
  shows "get_bytes (PTE2PA (leaf m T va) + (va - PGROUNDDOWN va)) n m = map (\<lambda>i. umem m T (va + of_nat i)) [0..<n]"
proof -
  have "PTE2PA (leaf m T va) + (va - PGROUNDDOWN va) + of_nat i = utrans m T (va + of_nat i)" if "i < n" for i
  proof -
    have b: "i < 4096 - unat va mod 4096" "unat va + i < 2 ^ 38" using assms that by (auto simp: user_range_def)
    have "va < MAXVA" "va + of_nat i < MAXVA" using assms that by (auto simp: user_range_def user_map_def dest!: spec [of _ 0])
    then have "leaf m T (va + of_nat i) = leaf m T va" using in_chunk(1) [OF b] by (intro leaf_page)
    then show ?thesis unfolding utrans_def in_chunk(2) [OF b] by (simp add: algebra_simps)
  qed
  then show ?thesis by (simp add: get_bytes_def umem_def)
qed

lemma copyin_loop_spec:
  assumes "pt_tree (pmem s) T" "T K2 = Some root" "user_range (pmem s) T va n" "n \<le> k"
  shows "copyin_loop k root va n acc s = Ret (0, acc @ map (\<lambda>i. umem (pmem s) T (va + of_nat i)) [0..<n]) s"
  using assms(3,4)
proof (induction k arbitrary: va n acc)
  case (Suc k)
  show ?case
  proof (cases "n = 0")
    case False
    let ?c = "min (4096 - unat va mod 4096) n"
    have c: "0 < ?c" "?c \<le> n" using False by auto
    have p: "user_page root (PGROUNDDOWN va) s = Ret (PTE2PA (leaf (pmem s) T va)) s" "PTE2PA (leaf (pmem s) T va) \<noteq> 0"
      using user_page_ok [OF assms(1,2) Suc.prems(1)] False Suc.prems(1) by (auto simp: user_range_def dest!: spec [of _ 0])
    have g: "get_bytes (PTE2PA (leaf (pmem s) T va) + (va - PGROUNDDOWN va)) ?c (pmem s) = map (\<lambda>i. umem (pmem s) T (va + of_nat i)) [0..<?c]"
      using Suc.prems(1) by (intro get_bytes_user) (auto simp: user_range_def)
    have "copyin_loop k root (PGROUNDDOWN va + PGSIZE) (n - ?c) acc' s
        = Ret (0, acc' @ map (\<lambda>i. umem (pmem s) T (va + of_nat ?c + of_nat i)) [0..<n - ?c]) s" for acc'
    proof (cases "n \<le> 4096 - unat va mod 4096")
      case True
      then show ?thesis by (cases k) (simp_all add: min_def kret_def)
    next
      case c: False
      then have "PGROUNDDOWN va + PGSIZE = va + of_nat ?c" using Suc.prems(1) by (subst next_page [of va n]) (auto simp: user_range_def min_def)
      then show ?thesis using user_range_drop [OF Suc.prems(1), of ?c] Suc.prems(2) \<open>0 < ?c\<close> by (simp only:) (intro Suc.IH; simp)
    qed
    note rest = this
    have "map (\<lambda>i. umem (pmem s) T (va + of_nat i)) [0..<?c] @ map (\<lambda>i. umem (pmem s) T (va + of_nat ?c + of_nat i)) [0..<n - ?c]
      = map (\<lambda>i. umem (pmem s) T (va + of_nat i)) [0..<n]"
      using map_split [OF c(2), of "\<lambda>i. umem (pmem s) T (va + of_nat i)"] by (simp add: add.assoc)
    then show ?thesis using False p by (simp add: Let_def page_room g rest)
  qed (simp add: kret_def)
qed (simp add: kret_def)

section \<open>copyout\<close>

definition uput :: "(u64 \<Rightarrow> u8) \<Rightarrow> u64 \<Rightarrow> bytes \<Rightarrow> u64 \<Rightarrow> u8" where
  "uput f va src vb = (if unat va \<le> unat vb \<and> unat vb < unat va + length src then src ! (unat vb - unat va) else f vb)"

lemma uput_Nil [simp]: "uput f va [] = f"
  by (auto simp: uput_def fun_eq_iff)

lemma uput_append:
  assumes "unat va + length (xs @ ys) < 2 ^ 64"
  shows "uput (uput f va xs) (va + of_nat (length xs)) ys = uput f va (xs @ ys)"
proof -
  have "unat (va + of_nat (length xs)) = unat va + length xs" using assms by (intro unat_plus) simp
  then show ?thesis by (auto simp: uput_def fun_eq_iff nth_append)
qed

lemma unat_add_le: "unat (x + y) \<le> unat x + unat y" for x y :: u64
  by (simp add: unat_word_ariths)

text \<open>Bytes put into a page of the user change only that page, and there what the user sees.\<close>

lemma put_in_page:
  assumes "length bs \<le> 4096 - unat va mod 4096" "\<not> in_page p x"
  shows "put_bytes (p + (va - PGROUNDDOWN va)) bs m x = m x"
proof -
  let ?o = "va - PGROUNDDOWN va"
  have "\<not> unat (x - (p + ?o)) < length bs"
  proof
    assume l: "unat (x - (p + ?o)) < length bs"
    have "unat (?o + (x - (p + ?o))) \<le> unat ?o + unat (x - (p + ?o))" by (rule unat_add_le)
    then have "unat (?o + (x - (p + ?o))) < 4096" using l assms(1) PGROUNDDOWN_offset [of va] by linarith
    then have "?o + (x - (p + ?o)) < 4096" by (simp add: word_less_nat_alt)
    then have "in_page p (p + (?o + (x - (p + ?o))))" by (rule in_page_offset)
    then show False using assms(2) by simp
  qed
  then show ?thesis by (simp add: put_bytes_def)
qed

lemma user_frame:
  assumes u: "user_space s T xs" and f: "\<And>a. \<not> in_page p a \<Longrightarrow> m a = pmem s a" and va: "user_map (pmem s) T va" and p: "p = PTE2PA (leaf (pmem s) T va)"
  shows "leaf m T = leaf (pmem s) T" "user_space (s\<lparr>pmem := m\<rparr>) T xs"
proof -
  have i: "pt_inv s T xs" "p \<notin> set xs" "\<And>k. T k \<noteq> Some p" using u va p unfolding user_space_def by blast+
  have al: "page_aligned p" unfolding p by (rule PTE2PA_aligned)
  have fr: "m a = pmem s a" if "T k = Some q" "in_page q a" for k q a
    using f in_page_disjoint [of q p a] pt_page [OF i(1) that(1)] al i(3) [of k] that by auto
  have t: "pt_tree (pmem s) T" using i(1) by (simp add: pt_inv_def)
  show l: "leaf m T = leaf (pmem s) T" using tree_frame(2) [OF t fr] .
  have "freelist_at m (freelist s) xs"
  proof (rule freelist_at_agree [of "pmem s"])
    show "freelist_at (pmem s) (freelist s) xs" using i(1) by (simp add: pt_inv_def kmem_inv_def)
    fix x a assume x: "x \<in> set xs" "in_page x a"
    have "page_aligned x" "x \<noteq> p" using i(1,2) x(1) by (auto simp: pt_inv_def kmem_inv_def valid_page_def)
    then show "m a = pmem s a" using f in_page_disjoint [of x p a] x(2) al by blast
  qed
  then have "kmem_inv (s\<lparr>pmem := m\<rparr>) xs" using i(1) by (auto simp: pt_inv_def kmem_inv_def valid_page_def)
  then have "pt_inv (s\<lparr>pmem := m\<rparr>) T xs" using i(1) tree_frame(1) [OF t fr] unfolding pt_inv_def by (auto simp: valid_page_def)
  then show "user_space (s\<lparr>pmem := m\<rparr>) T xs" using u l unfolding user_space_def user_map_def by simp
qed

lemma put_bytes_user:
  assumes u: "user_space s T xs" and va: "user_map (pmem s) T va" and b: "length bs \<le> 4096 - unat va mod 4096" "unat va + length bs \<le> 2 ^ 38"
    and m: "m = put_bytes (PTE2PA (leaf (pmem s) T va) + (va - PGROUNDDOWN va)) bs (pmem s)" and vb: "user_map (pmem s) T vb"
  shows "umem m T vb = uput (umem (pmem s) T) va bs vb"
proof -
  let ?p = "PTE2PA (leaf (pmem s) T va)"
  have f: "m a = pmem s a" if "\<not> in_page ?p a" for a unfolding m using b(1) that by (rule put_in_page)
  have l: "leaf m T = leaf (pmem s) T" using user_frame(1) [OF u f va refl] .
  have ut: "utrans m T vb = utrans (pmem s) T vb" by (simp add: utrans_def l)
  show ?thesis
  proof (cases "PGROUNDDOWN vb = PGROUNDDOWN va")
    case True
    have lv: "leaf (pmem s) T vb = leaf (pmem s) T va" using va vb True by (intro leaf_page) (auto simp: user_map_def)
    have d: "unat vb div 4096 = unat va div 4096" using True by (simp add: word_unat_eq_iff unat_PGROUNDDOWN)
    have x: "utrans (pmem s) T vb - (?p + (va - PGROUNDDOWN va)) = vb - va" using True by (simp add: utrans_def lv)
    have "unat vb div 4096 * 4096 + unat vb mod 4096 = unat vb" "unat va div 4096 * 4096 + unat va mod 4096 = unat va" by simp_all
    then have e: "unat vb < unat va + length bs \<and> unat va \<le> unat vb \<longleftrightarrow> unat (vb - va) < length bs"
      using d b u64_bound [of va] by (auto simp: unat_sub_if' word_le_nat_alt)
    have "unat va \<le> unat vb \<Longrightarrow> unat (vb - va) = unat vb - unat va" by (simp add: unat_sub word_le_nat_alt)
    moreover have "umem m T vb = (if unat (vb - va) < length bs then bs ! unat (vb - va) else umem (pmem s) T vb)"
      unfolding umem_def ut unfolding m put_bytes_def x ..
    ultimately show ?thesis using e by (auto simp: uput_def)
  next
    case False
    have "PTE2PA (leaf (pmem s) T vb) \<noteq> ?p" using u va vb False unfolding user_space_def by blast
    then have "\<not> in_page ?p (utrans (pmem s) T vb)" using in_page_disjoint [OF PTE2PA_aligned PTE2PA_aligned] utrans_page by blast
    then have "umem m T vb = umem (pmem s) T vb" using f by (simp add: umem_def ut)
    moreover have "\<not> (unat va \<le> unat vb \<and> unat vb < unat va + length bs)"
    proof
      assume a: "unat va \<le> unat vb \<and> unat vb < unat va + length bs"
      then have "unat vb - unat va < 4096 - unat va mod 4096" "unat va + (unat vb - unat va) = unat vb" using b(1) by auto
      then show False using div_page [of "unat vb - unat va" "unat va"] False by (simp add: word_unat_eq_iff unat_PGROUNDDOWN)
    qed
    ultimately show ?thesis by (auto simp: uput_def)
  qed
qed

lemma copyout_loop_spec:
  assumes "T K2 = Some root" "user_space s T xs" "user_range (pmem s) T va (length src)"
    and "\<And>i. i < length src \<Longrightarrow> leaf (pmem s) T (va + of_nat i) AND PTE_W \<noteq> 0" and "length src \<le> k"
  shows "\<exists>m. copyout_loop k root va src s = Ret 0 (s\<lparr>pmem := m\<rparr>) \<and> user_space (s\<lparr>pmem := m\<rparr>) T xs \<and> leaf m T = leaf (pmem s) T
    \<and> (\<forall>vb. user_map (pmem s) T vb \<longrightarrow> umem m T vb = uput (umem (pmem s) T) va src vb)"
  using assms(2-5)
proof (induction k arbitrary: s va src)
  case 0
  then show ?case by (intro exI [of _ "pmem s"]) (simp add: kret_def)
next
  case (Suc k)
  show ?case
  proof (cases "src = []")
    case True
    then show ?thesis using Suc.prems(1) by (intro exI [of _ "pmem s"]) (simp add: kret_def)
  next
    case False
    define c where "c = min (4096 - unat va mod 4096) (length src)"
    define m1 where "m1 = put_bytes (PTE2PA (leaf (pmem s) T va) + (va - PGROUNDDOWN va)) (take c src) (pmem s)"
    let ?s = "s\<lparr>pmem := m1\<rparr>"
    have c: "0 < c" "c \<le> length src" "c \<le> 4096 - unat va mod 4096" using False by (auto simp: c_def)
    have t: "pt_tree (pmem s) T" using Suc.prems(1) by (simp add: user_space_def pt_inv_def)
    have va: "user_map (pmem s) T va" "PTE2PA (leaf (pmem s) T va) \<noteq> 0" "leaf (pmem s) T va AND PTE_W \<noteq> 0" "unat va + length src \<le> 2 ^ 38"
      using Suc.prems(2) Suc.prems(3) [of 0] False by (auto simp: user_range_def dest!: spec [of _ 0])
    have pg: "PGROUNDDOWN va < MAXVA" using va(1) PGROUNDDOWN_MAXVA by (auto simp: user_map_def)
    have up: "user_page root (PGROUNDDOWN va) s = Ret (PTE2PA (leaf (pmem s) T va)) s" using user_page_ok [OF t assms(1) Suc.prems(2)] False by simp
    obtain pte where w: "walk root (PGROUNDDOWN va) False s = Ret pte s" "load64 (pmem s) pte = leaf (pmem s) T va"
      using walkaddr_user(2) [OF t assms(1) va(1)] by blast
    have step: "copyout_loop (Suc k) root va src s = copyout_loop k root (PGROUNDDOWN va + PGSIZE) (drop c src) ?s"
      using False pg up w va by (simp add: Let_def page_room not_le [symmetric] c_def m1_def)
    have len: "length (take c src) \<le> 4096 - unat va mod 4096" "unat va + length (take c src) \<le> 2 ^ 38" using va(4) c(2,3) by auto
    have fr: "m1 a = pmem s a" if "\<not> in_page (PTE2PA (leaf (pmem s) T va)) a" for a unfolding m1_def using len(1) that by (rule put_in_page)
    note uf = user_frame [OF Suc.prems(1) fr va(1) refl]
    have um: "umem m1 T vb = uput (umem (pmem s) T) va (take c src) vb" if "user_map (pmem s) T vb" for vb
      using Suc.prems(1) va(1) len m1_def that by (rule put_bytes_user)
    have map': "user_map m1 T = user_map (pmem s) T" by (simp add: user_map_def fun_eq_iff uf(1))
    have "\<exists>m. copyout_loop k root (PGROUNDDOWN va + PGSIZE) (drop c src) ?s = Ret 0 (?s\<lparr>pmem := m\<rparr>) \<and> user_space (?s\<lparr>pmem := m\<rparr>) T xs
      \<and> leaf m T = leaf (pmem ?s) T \<and> (\<forall>vb. user_map (pmem ?s) T vb \<longrightarrow> umem m T vb = uput (umem (pmem ?s) T) (va + of_nat c) (drop c src) vb)"
    proof (cases "length src \<le> 4096 - unat va mod 4096")
      case True
      then show ?thesis using uf(2) by (intro exI [of _ m1]) (cases k; simp add: kret_def c_def min_def)
    next
      case False
      then have e: "PGROUNDDOWN va + PGSIZE = va + of_nat c" using va(4) by (subst next_page [of va "length src"]) (auto simp: c_def min_def)
      have r: "user_range (pmem s) T (va + of_nat c) (length (drop c src))" using user_range_drop [OF Suc.prems(2) c(2)] by simp
      show ?thesis unfolding e
      proof (rule Suc.IH)
        show "user_space ?s T xs" using uf(2) by simp
        show "user_range (pmem ?s) T (va + of_nat c) (length (drop c src))" using r by (simp add: user_range_def map' uf(1))
        show "length (drop c src) \<le> k" using c Suc.prems(4) by simp
        fix i assume "i < length (drop c src)"
        then show "leaf (pmem ?s) T (va + of_nat c + of_nat i) AND PTE_W \<noteq> 0"
          using Suc.prems(3) [of "c + i"] by (simp add: uf(1) add.assoc)
      qed
    qed
    then obtain m where m: "copyout_loop k root (PGROUNDDOWN va + PGSIZE) (drop c src) ?s = Ret 0 (?s\<lparr>pmem := m\<rparr>)" "user_space (?s\<lparr>pmem := m\<rparr>) T xs"
      "leaf m T = leaf (pmem ?s) T" "\<forall>vb. user_map (pmem ?s) T vb \<longrightarrow> umem m T vb = uput (umem (pmem ?s) T) (va + of_nat c) (drop c src) vb" by blast
    have "umem m T vb = uput (umem (pmem s) T) va src vb" if "user_map (pmem s) T vb" for vb
    proof -
      have "umem m T vb = uput (uput (umem (pmem s) T) va (take c src)) (va + of_nat (length (take c src))) (drop c src) vb"
        using m(4) that um [OF that] c by (simp add: map' uput_def)
      also have "\<dots> = uput (umem (pmem s) T) va src vb" using uput_append [of va "take c src" "drop c src"] va(4) by simp
      finally show ?thesis .
    qed
    then show ?thesis using step m uf(1) by (intro exI [of _ m]) simp
  qed
qed

section \<open>The property\<close>

text \<open>
  C24: \<open>copyout\<close> to a range of user memory that is mapped and writable returns 0 and
  overwrites exactly that range of what the user sees, also where it crosses pages; no
  other byte of the user, no entry of the table and no free page changes.  \<open>copyin\<close> of the
  range then returns the bytes.
\<close>

theorem copyout_copyin:
  assumes "T K2 = Some root" and "user_space s T xs" and "user_range (pmem s) T va (length src)"
    and "\<forall>i < length src. leaf (pmem s) T (va + of_nat i) AND PTE_W \<noteq> 0"
  shows "\<exists>m. copyout root va src s = Ret 0 (s\<lparr>pmem := m\<rparr>) \<and> user_space (s\<lparr>pmem := m\<rparr>) T xs \<and> leaf m T = leaf (pmem s) T
    \<and> (\<forall>vb. user_map (pmem s) T vb \<longrightarrow>
         umem m T vb = (if unat va \<le> unat vb \<and> unat vb < unat va + length src then src ! (unat vb - unat va) else umem (pmem s) T vb))
    \<and> copyin root va (length src) (s\<lparr>pmem := m\<rparr>) = Ret (0, src) (s\<lparr>pmem := m\<rparr>)"
proof -
  obtain m where m: "copyout root va src s = Ret 0 (s\<lparr>pmem := m\<rparr>)" "user_space (s\<lparr>pmem := m\<rparr>) T xs" "leaf m T = leaf (pmem s) T"
    "\<forall>vb. user_map (pmem s) T vb \<longrightarrow> umem m T vb = uput (umem (pmem s) T) va src vb"
    using copyout_loop_spec [OF assms(1-3), of "length src"] assms(4) by (auto simp: copyout_def)
  have r: "user_range m T va (length src)" using assms(3) m(3) by (simp add: user_range_def user_map_def)
  have "umem m T (va + of_nat i) = src ! i" if "i < length src" for i
  proof -
    have "unat (va + of_nat i) = unat va + i" using assms(3) that by (intro unat_plus) (simp add: user_range_def)
    then show ?thesis using m(4) assms(3) that by (simp add: user_range_def uput_def)
  qed
  then have "map (\<lambda>i. umem m T (va + of_nat i)) [0..<length src] = src" by (intro nth_equalityI) auto
  moreover have "pt_tree m T" using m(2) by (simp add: user_space_def pt_inv_def)
  ultimately have "copyin root va (length src) (s\<lparr>pmem := m\<rparr>) = Ret (0, src) (s\<lparr>pmem := m\<rparr>)"
    using copyin_loop_spec [of "s\<lparr>pmem := m\<rparr>" T root va "length src" "length src" "[]"] assms(1) r by (simp add: copyin_def)
  then show ?thesis using m by (intro exI [of _ m]) (simp add: uput_def)
qed

text \<open>Two user pages at 0 and 0x1000, and a string across their boundary.\<close>

definition ex_mem :: memory where
  "ex_mem = store64 (store64 (store64 (store64 (\<lambda>_. 0)
     (slot 0x87FF8000 0) (PA2PTE 0x87FF9000 OR PTE_V)) (slot 0x87FF9000 0) (PA2PTE 0x87FFA000 OR PTE_V))
     (slot 0x87FFA000 0) (PA2PTE 0x87FFB000 OR 0x17)) (slot 0x87FFA000 1) (PA2PTE 0x87FFC000 OR 0x17)"

definition ex_tree :: pgtab where
  "ex_tree = [K2 \<mapsto> 0x87FF8000, K1 0 \<mapsto> 0x87FF9000, K0 0 0 \<mapsto> 0x87FFA000]"

definition ex_user :: proc_st where
  "ex_user = \<lparr>locks = [], uart_out = [], panicking = False, panicked = False, pmem = ex_mem, freelist = 0, kend = 0x87FF8000,
     procs = [], curproc = None, initproc = None, nextpid = 1, ticks = 0, quota_window_start = 0, eco_mode = 0\<rparr>"

lemma ex_load:
  assumes "page_aligned q" "j < 512"
  shows "load64 ex_mem (slot q j) =
    (if q = 0x87FF8000 \<and> j = 0 then PA2PTE 0x87FF9000 OR PTE_V
     else if q = 0x87FF9000 \<and> j = 0 then PA2PTE 0x87FFA000 OR PTE_V
     else if q = 0x87FFA000 \<and> j = 0 then PA2PTE 0x87FFB000 OR 0x17
     else if q = 0x87FFA000 \<and> j = 1 then PA2PTE 0x87FFC000 OR 0x17 else 0)"
proof -
  have a: "page_aligned 0x87FF8000" "page_aligned 0x87FF9000" "page_aligned 0x87FFA000" by (simp_all add: page_aligned_def PGSIZE_def)
  have z: "load64 (\<lambda>_ :: u64. 0) b = 0" for b by (simp add: load_defs)
  show ?thesis unfolding ex_mem_def using assms a by (simp add: load64_store_slot z)
qed

lemma ex_leaf: "leaf ex_mem ex_tree va = (if PX 2 va = 0 \<and> PX 1 va = 0 then
     if PX 0 va = 0 then PA2PTE 0x87FFB000 OR 0x17 else if PX 0 va = 1 then PA2PTE 0x87FFC000 OR 0x17 else 0 else 0)"
  using ex_load [of "0x87FFA000", OF _ PX_less] by (simp add: leaf_def leafkey_def ex_tree_def page_aligned_def PGSIZE_def)

lemma ex_pa: "PTE2PA (PA2PTE 0x87FFB000 OR 0x17) = 0x87FFB000" "PTE2PA (PA2PTE 0x87FFC000 OR 0x17) = 0x87FFC000"
  by (rule PTE2PA_PA2PTE; simp add: page_aligned_def PGSIZE_def)+

lemma ex_tree_ok: "pt_inv ex_user ex_tree []"
proof -
  have "pt_tree ex_mem ex_tree"
    unfolding pt_tree_def
  proof (intro conjI allI impI)
    show "ex_tree K2 \<noteq> None" by (simp add: ex_tree_def)
    show "page_aligned p" "p \<noteq> 0" if "ex_tree k = Some p" for k p
      using that by (auto simp: ex_tree_def page_aligned_def PGSIZE_def split: if_splits)
    show "k = k'" if "ex_tree k = Some p" "ex_tree k' = Some p" for k k' p using that by (auto simp: ex_tree_def split: if_splits)
    show "entry_ok ex_mem (ex_tree (child k j)) (slot p j)" if "inner k" "ex_tree k = Some p" "j < 512" for k p j
      using that ex_load [of p j]
      by (cases k) (auto simp: ex_tree_def entry_ok_def page_aligned_def PGSIZE_def split: if_splits)
    show "ex_tree k \<noteq> None" "j < 512" if "inner k" "ex_tree (child k j) \<noteq> None" for k j
      using that by (cases k; auto simp: ex_tree_def split: if_splits)+
  qed
  then show ?thesis
    by (auto simp: pt_inv_def kmem_inv_def ex_user_def ex_tree_def valid_page_def page_aligned_def PGSIZE_def PHYSTOP_val split: if_splits)
qed

lemma ex_user_ok: "user_space ex_user ex_tree []"
proof -
  have "PGROUNDDOWN va = PGROUNDDOWN vb" if "user_map ex_mem ex_tree va" "user_map ex_mem ex_tree vb"
    "PTE2PA (leaf ex_mem ex_tree va) = PTE2PA (leaf ex_mem ex_tree vb)" for va vb
    using that by (intro PX_inj) (auto simp: user_map_def ex_leaf ex_pa split: if_splits)
  moreover have "PTE2PA (leaf ex_mem ex_tree va) \<in> {0x87FFB000, 0x87FFC000}" if "user_map ex_mem ex_tree va" for va
    using that by (auto simp: user_map_def ex_leaf ex_pa split: if_splits)
  then have "PTE2PA (leaf ex_mem ex_tree va) \<noteq> 0 \<and> (\<forall>k. ex_tree k \<noteq> Some (PTE2PA (leaf ex_mem ex_tree va)))" if "user_map ex_mem ex_tree va" for va
    using that by (fastforce simp: ex_tree_def split: if_splits)
  ultimately show ?thesis using ex_tree_ok unfolding user_space_def by (auto simp: ex_user_def)
qed

theorem copyout_copyin_witness:
  "\<exists>m. copyout 0x87FF8000 0xFFE [1, 2, 3, 4] ex_user = Ret 0 (ex_user\<lparr>pmem := m\<rparr>)
    \<and> copyin 0x87FF8000 0xFFE 4 (ex_user\<lparr>pmem := m\<rparr>) = Ret (0, [1, 2, 3, 4]) (ex_user\<lparr>pmem := m\<rparr>)"
proof -
  have px: "PX 2 (0xFFE + of_nat i) = 0" "PX 1 (0xFFE + of_nat i) = 0" "PX 0 (0xFFE + of_nat i) = (if i < 2 then 0 else 1)" if "i < 4" for i
  proof -
    have u: "unat (0xFFE + of_nat i :: u64) = 4094 + i" using that unat_plus [of "0xFFE" i] by simp
    show "PX 2 (0xFFE + of_nat i) = 0" "PX 1 (0xFFE + of_nat i) = 0" using that by (simp_all add: word_unat_eq_iff PX_nat u)
    have "i = 0 \<or> i = 1 \<or> i = 2 \<or> i = 3" using that by auto
    then have "(4094 + i) div 4096 mod 512 = (if i < 2 then 0 else 1)" by auto
    then show "PX 0 (0xFFE + of_nat i) = (if i < 2 then 0 else 1)" by (simp add: word_unat_eq_iff PX_nat u)
  qed
  have e: "leaf ex_mem ex_tree (0xFFE + of_nat i) \<in> {PA2PTE 0x87FFB000 OR 0x17, PA2PTE 0x87FFC000 OR 0x17}" if "i < 4" for i
    using px [OF that] by (simp add: ex_leaf)
  have f: "x AND PTE_V \<noteq> 0 \<and> x AND PTE_U \<noteq> 0 \<and> x AND PTE_W \<noteq> 0 \<and> PTE2PA x \<noteq> 0" if "x \<in> {PA2PTE 0x87FFB000 OR 0x17, PA2PTE 0x87FFC000 OR 0x17}" for x
    using that ex_pa by (auto simp: PA2PTE_def pte_defs)
  have r: "user_range ex_mem ex_tree 0xFFE 4"
    using f [OF e] by (auto simp: user_range_def user_map_def word_less_nat_alt MAXVA_val unat_word_ariths unat_of_nat)
  show ?thesis
    using copyout_copyin [of ex_tree "0x87FF8000" ex_user "[]" "0xFFE" "[1, 2, 3, 4]", OF _ ex_user_ok] r f [OF e]
    by (auto simp: ex_user_def ex_tree_def numeral_eq_Suc)
qed

end
