(* ===== verification/Shell.thy ===== *)
theory Shell
  imports Riscv
begin

text \<open>
  user/sh.c: the parser of the shell.  The line is the string in the buffer
  without its terminating zero; a pointer into it is an offset.  The theory
  shows that parsing ends on every line, that the terminating zeros are written
  inside the buffer without damage to another word, and that every command can
  be written as a line which parses back to it.
\<close>

section \<open>Data\<close>

definition NUL :: char where "NUL = CHR 0x00"

definition MAXARGS :: nat where "MAXARGS = 10"

text \<open>
  A command holds the offsets of the first character of a word and of the one
  after it: \<open>argv[i]\<close> and \<open>eargv[i]\<close>, \<open>file\<close> and \<open>efile\<close>.
\<close>

datatype cmd =
    EXEC "(nat \<times> nat) list"
  | REDIR cmd nat nat int int
  | PIPE cmd cmd
  | LIST cmd cmd
  | BACK cmd

text \<open>
  \<open>ShPanic\<close> carries what is written to file descriptor 2; \<open>Depth\<close> is the
  bound of the recursion.
\<close>

datatype perr = ShPanic string | Depth

definition panic_sh :: "string \<Rightarrow> perr + 'a" where
  "panic_sh msg = Inl (ShPanic (msg @ [CHR 0x0A]))"

section \<open>Tokens\<close>

definition whitespace :: string where
  "whitespace = [CHR '' '', CHR 0x09, CHR 0x0D, CHR 0x0A, CHR 0x0B]"

definition symbols :: string where
  "symbols = ''<|>&;()''"

text \<open>\<open>*s\<close>; the character at the end of the line is the terminating zero.\<close>

definition char_at :: "string \<Rightarrow> nat \<Rightarrow> char" where
  "char_at line s = (if s < length line then line ! s else NUL)"

text \<open>\<open>while(s < es && P(*s)) s++;\<close>\<close>

function skip_while :: "(char \<Rightarrow> bool) \<Rightarrow> string \<Rightarrow> nat \<Rightarrow> nat" where
  "skip_while P line s = (if s < length line \<and> P (line ! s) then skip_while P line (s + 1) else s)"
  by pat_completeness auto
termination by (relation "measure (\<lambda>(P, line, s). length line - s)") auto

declare skip_while.simps [simp del]

definition is_space :: "char \<Rightarrow> bool" where
  "is_space c \<longleftrightarrow> c \<in> set whitespace"

definition is_symbol :: "char \<Rightarrow> bool" where
  "is_symbol c \<longleftrightarrow> c \<in> set symbols"

definition is_word :: "char \<Rightarrow> bool" where
  "is_word c \<longleftrightarrow> \<not> is_space c \<and> \<not> is_symbol c"

text \<open>The token's kind, \<open>q\<close>, \<open>eq\<close> and the new value of \<open>*ps\<close>.\<close>

definition gettoken :: "string \<Rightarrow> nat \<Rightarrow> char \<times> nat \<times> nat \<times> nat" where
  "gettoken line s0 =
     (let q = skip_while is_space line s0;
          c = char_at line q;
          (ret, eq) =
            (if c = NUL then (c, q)
             else if c \<in> set ''|();&<'' then (c, q + 1)
             else if c = CHR ''>''
             then (if char_at line (q + 1) = CHR ''>'' then (CHR ''+'', q + 2) else (c, q + 1))
             else (CHR ''a'', skip_while is_word line q))
      in (ret, q, eq, skip_while is_space line eq))"

definition peek :: "string \<Rightarrow> nat \<Rightarrow> string \<Rightarrow> bool \<times> nat" where
  "peek line s0 toks =
     (let s = skip_while is_space line s0; c = char_at line s
      in (c \<noteq> NUL \<and> c \<in> set toks, s))"

section \<open>Bounds of the scanner\<close>

lemma skip_while_ge: "s \<le> skip_while P line s"
  by (induction P line s rule: skip_while.induct) (subst skip_while.simps, auto)

lemma skip_while_le: "s \<le> length line \<Longrightarrow> skip_while P line s \<le> length line"
  by (induction P line s rule: skip_while.induct) (subst skip_while.simps, auto)

lemma skip_while_stop:
  "skip_while P line s < length line \<Longrightarrow> \<not> P (line ! skip_while P line s)"
  by (induction P line s rule: skip_while.induct) (subst (asm) skip_while.simps, subst skip_while.simps, auto split: if_splits)

lemma skip_while_between:
  "s \<le> i \<Longrightarrow> i < skip_while P line s \<Longrightarrow> P (line ! i)"
proof (induction P line s rule: skip_while.induct)
  case (1 P line s)
  show ?case
  proof (cases "i = s")
    case True
    then show ?thesis using 1(3) by (subst (asm) skip_while.simps) (auto split: if_splits)
  next
    case False
    then show ?thesis using 1 by (subst (asm) (2) skip_while.simps) (auto split: if_splits)
  qed
qed

lemma skip_while_id: "\<not> (s < length line \<and> P (line ! s)) \<Longrightarrow> skip_while P line s = s"
  by (subst skip_while.simps) auto

lemma skip_while_idem: "skip_while P line (skip_while P line s) = skip_while P line s"
  using skip_while_stop [of P line s] by (intro skip_while_id) blast

lemma skip_while_step: "s < length line \<Longrightarrow> P (line ! s) \<Longrightarrow> skip_while P line s = skip_while P line (Suc s)"
  by (subst skip_while.simps) simp

text \<open>What a token of kind \<open>ret\<close> is: \<open>s0 \<le> q \<le> eq \<le> s\<close> inside the line.\<close>

lemma gettoken_bounds:
  assumes "gettoken line s0 = (ret, q, eq, s)" and "s0 \<le> length line"
  shows "s0 \<le> q" "q \<le> eq" "eq \<le> s" "s \<le> length line"
proof -
  let ?q = "skip_while is_space line s0"
  have q: "s0 \<le> ?q" "?q \<le> length line" using assms(2) by (simp_all add: skip_while_ge skip_while_le)
  have e: "q = ?q \<and> q \<le> eq \<and> eq \<le> length line \<and> s = skip_while is_space line eq"
    using assms(1) q skip_while_ge [of ?q is_word line] skip_while_le [of ?q line is_word]
    by (auto simp: gettoken_def Let_def char_at_def NUL_def split: if_splits)
  then show "s0 \<le> q" "q \<le> eq" "eq \<le> s" "s \<le> length line"
    using q skip_while_ge [of eq] skip_while_le [of eq] by auto
qed

lemma gettoken_progress:
  assumes "gettoken line s0 = (ret, q, eq, s)" and "ret \<noteq> NUL"
  shows "q < eq" and "q < length line"
proof -
  let ?q = "skip_while is_space line s0"
  have q: "q = ?q" using assms(1) by (auto simp: gettoken_def Let_def split: if_splits)
  have c: "char_at line ?q \<noteq> NUL" using assms by (auto simp: gettoken_def Let_def split: if_splits)
  then show l: "q < length line" using q by (auto simp: char_at_def split: if_splits)
  show "q < eq"
  proof (cases "char_at line ?q \<in> set ''|();&<>''")
    case True
    then show ?thesis using assms(1) c by (auto simp: gettoken_def Let_def split: if_splits)
  next
    case False
    have "\<not> is_space (line ! ?q)" using skip_while_stop [of is_space line s0] l q by simp
    moreover have "\<not> is_symbol (line ! ?q)" using False l q by (auto simp: is_symbol_def symbols_def char_at_def)
    ultimately have "Suc ?q \<le> skip_while is_word line ?q"
      using l q skip_while_step [of ?q line is_word] skip_while_ge [of "Suc ?q"] by (simp add: is_word_def)
    moreover have "eq = skip_while is_word line ?q"
      using assms(1) c False by (auto simp: gettoken_def Let_def split: if_splits)
    ultimately show ?thesis using q by simp
  qed
qed

lemma peek_bounds:
  "peek line s0 toks = (b, s) \<Longrightarrow> s0 \<le> s"
  "peek line s0 toks = (b, s) \<Longrightarrow> s0 \<le> length line \<Longrightarrow> s \<le> length line"
  "peek line s0 toks = (b, s) \<Longrightarrow> b \<Longrightarrow> s < length line \<and> line ! s \<in> set toks \<and> line ! s \<noteq> NUL \<and> \<not> is_space (line ! s)"
  using skip_while_stop [of is_space line s0] skip_while_le [of s0 line is_space]
  by (auto simp: peek_def Let_def skip_while_ge char_at_def split: if_splits)

text \<open>A token that \<open>peek\<close> has seen is read, and reading it advances.\<close>

lemma peek_gettoken:
  assumes "peek line s0 toks = (True, s)"
  obtains ret eq s' where "gettoken line s = (ret, s, eq, s')" "ret \<noteq> NUL" "s < s'"
proof -
  have p: "s < length line" "line ! s \<noteq> NUL" "\<not> is_space (line ! s)" using peek_bounds(3) [OF assms] by auto
  obtain ret q eq s' where g: "gettoken line s = (ret, q, eq, s')" by (metis prod_cases4)
  have q: "q = s" using g p by (auto simp: gettoken_def Let_def skip_while_id split: if_splits)
  have r: "ret \<noteq> NUL" using g p by (auto simp: gettoken_def Let_def skip_while_id char_at_def NUL_def split: if_splits)
  have "s < s'" using gettoken_progress(1) [OF g r] gettoken_bounds(3) [OF g] p(1) q by simp
  with g q r show ?thesis using that by blast
qed

lemma peek_advance:
  assumes "peek line s0 toks = (True, s)" and "gettoken line s = (ret, q, eq, s1)"
  shows "length line - s1 < length line - s0"
    and "gettoken line s1 = (k, q', eq', s2) \<Longrightarrow> length line - s2 < length line - s0"
proof -
  have s: "s0 \<le> s" "s < length line" using peek_bounds [OF assms(1)] by auto
  have s1: "s < s1" "s1 \<le> length line"
    using peek_gettoken [OF assms(1)] assms(2) gettoken_bounds(4) [OF assms(2)] s by auto
  then show "length line - s1 < length line - s0" using s by simp
  show "length line - s2 < length line - s0" if "gettoken line s1 = (k, q', eq', s2)"
    using gettoken_bounds [OF that s1(2)] s s1 by simp
qed

section \<open>The parser\<close>

text \<open>\<open>while(peek(ps, es, "&"))\<close> of \<open>parseline\<close>.\<close>

function parseback :: "string \<Rightarrow> cmd \<Rightarrow> nat \<Rightarrow> cmd \<times> nat" where
  "parseback line c s0 =
     (case peek line s0 ''&'' of (b, s) \<Rightarrow>
        if b then (case gettoken line s of (_, _, _, s') \<Rightarrow> parseback line (BACK c) s') else (c, s))"
  by pat_completeness auto
termination
  by (relation "measure (\<lambda>(line, c, s). length line - s)")
     (simp, simp only: in_measure split, clarify, rule peek_advance(1) [OF sym sym])

declare parseback.simps [simp del]

definition redir_tok :: "char \<Rightarrow> cmd \<Rightarrow> nat \<Rightarrow> nat \<Rightarrow> cmd" where
  "redir_tok tok c q eq =
     (if tok = CHR ''<'' then REDIR c q eq O_RDONLY 0
      else if tok = CHR ''>'' then REDIR c q eq (O_WRONLY OR O_CREATE OR O_TRUNC) 1
      else if tok = CHR ''+'' then REDIR c q eq (O_WRONLY OR O_CREATE) 1
      else c)"

function parseredirs :: "string \<Rightarrow> cmd \<Rightarrow> nat \<Rightarrow> perr + cmd \<times> nat" where
  "parseredirs line c s0 =
     (case peek line s0 ''<>'' of (b, s) \<Rightarrow>
        if \<not> b then Inr (c, s)
        else case gettoken line s of (tok, _, _, s1) \<Rightarrow>
          (case gettoken line s1 of (k, q, eq, s2) \<Rightarrow>
             if k \<noteq> CHR ''a'' then panic_sh ''missing file for redirection''
             else parseredirs line (redir_tok tok c q eq) s2))"
  by pat_completeness auto
termination
  by (relation "measure (\<lambda>(line, c, s). length line - s)")
     (simp, simp only: in_measure split not_not, clarify, rule peek_advance(2) [OF sym sym sym])

declare parseredirs.simps [simp del]

text \<open>
  \<open>cmd->argv[argc] = q; cmd->eargv[argc] = eq\<close> where \<open>cmd\<close> is the command
  under the redirections of \<open>ret\<close>, and the number of its words.
\<close>

fun add_arg :: "cmd \<Rightarrow> nat \<times> nat \<Rightarrow> cmd" where
  "add_arg (EXEC a) w = EXEC (a @ [w])"
| "add_arg (REDIR c q eq m fd) w = REDIR (add_arg c w) q eq m fd"
| "add_arg c w = c"

function parseargs :: "string \<Rightarrow> cmd \<Rightarrow> nat \<Rightarrow> nat \<Rightarrow> perr + cmd \<times> nat" where
  "parseargs line ret argc s0 =
     (case peek line s0 ''|)&;'' of (b, s) \<Rightarrow>
        if b then Inr (ret, s)
        else case gettoken line s of (tok, q, eq, s1) \<Rightarrow>
          if tok = NUL then Inr (ret, s1)
          else if tok \<noteq> CHR ''a'' then panic_sh ''syntax''
          else if argc + 1 \<ge> MAXARGS then panic_sh ''too many args''
          else case parseredirs line (add_arg ret (q, eq)) s1 of
                 Inl e \<Rightarrow> Inl e
               | Inr (ret', s2) \<Rightarrow> parseargs line ret' (argc + 1) s2)"
  by pat_completeness auto
termination by (relation "measure (\<lambda>(line, ret, argc, s). MAXARGS - argc)") auto

declare parseargs.simps [simp del]

text \<open>The recursive descent; the first argument bounds the depth of the calls.\<close>

fun parseline :: "nat \<Rightarrow> string \<Rightarrow> nat \<Rightarrow> perr + cmd \<times> nat"
  and parsepipe :: "nat \<Rightarrow> string \<Rightarrow> nat \<Rightarrow> perr + cmd \<times> nat"
  and parseblock :: "nat \<Rightarrow> string \<Rightarrow> nat \<Rightarrow> perr + cmd \<times> nat"
  and parseexec :: "nat \<Rightarrow> string \<Rightarrow> nat \<Rightarrow> perr + cmd \<times> nat" where
  "parseline 0 line s = Inl Depth"
| "parseline (Suc n) line s =
     (case parsepipe n line s of
        Inl e \<Rightarrow> Inl e
      | Inr (c, s1) \<Rightarrow>
          (case parseback line c s1 of (c, s2) \<Rightarrow>
             case peek line s2 '';'' of (b, s3) \<Rightarrow>
               if b
               then (case gettoken line s3 of (_, _, _, s4) \<Rightarrow>
                       case parseline n line s4 of Inl e \<Rightarrow> Inl e | Inr (r, s5) \<Rightarrow> Inr (LIST c r, s5))
               else Inr (c, s3)))"
| "parsepipe 0 line s = Inl Depth"
| "parsepipe (Suc n) line s =
     (case parseexec n line s of
        Inl e \<Rightarrow> Inl e
      | Inr (c, s1) \<Rightarrow>
          (case peek line s1 ''|'' of (b, s2) \<Rightarrow>
             if b
             then (case gettoken line s2 of (_, _, _, s3) \<Rightarrow>
                     case parsepipe n line s3 of Inl e \<Rightarrow> Inl e | Inr (r, s4) \<Rightarrow> Inr (PIPE c r, s4))
             else Inr (c, s2)))"
| "parseblock 0 line s = Inl Depth"
| "parseblock (Suc n) line s =
     (case peek line s ''('' of (b, s1) \<Rightarrow>
        if \<not> b then panic_sh ''parseblock''
        else case gettoken line s1 of (_, _, _, s2) \<Rightarrow>
          (case parseline n line s2 of
             Inl e \<Rightarrow> Inl e
           | Inr (c, s3) \<Rightarrow>
               (case peek line s3 '')'' of (b, s4) \<Rightarrow>
                  if \<not> b then panic_sh ''syntax - missing )''
                  else case gettoken line s4 of (_, _, _, s5) \<Rightarrow> parseredirs line c s5)))"
| "parseexec 0 line s = Inl Depth"
| "parseexec (Suc n) line s =
     (case peek line s ''('' of (b, s1) \<Rightarrow>
        if b then parseblock n line s1
        else case parseredirs line (EXEC []) s1 of
               Inl e \<Rightarrow> Inl e
             | Inr (ret, s2) \<Rightarrow> parseargs line ret 0 s2)"

definition parse_depth :: "string \<Rightarrow> nat" where
  "parse_depth line = 4 * length line + 4"

text \<open>
  Zeros are written at the end of every word; \<open>buf\<close> is the buffer with the
  line in front.
\<close>

primrec nulterminate :: "cmd \<Rightarrow> string \<Rightarrow> string" where
  "nulterminate (EXEC a) buf = fold (\<lambda>(q, eq) b. b[eq := NUL]) a buf"
| "nulterminate (REDIR c q eq m fd) buf = (nulterminate c buf)[eq := NUL]"
| "nulterminate (PIPE l r) buf = nulterminate r (nulterminate l buf)"
| "nulterminate (LIST l r) buf = nulterminate r (nulterminate l buf)"
| "nulterminate (BACK c) buf = nulterminate c buf"

definition parsecmd :: "string \<Rightarrow> perr + cmd \<times> string" where
  "parsecmd line =
     (case parseline (parse_depth line) line 0 of
        Inl e \<Rightarrow> Inl e
      | Inr (c, s) \<Rightarrow>
          (case peek line s '''' of (_, s1) \<Rightarrow>
             if s1 \<noteq> length line
             then Inl (ShPanic (''leftovers: '' @ drop s1 line @ [CHR 0x0A] @ ''syntax'' @ [CHR 0x0A]))
             else Inr (c, nulterminate c (line @ [NUL]))))"

section \<open>Words of a command\<close>

primrec spans :: "cmd \<Rightarrow> (nat \<times> nat) list" where
  "spans (EXEC a) = a"
| "spans (REDIR c q eq m fd) = spans c @ [(q, eq)]"
| "spans (PIPE l r) = spans l @ spans r"
| "spans (LIST l r) = spans l @ spans r"
| "spans (BACK c) = spans c"

text \<open>A maximal run of word characters.\<close>

definition wordrun :: "string \<Rightarrow> nat \<times> nat \<Rightarrow> bool" where
  "wordrun line w \<longleftrightarrow> (case w of (q, eq) \<Rightarrow> q < eq \<and> eq \<le> length line
     \<and> (\<forall>i. q \<le> i \<longrightarrow> i < eq \<longrightarrow> is_word (line ! i)) \<and> (eq < length line \<longrightarrow> \<not> is_word (line ! eq)))"

lemma gettoken_word:
  assumes "gettoken line s0 = (CHR ''a'', q, eq, s)" and "s0 \<le> length line"
  shows "wordrun line (q, eq)"
proof -
  have "CHR ''a'' \<noteq> NUL" by (simp add: NUL_def)
  note p = gettoken_progress [OF assms(1) this]
  have e: "eq = skip_while is_word line q"
    using assms(1) by (auto simp: gettoken_def Let_def NUL_def split: if_splits)
  show ?thesis
    using p gettoken_bounds [OF assms] skip_while_between [of q _ is_word line] skip_while_stop [of is_word line q]
    by (auto simp: wordrun_def e)
qed

definition well_parsed :: "string \<Rightarrow> nat \<Rightarrow> perr + cmd \<times> nat \<Rightarrow> bool" where
  "well_parsed line s r \<longleftrightarrow> (case r of Inl _ \<Rightarrow> True
     | Inr (c, s') \<Rightarrow> s \<le> s' \<and> s' \<le> length line \<and> (\<forall>w \<in> set (spans c). wordrun line w))"

lemma parseback_well:
  "s \<le> length line \<Longrightarrow> \<forall>w \<in> set (spans c). wordrun line w \<Longrightarrow> well_parsed line s (Inr (parseback line c s))"
proof (induction line c s rule: parseback.induct)
  case (1 line c s0)
  obtain b s where p: "peek line s0 ''&'' = (b, s)" by fastforce
  note pb = peek_bounds(1,2) [OF p]
  show ?case
  proof (cases b)
    case True
    with p obtain ret eq s' where g: "gettoken line s = (ret, s, eq, s')" "s < s'" using peek_gettoken by metis
    then have "well_parsed line s' (Inr (parseback line (BACK c) s'))"
      using 1 p True pb gettoken_bounds(4) [OF g(1)] by (auto simp: peek_bounds)
    then show ?thesis
      using p True g pb by (subst parseback.simps) (auto simp: well_parsed_def split: prod.splits)
  next
    case False
    then show ?thesis using p pb 1(2,3) by (subst parseback.simps) (auto simp: well_parsed_def)
  qed
qed

lemma spans_redir_tok: "set (spans (redir_tok tok c q eq)) \<subseteq> insert (q, eq) (set (spans c))"
  by (auto simp: redir_tok_def)

lemma parseredirs_well:
  "s \<le> length line \<Longrightarrow> \<forall>w \<in> set (spans c). wordrun line w \<Longrightarrow> well_parsed line s (parseredirs line c s)"
proof (induction line c s rule: parseredirs.induct)
  case (1 line c s0)
  obtain b s where p: "peek line s0 ''<>'' = (b, s)" by fastforce
  obtain tok q0 eq0 s1 where g1: "gettoken line s = (tok, q0, eq0, s1)" by (metis prod_cases4)
  obtain k q eq s2 where g2: "gettoken line s1 = (k, q, eq, s2)" by (metis prod_cases4)
  have b1: "s0 \<le> s" "s \<le> length line" using peek_bounds(1,2) [OF p] 1(2) by auto
  note b2 = gettoken_bounds [OF g1 b1(2)]
  note b3 = gettoken_bounds [OF g2 b2(4)]
  show ?case
  proof (cases "b \<and> k = CHR ''a''")
    case True
    then have "\<forall>w \<in> set (spans (redir_tok tok c q eq)). wordrun line w"
      using 1(3) spans_redir_tok gettoken_word [of line s1 q eq s2] g2 b2 by fastforce
    then have "well_parsed line s2 (parseredirs line (redir_tok tok c q eq) s2)"
      using 1(1) [OF p [symmetric] _ g1 [symmetric] refl refl g2 [symmetric] refl refl] True b3 by simp
    then show ?thesis
      using p g1 g2 True b1 b2 b3 by (subst parseredirs.simps) (auto simp: well_parsed_def split: sum.splits)
  next
    case False
    then show ?thesis
      using p g1 g2 b1 1(3) by (subst parseredirs.simps) (auto simp: well_parsed_def panic_sh_def)
  qed
qed

lemma spans_add_arg: "set (spans (add_arg c w)) \<subseteq> insert w (set (spans c))"
  by (induction c w rule: add_arg.induct) auto

lemma parseargs_well:
  "s \<le> length line \<Longrightarrow> \<forall>w \<in> set (spans ret). wordrun line w \<Longrightarrow> well_parsed line s (parseargs line ret argc s)"
proof (induction line ret argc s rule: parseargs.induct)
  case (1 line ret argc s0)
  obtain b s where p: "peek line s0 ''|)&;'' = (b, s)" by fastforce
  obtain tok q eq s1 where g: "gettoken line s = (tok, q, eq, s1)" by (metis prod_cases4)
  have b1: "s0 \<le> s" "s \<le> length line" using peek_bounds(1,2) [OF p] 1(2) by auto
  note b2 = gettoken_bounds [OF g b1(2)]
  let ?r = "parseredirs line (add_arg ret (q, eq)) s1"
  show ?case
  proof (cases "\<not> b \<and> tok = CHR ''a'' \<and> \<not> argc + 1 \<ge> MAXARGS")
    case True
    then have w: "\<forall>w \<in> set (spans (add_arg ret (q, eq))). wordrun line w"
      using 1(3) spans_add_arg [of ret "(q, eq)"] gettoken_word [of line s q eq s1] g b1 by fastforce
    then have r: "well_parsed line s1 ?r" using parseredirs_well b2(4) by blast
    show ?thesis
    proof (cases ?r)
      case (Inl e)
      then show ?thesis using p g True by (subst parseargs.simps) (auto simp: well_parsed_def NUL_def)
    next
      case (Inr x)
      obtain ret' s2 where x: "x = (ret', s2)" by fastforce
      have nn: "tok \<noteq> NUL" using True by (simp add: NUL_def)
      have "well_parsed line s2 (parseargs line ret' (argc + 1) s2)"
        using 1(1) [OF p [symmetric] _ g [symmetric] refl refl nn _ _ Inr x [symmetric]] True r Inr x by (auto simp: well_parsed_def)
      then show ?thesis
        using p g True nn Inr x r b1 b2
        by (subst parseargs.simps) (auto simp: well_parsed_def split: sum.splits)
    qed
  next
    case False
    then show ?thesis
      using p g b1 b2 1(3) by (subst parseargs.simps) (auto simp: well_parsed_def panic_sh_def)
  qed
qed

lemma parse_well:
  "s \<le> length line \<Longrightarrow> well_parsed line s (parseline n line s)"
  "s \<le> length line \<Longrightarrow> well_parsed line s (parsepipe n line s)"
  "s \<le> length line \<Longrightarrow> well_parsed line s (parseblock n line s)"
  "s \<le> length line \<Longrightarrow> well_parsed line s (parseexec n line s)"
proof (induction n line s and n line s and n line s and n line s
    rule: parseline_parsepipe_parseblock_parseexec.induct)
  case (2 n line s)
  show ?case
  proof (cases "parsepipe n line s")
    case (Inr x)
    obtain c s1 where x: "x = (c, s1)" by fastforce
    obtain c' s2 where k: "parseback line c s1 = (c', s2)" by fastforce
    obtain b s3 where p: "peek line s2 '';'' = (b, s3)" by fastforce
    obtain tok q eq s4 where g: "gettoken line s3 = (tok, q, eq, s4)" by (metis prod_cases4)
    have 1: "well_parsed line s (Inr (c, s1))" using 2 Inr x by simp
    then have 22: "well_parsed line s1 (Inr (c', s2))" using parseback_well [of s1 line c] k by (auto simp: well_parsed_def)
    have 3: "s2 \<le> s3" "s3 \<le> length line" using peek_bounds(1,2) [OF p] 22 by (auto simp: well_parsed_def)
    note g4 = gettoken_bounds [OF g 3(2)]
    have "well_parsed line s4 (parseline n line s4)" if b
      using 2(2) [OF Inr x [symmetric] k [symmetric] p [symmetric] that g [symmetric] refl refl] g4 by simp
    then show ?thesis
      using 1 22 3 g4 Inr x k p g by (auto simp: well_parsed_def split: sum.splits)
  qed (simp add: well_parsed_def)
next
  case (4 n line s)
  show ?case
  proof (cases "parseexec n line s")
    case (Inr x)
    obtain c s1 where x: "x = (c, s1)" by fastforce
    obtain b s2 where p: "peek line s1 ''|'' = (b, s2)" by fastforce
    obtain tok q eq s3 where g: "gettoken line s2 = (tok, q, eq, s3)" by (metis prod_cases4)
    have 1: "well_parsed line s (Inr (c, s1))" using 4 Inr x by simp
    have 2: "s1 \<le> s2" "s2 \<le> length line" using peek_bounds(1,2) [OF p] 1 by (auto simp: well_parsed_def)
    note g3 = gettoken_bounds [OF g 2(2)]
    have "well_parsed line s3 (parsepipe n line s3)" if b
      using 4(2) [OF Inr x [symmetric] p [symmetric] that g [symmetric] refl refl] g3 by simp
    then show ?thesis
      using 1 2 g3 Inr x p g by (auto simp: well_parsed_def split: sum.splits)
  qed (simp add: well_parsed_def)
next
  case (6 n line s)
  obtain b s1 where p: "peek line s ''('' = (b, s1)" by fastforce
  obtain tok q eq s2 where g: "gettoken line s1 = (tok, q, eq, s2)" by (metis prod_cases4)
  have 1: "s \<le> s1" "s1 \<le> length line" using peek_bounds(1,2) [OF p] 6(2) by auto
  note g2 = gettoken_bounds [OF g 1(2)]
  show ?case
  proof (cases "b \<and> (\<exists>x. parseline n line s2 = Inr x)")
    case True
    then obtain c s3 where c: "parseline n line s2 = Inr (c, s3)" by auto
    have 2: "well_parsed line s2 (Inr (c, s3))"
      using 6(1) [OF p [symmetric] _ g [symmetric] refl refl] True c g2 by simp
    obtain b' s4 where p': "peek line s3 '')'' = (b', s4)" by fastforce
    obtain tok' q' eq' s5 where g': "gettoken line s4 = (tok', q', eq', s5)" by (metis prod_cases4)
    have 3: "s3 \<le> s4" "s4 \<le> length line" using peek_bounds(1,2) [OF p'] 2 by (auto simp: well_parsed_def)
    note g5 = gettoken_bounds [OF g' 3(2)]
    have "well_parsed line s5 (parseredirs line c s5)"
      using parseredirs_well g5 2 by (auto simp: well_parsed_def)
    then show ?thesis
      using True p g c p' g' 1 g2 2 3 g5 by (auto simp: well_parsed_def panic_sh_def split: sum.splits)
  next
    case False
    then show ?thesis using p g by (auto simp: well_parsed_def panic_sh_def split: sum.splits)
  qed
next
  case (8 n line s)
  obtain b s1 where p: "peek line s ''('' = (b, s1)" by fastforce
  have 1: "s \<le> s1" "s1 \<le> length line" using peek_bounds(1,2) [OF p] 8(2) by auto
  have 2: "well_parsed line s1 (parseblock n line s1)" if b using 8(1) [OF p [symmetric] that] 1 by simp
  have 3: "well_parsed line s1 (parseredirs line (EXEC []) s1)" using parseredirs_well 1(2) by simp
  have 4: "well_parsed line s2 (parseargs line ret 0 s2)" if "parseredirs line (EXEC []) s1 = Inr (ret, s2)" for ret s2
    using 3 that by (intro parseargs_well) (auto simp: well_parsed_def)
  show ?case
    using 1 2 3 4 p by (fastforce simp: well_parsed_def split: sum.splits)
qed (simp_all add: well_parsed_def)

text \<open>The bound on the depth of the calls is never reached.\<close>

lemma panic_not_Depth [simp]: "panic_sh m \<noteq> Inl Depth"
  by (simp add: panic_sh_def)

lemma parseredirs_not_Depth [simp]: "parseredirs line c s \<noteq> Inl Depth"
  by (induction line c s rule: parseredirs.induct) (subst parseredirs.simps, simp split: prod.split)

lemma parseargs_not_Depth [simp]: "parseargs line ret argc s \<noteq> Inl Depth"
proof (induction line ret argc s rule: parseargs.induct)
  case (1 line ret argc s0)
  have "parseredirs line c s \<noteq> Inl Depth" for c s by simp
  then show ?case using 1 by (subst parseargs.simps) (auto split: prod.split sum.split)
qed

lemma parse_depth_enough:
  "s \<le> length line \<Longrightarrow> 4 * (length line - s) + 3 \<le> n \<Longrightarrow> parseline n line s \<noteq> Inl Depth"
  "s \<le> length line \<Longrightarrow> 4 * (length line - s) + 2 \<le> n \<Longrightarrow> parsepipe n line s \<noteq> Inl Depth"
  "s < length line \<Longrightarrow> 4 * (length line - s) \<le> n \<Longrightarrow> parseblock n line s \<noteq> Inl Depth"
  "s \<le> length line \<Longrightarrow> 4 * (length line - s) + 1 \<le> n \<Longrightarrow> parseexec n line s \<noteq> Inl Depth"
proof (induction n line s and n line s and n line s and n line s
    rule: parseline_parsepipe_parseblock_parseexec.induct)
  case (2 n line s)
  show ?case
  proof (cases "parsepipe n line s")
    case (Inl e)
    then show ?thesis using 2 by auto
  next
    case (Inr x)
    obtain c s1 where x: "x = (c, s1)" by fastforce
    obtain c' s2 where k: "parseback line c s1 = (c', s2)" by fastforce
    obtain b s3 where p: "peek line s2 '';'' = (b, s3)" by fastforce
    obtain tok q eq s4 where g: "gettoken line s3 = (tok, q, eq, s4)" by (metis prod_cases4)
    have 1: "well_parsed line s (Inr (c, s1))" using parse_well(2) [OF 2(3), of n] Inr x by simp
    then have 22: "well_parsed line s1 (Inr (c', s2))" using parseback_well [of s1 line c] k by (auto simp: well_parsed_def)
    have 3: "s2 \<le> s3" using peek_bounds(1) [OF p] .
    have "parseline n line s4 \<noteq> Inl Depth" if b
    proof (rule 2(2) [OF Inr x [symmetric] k [symmetric] p [symmetric] that g [symmetric] refl refl])
      have l: "s3 < length line" using peek_bounds(3) [OF p that] by simp
      have "s3 < s4" using peek_gettoken [of line s2 "'';''" s3] p that g by auto
      then show "4 * (length line - s4) + 3 \<le> n" using 2(4) 1 22 3 l by (auto simp: well_parsed_def)
      show "s4 \<le> length line" using gettoken_bounds(4) [OF g] l by simp
    qed
    then show ?thesis using Inr x k p g by (auto split: sum.splits)
  qed
next
  case (4 n line s)
  show ?case
  proof (cases "parseexec n line s")
    case (Inl e)
    then show ?thesis using 4 by auto
  next
    case (Inr x)
    obtain c s1 where x: "x = (c, s1)" by fastforce
    obtain b s2 where p: "peek line s1 ''|'' = (b, s2)" by fastforce
    obtain tok q eq s3 where g: "gettoken line s2 = (tok, q, eq, s3)" by (metis prod_cases4)
    have 1: "well_parsed line s (Inr (c, s1))" using parse_well(4) [OF 4(3), of n] Inr x by simp
    have 3: "s1 \<le> s2" using peek_bounds(1) [OF p] .
    have "parsepipe n line s3 \<noteq> Inl Depth" if b
    proof (rule 4(2) [OF Inr x [symmetric] p [symmetric] that g [symmetric] refl refl])
      have l: "s2 < length line" using peek_bounds(3) [OF p that] by simp
      have "s2 < s3" using peek_gettoken [of line s1 "''|''" s2] p that g by auto
      then show "4 * (length line - s3) + 2 \<le> n" using 4(4) 1 3 l by (auto simp: well_parsed_def)
      show "s3 \<le> length line" using gettoken_bounds(4) [OF g] l by simp
    qed
    then show ?thesis using Inr x p g by (auto split: sum.splits)
  qed
next
  case (6 n line s)
  obtain b s1 where p: "peek line s ''('' = (b, s1)" by fastforce
  obtain tok q eq s2 where g: "gettoken line s1 = (tok, q, eq, s2)" by (metis prod_cases4)
  have "parseline n line s2 \<noteq> Inl Depth" if b
  proof (rule 6(1) [OF p [symmetric] _ g [symmetric] refl refl])
    have l: "s1 < length line" "s \<le> s1" using peek_bounds(3) [OF p that] peek_bounds(1) [OF p] by simp_all
    have "s1 < s2" using peek_gettoken [of line s "''(''" s1] p that g by auto
    then show "4 * (length line - s2) + 3 \<le> n" using 6(3) l by auto
    show "s2 \<le> length line" using gettoken_bounds(4) [OF g] l by simp
  qed (use that in simp)
  then show ?case using p g by (auto split: sum.split prod.split)
next
  case (8 n line s)
  obtain b s1 where p: "peek line s ''('' = (b, s1)" by fastforce
  have "parseblock n line s1 \<noteq> Inl Depth" if b
    using peek_bounds [OF p] that 8(1) [OF p [symmetric] that] 8(3) by auto
  moreover have "parseredirs line c s \<noteq> Inl Depth" for c s by simp
  ultimately show ?case using p by (auto split: sum.split)
qed simp_all

section \<open>Reading the words\<close>

text \<open>The C string at an offset of the buffer, and the command with its strings read there.\<close>

definition cstr_at :: "string \<Rightarrow> nat \<Rightarrow> string" where
  "cstr_at buf q = takeWhile (\<lambda>c. c \<noteq> NUL) (drop q buf)"

datatype scmd =
    SExec "string list"
  | SRedir scmd string int int
  | SPipe scmd scmd
  | SList scmd scmd
  | SBack scmd

primrec view :: "(nat \<times> nat \<Rightarrow> string) \<Rightarrow> cmd \<Rightarrow> scmd" where
  "view f (EXEC a) = SExec (map f a)"
| "view f (REDIR c q eq m fd) = SRedir (view f c) (f (q, eq)) m fd"
| "view f (PIPE l r) = SPipe (view f l) (view f r)"
| "view f (LIST l r) = SList (view f l) (view f r)"
| "view f (BACK c) = SBack (view f c)"

definition read_cmd :: "string \<Rightarrow> cmd \<Rightarrow> scmd" where
  "read_cmd buf c = view (\<lambda>(q, eq). cstr_at buf q) c"

definition word_at :: "string \<Rightarrow> nat \<times> nat \<Rightarrow> string" where
  "word_at line w = take (snd w - fst w) (drop (fst w) line)"

lemma view_cong: "(\<And>w. w \<in> set (spans c) \<Longrightarrow> f w = g w) \<Longrightarrow> view f c = view g c"
  by (induction c) auto

lemma fold_update_len: "length (fold (\<lambda>(q, eq) b. b[eq := x]) a buf) = length buf"
  by (induction a arbitrary: buf) (auto split: prod.splits)

lemma nulterminate_len [simp]: "length (nulterminate c buf) = length buf"
  by (induction c arbitrary: buf) (auto simp: fold_update_len)

lemma fold_update_nth:
  "i < length buf \<Longrightarrow> fold (\<lambda>(q, eq) b. b[eq := x]) a buf ! i = (if i \<in> snd ` set a then x else buf ! i)"
  by (induction a arbitrary: buf) (auto simp: nth_list_update split: prod.splits)

lemma nulterminate_nth:
  "i < length buf \<Longrightarrow> nulterminate c buf ! i = (if i \<in> snd ` set (spans c) then NUL else buf ! i)"
proof (induction c arbitrary: buf)
  case (REDIR c q eq m fd)
  then have "nulterminate c buf ! i = (if i \<in> snd ` set (spans c) then NUL else buf ! i)" by blast
  then show ?case using REDIR.prems by (cases "i = eq") (simp_all add: image_Un)
qed (simp_all add: fold_update_nth image_Un)

lemma takeWhile_prefix:
  assumes "q + k < length buf" and "\<And>i. i < k \<Longrightarrow> buf ! (q + i) \<noteq> x" and "buf ! (q + k) = x"
  shows "takeWhile (\<lambda>c. c \<noteq> x) (drop q buf) = take k (drop q buf)"
proof -
  have eq: "drop q buf = take k (drop q buf) @ x # drop (Suc (q + k)) buf"
    using assms(1,3) by (metis append_take_drop_id drop_drop add.commute Cons_nth_drop_Suc)
  have "\<forall>c \<in> set (take k (drop q buf)). c \<noteq> x"
    using assms(1,2) by (force simp: in_set_conv_nth)
  then have "takeWhile (\<lambda>c. c \<noteq> x) (take k (drop q buf) @ x # drop (Suc (q + k)) buf) = take k (drop q buf)"
    by (simp add: takeWhile_append)
  then show ?thesis by (simp only: eq [symmetric])
qed

lemma nulterminate_words:
  assumes "\<forall>w \<in> set (spans c). wordrun line w" and "NUL \<notin> set line" and "(q, eq) \<in> set (spans c)"
  shows "cstr_at (nulterminate c (line @ [NUL])) q = word_at line (q, eq)"
proof -
  let ?b = "nulterminate c (line @ [NUL])"
  have w: "q < eq" "eq \<le> length line" "\<And>i. q \<le> i \<Longrightarrow> i < eq \<Longrightarrow> is_word (line ! i)"
    using assms(1,3) by (auto simp: wordrun_def)
  have in_b: "?b ! i = line ! i" if "q \<le> i" "i < eq" for i
  proof -
    have "i \<noteq> eq'" if "(q', eq') \<in> set (spans c)" for q' eq'
      using assms(1) that w \<open>q \<le> i\<close> \<open>i < eq\<close> by (fastforce simp: wordrun_def)
    then have "i \<notin> snd ` set (spans c)" by fastforce
    then show ?thesis using w that by (simp add: nulterminate_nth nth_append)
  qed
  have "line ! i \<noteq> NUL" if "i < length line" for i using assms(2) that nth_mem by metis
  then have "?b ! (q + i) \<noteq> NUL" if "i < eq - q" for i using in_b [of "q + i"] that w by simp
  moreover have "?b ! (q + (eq - q)) = NUL" using assms(3) w by (force simp: nulterminate_nth)
  ultimately have "cstr_at ?b q = take (eq - q) (drop q ?b)"
    unfolding cstr_at_def using w by (intro takeWhile_prefix) simp_all
  also have "\<dots> = word_at line (q, eq)"
    using w in_b by (intro nth_equalityI) (simp_all add: word_at_def)
  finally show ?thesis .
qed

lemma parsecmd_words:
  assumes p: "parsecmd line = Inr (c, buf)" "NUL \<notin> set line"
  shows "length buf = length line + 1 \<and> read_cmd buf c = view (word_at line) c \<and> (\<forall>w \<in> set (spans c). wordrun line w)"
proof -
  have "well_parsed line 0 (parseline (parse_depth line) line 0)" by (rule parse_well(1)) simp
  moreover have c: "\<exists>s. parseline (parse_depth line) line 0 = Inr (c, s)" "buf = nulterminate c (line @ [NUL])"
    using p(1) by (auto simp: parsecmd_def split: sum.splits prod.splits if_splits)
  ultimately have w: "\<forall>w \<in> set (spans c). wordrun line w" by (auto simp: well_parsed_def)
  have "read_cmd buf c = view (word_at line) c"
    unfolding read_cmd_def by (rule view_cong) (use nulterminate_words [OF w p(2)] c(2) in auto)
  then show ?thesis using w c(2) by simp
qed

lemma parseline_depth: "parseline (parse_depth line) line 0 \<noteq> Inl Depth"
  by (rule parse_depth_enough(1)) (simp_all add: parse_depth_def)



section \<open>Commands as lines\<close>

text \<open>
  The tokens of a command, at the four levels of the grammar, and the line that
  holds them, each followed by a blank.
\<close>

definition redir_sym :: "int \<Rightarrow> int \<Rightarrow> string" where
  "redir_sym m fd = (if fd = 0 then ''<'' else if m = (O_WRONLY OR O_CREATE) then ''>>'' else ''>'')"

function (sequential) exec_toks :: "scmd \<Rightarrow> string list" and pipe_toks :: "scmd \<Rightarrow> string list"
  and back_toks :: "scmd \<Rightarrow> string list" and line_toks :: "scmd \<Rightarrow> string list" where
  "exec_toks (SExec ws) = ws"
| "exec_toks (SRedir c f m fd) = exec_toks c @ [redir_sym m fd, f]"
| "exec_toks (SPipe l r) = [''(''] @ exec_toks l @ [''|''] @ pipe_toks r @ ['')'']"
| "exec_toks (SList l r) = [''(''] @ back_toks l @ ['';''] @ line_toks r @ ['')'']"
| "exec_toks (SBack c) = [''(''] @ back_toks c @ [''&''] @ ['')'']"
| "pipe_toks (SPipe l r) = exec_toks l @ [''|''] @ pipe_toks r"
| "pipe_toks c = exec_toks c"
| "back_toks (SBack c) = back_toks c @ [''&'']"
| "back_toks c = pipe_toks c"
| "line_toks (SList l r) = back_toks l @ ['';''] @ line_toks r"
| "line_toks c = back_toks c"
  by pat_completeness auto
termination
  by (relation "measures [\<lambda>x. case x of Inl (Inl c) \<Rightarrow> size c | Inl (Inr c) \<Rightarrow> size c | Inr (Inl c) \<Rightarrow> size c | Inr (Inr c) \<Rightarrow> size c,
        \<lambda>x. case x of Inl (Inl c) \<Rightarrow> 0 | Inl (Inr c) \<Rightarrow> 1 | Inr (Inl c) \<Rightarrow> 2 | Inr (Inr c) \<Rightarrow> 3]") auto

definition render :: "string list \<Rightarrow> string" where
  "render toks = concat (map (\<lambda>t. t @ '' '') toks)"

definition unparse :: "scmd \<Rightarrow> string" where
  "unparse a = render (line_toks a)"

definition valid_word :: "string \<Rightarrow> bool" where
  "valid_word w \<longleftrightarrow> w \<noteq> [] \<and> (\<forall>c \<in> set w. is_word c \<and> c \<noteq> NUL)"

text \<open>The commands the shell can hold: few enough words, and the three kinds of redirection.\<close>

primrec valid_cmd :: "scmd \<Rightarrow> bool" where
  "valid_cmd (SExec ws) \<longleftrightarrow> length ws < MAXARGS \<and> (\<forall>w \<in> set ws. valid_word w)"
| "valid_cmd (SRedir c f m fd) \<longleftrightarrow> valid_cmd c \<and> valid_word f
     \<and> (m, fd) \<in> {(O_RDONLY, 0), (O_WRONLY OR O_CREATE OR O_TRUNC, 1), (O_WRONLY OR O_CREATE, 1)}"
| "valid_cmd (SPipe l r) \<longleftrightarrow> valid_cmd l \<and> valid_cmd r"
| "valid_cmd (SList l r) \<longleftrightarrow> valid_cmd l \<and> valid_cmd r"
| "valid_cmd (SBack c) \<longleftrightarrow> valid_cmd c"

definition sym_toks :: "string set" where
  "sym_toks = {''('', '')'', ''|'', '';'', ''&'', ''<'', ''>'', ''>>''}"

definition tok_ok :: "string \<Rightarrow> bool" where
  "tok_ok t \<longleftrightarrow> t \<in> sym_toks \<or> valid_word t"

definition tok_kind :: "string \<Rightarrow> char" where
  "tok_kind t = (if t = ''>>'' then CHR ''+'' else if t \<in> sym_toks then hd t else CHR ''a'')"

text \<open>The rest of the line from offset \<open>s\<close> holds the given tokens.\<close>

definition rest :: "string \<Rightarrow> nat \<Rightarrow> string list \<Rightarrow> bool" where
  "rest line s toks \<longleftrightarrow> s \<le> length line \<and> drop s line = render toks \<and> (\<forall>t \<in> set toks. tok_ok t)"

lemma render_simps [simp]:
  "render [] = ''''" "render (t # ts) = t @ CHR '' '' # render ts"
  by (simp_all add: render_def)

lemma tok_head:
  assumes "tok_ok t"
  shows "t \<noteq> []" "\<not> is_space (hd t)" "hd t \<noteq> NUL"
proof -
  have "t \<noteq> [] \<and> \<not> is_space (hd t) \<and> hd t \<noteq> NUL"
  proof (cases "t \<in> sym_toks")
    case True
    then show ?thesis unfolding sym_toks_def
      by (elim insertE emptyE) (simp_all add: is_space_def whitespace_def NUL_def)
  next
    case False
    then show ?thesis using assms by (simp add: tok_ok_def valid_word_def is_word_def)
  qed
  then show "t \<noteq> []" "\<not> is_space (hd t)" "hd t \<noteq> NUL" by simp_all
qed

lemma rest_nth:
  "rest line s ts \<Longrightarrow> i < length (render ts) \<Longrightarrow> s + i < length line \<and> line ! (s + i) = render ts ! i"
  by (auto simp: rest_def dest: arg_cong [of "drop s line" _ length]) (metis nth_drop)

lemma rest_nil: "rest line s [] \<longleftrightarrow> s = length line"
  by (auto simp: rest_def)

lemma rest_char:
  assumes "rest line s (t # ts)"
  shows "s < length line" "line ! s = hd t"
proof -
  have t: "t \<noteq> []" using assms tok_head by (auto simp: rest_def)
  show "s < length line" "line ! s = hd t"
    using rest_nth [OF assms, of 0] t by (auto simp: nth_append hd_conv_nth)
qed

lemma rest_no_space:
  assumes "rest line s ts"
  shows "skip_while is_space line s = s"
proof (cases ts)
  case Nil
  then show ?thesis using assms by (intro skip_while_id) (simp add: rest_nil)
next
  case (Cons t ts')
  then have "\<not> is_space (line ! s)" using assms rest_char [of line s t ts'] tok_head [of t] by (auto simp: rest_def)
  then show ?thesis by (intro skip_while_id) simp
qed

lemma peek_rest:
  assumes "rest line s ts"
  shows "peek line s cs = (case ts of [] \<Rightarrow> False | t # _ \<Rightarrow> hd t \<in> set cs, s)"
proof (cases ts)
  case Nil
  then show ?thesis using assms rest_no_space [OF assms] by (simp add: peek_def Let_def char_at_def rest_nil)
next
  case (Cons t ts')
  then have "tok_ok t" "s < length line" "line ! s = hd t"
    using assms rest_char [of line s t ts'] by (auto simp: rest_def)
  then show ?thesis
    using Cons rest_no_space [OF assms] tok_head(3) [of t] by (simp add: peek_def Let_def char_at_def)
qed

lemma rest_step:
  assumes "rest line s (t # ts)"
  shows "rest line (s + length t + 1) ts"
proof -
  have d: "drop s line = t @ CHR '' '' # render ts" and s: "s \<le> length line" using assms by (simp_all add: rest_def)
  have "drop (s + length t + 1) line = drop (length t + 1) (drop s line)" by (simp add: add.commute add.left_commute)
  moreover have "length line = s + (length t + 1 + length (render ts))"
    using arg_cong [OF d, of length] s by simp
  ultimately show ?thesis using assms d by (simp add: rest_def)
qed

lemma skip_while_eq:
  "s \<le> e \<Longrightarrow> (\<And>i. s \<le> i \<Longrightarrow> i < e \<Longrightarrow> i < length line \<and> P (line ! i)) \<Longrightarrow> \<not> (e < length line \<and> P (line ! e))
   \<Longrightarrow> skip_while P line s = e"
proof (induction P line s rule: skip_while.induct)
  case (1 P line s)
  show ?case
  proof (cases "s = e")
    case True
    then show ?thesis using 1(4) by (simp add: skip_while_id)
  next
    case False
    then have s: "s < length line \<and> P (line ! s)" using 1(2) 1(3) [of s] by simp
    then have "skip_while P line (s + 1) = e" using 1(2-4) False by (intro 1(1)) auto
    then show ?thesis using s by (subst skip_while.simps) simp
  qed
qed

lemma gettoken_rest:
  assumes r: "rest line s (t # ts)"
  shows "gettoken line s = (tok_kind t, s, s + length t, s + length t + 1)"
proof -
  have t: "tok_ok t" "t \<noteq> []" using r tok_head(1) by (auto simp: rest_def)
  note c = rest_char [OF r]
  have nn: "hd t \<noteq> NUL" using tok_head(3) [OF t(1)] .
  have in_t: "s + i < length line \<and> line ! (s + i) = t ! i" if "i < length t" for i
    using rest_nth [OF r, of i] that by (simp add: nth_append)
  have sp: "s + length t < length line \<and> line ! (s + length t) = CHR '' ''"
    using rest_nth [OF r, of "length t"] by (simp add: nth_append)
  have after: "skip_while is_space line (s + length t) = s + length t + 1"
  proof -
    have "is_space (CHR '' '')" by (simp add: is_space_def whitespace_def)
    then have "skip_while is_space line (s + length t) = skip_while is_space line (Suc (s + length t))"
      using sp by (intro skip_while_step) simp_all
    then show ?thesis using rest_no_space [OF rest_step [OF r]] by simp
  qed
  show ?thesis
  proof (cases "t \<in> sym_toks")
    case True
    have "char_at line (s + 1) = (if t = ''>>'' then CHR ''>'' else CHR '' '')"
      using True in_t [of 1] sp by (auto simp: sym_toks_def char_at_def)
    moreover have "char_at line s = hd t" using c by (simp add: char_at_def)
    ultimately show ?thesis
      using True after rest_no_space [OF r] unfolding sym_toks_def
      by (elim insertE emptyE) (simp_all add: gettoken_def Let_def tok_kind_def sym_toks_def NUL_def)
  next
    case False
    then have w: "valid_word t" using t(1) by (simp add: tok_ok_def)
    then have "is_word (hd t)" using t(2) by (simp add: valid_word_def)
    then have sym: "hd t \<notin> set ''|();&<''" "hd t \<noteq> CHR ''>''" by (auto simp: is_word_def is_symbol_def symbols_def)
    have "\<not> is_word (CHR '' '')" by (simp add: is_word_def is_space_def whitespace_def)
    then have "skip_while is_word line s = s + length t"
      using in_t sp w by (intro skip_while_eq) (auto simp: valid_word_def le_iff_add)
    moreover have "char_at line s = hd t" using c by (simp add: char_at_def)
    moreover have "tok_kind t = CHR ''a''" using False by (auto simp: tok_kind_def sym_toks_def)
    ultimately show ?thesis
      using nn sym after rest_no_space [OF r] by (simp add: gettoken_def Let_def)
  qed
qed

lemma gettoken_end: "rest line s [] \<Longrightarrow> gettoken line s = (NUL, s, s, s)"
  using rest_no_space [of line s "[]"] by (simp add: gettoken_def Let_def char_at_def rest_nil)

lemma word_at_rest: "rest line s (t # ts) \<Longrightarrow> word_at line (s, s + length t) = t"
  by (simp add: word_at_def rest_def)

text \<open>Tokens that may follow a command at each level of the grammar.\<close>

definition starts :: "string list \<Rightarrow> string list \<Rightarrow> bool" where
  "starts ts cs \<longleftrightarrow> ts = [] \<or> hd ts \<in> set cs"

lemma starts_simps [simp]: "starts [] cs" "starts (t # ts) cs \<longleftrightarrow> t \<in> set cs"
  by (simp_all add: starts_def)

lemma peek_starts:
  assumes "rest line s ts" and "starts ts fs" and "\<And>f. f \<in> set fs \<Longrightarrow> hd f \<notin> set cs"
  shows "peek line s cs = (False, s)"
  using assms by (cases ts) (auto simp: peek_rest)

lemma peek_token: "rest line s (t # ts) \<Longrightarrow> hd t \<in> set cs \<Longrightarrow> peek line s cs = (True, s)"
  by (simp add: peek_rest)

lemma peek_word:
  assumes "rest line s (t # ts)" and "valid_word t" and "set cs \<subseteq> set symbols"
  shows "peek line s cs = (False, s)"
proof -
  have "is_word (hd t)" using assms(2) by (simp add: valid_word_def)
  then have "hd t \<notin> set cs" using assms(3) by (auto simp: is_word_def is_symbol_def)
  then show ?thesis using assms(1) by (simp add: peek_rest)
qed

lemma valid_not_sym: "valid_word t \<Longrightarrow> t \<notin> sym_toks"
  unfolding sym_toks_def
  by (rule notI, elim insertE emptyE) (simp_all add: valid_word_def is_word_def is_symbol_def symbols_def)

lemma kind_word: "valid_word t \<Longrightarrow> tok_kind t = CHR ''a''"
proof -
  assume "valid_word t"
  then have "t \<notin> sym_toks" by (rule valid_not_sym)
  moreover from this have "t \<noteq> ''>>''" by (simp add: sym_toks_def)
  ultimately show ?thesis by (simp add: tok_kind_def)
qed

text \<open>A redirection token and its file are consumed by \<open>parseredirs\<close>; otherwise it stops.\<close>

lemma parseredirs_stop:
  "rest line s ts \<Longrightarrow> starts ts [''('', '')'', ''|'', '';'', ''&''] \<Longrightarrow> parseredirs line c s = Inr (c, s)"
  using peek_starts [of line s ts _ "''<>''"] by (subst parseredirs.simps) fastforce

lemma parseredirs_word:
  "rest line s (t # ts) \<Longrightarrow> valid_word t \<Longrightarrow> parseredirs line c s = Inr (c, s)"
  using peek_word [of line s t ts "''<>''"] by (subst parseredirs.simps) (simp add: symbols_def)

lemma parseredirs_step:
  assumes r: "rest line s (redir_sym m fd # f # ts)" and f: "valid_word f"
    and m: "(m, fd) \<in> {(O_RDONLY, 0), (O_WRONLY OR O_CREATE OR O_TRUNC, 1), (O_WRONLY OR O_CREATE, 1)}"
  obtains q s' where "parseredirs line c s = parseredirs line (REDIR c q (q + length f) m fd) s'"
    "rest line s' ts" "word_at line (q, q + length f) = f"
proof -
  let ?q = "s + length (redir_sym m fd) + 1"
  note r2 = rest_step [OF r] and r3 = rest_step [OF rest_step [OF r]]
  have hd: "peek line s ''<>'' = (True, s)"
    by (rule peek_token [OF r]) (simp add: redir_sym_def)
  have k: "tok_kind (redir_sym m fd) = (if fd = 0 then CHR ''<'' else if m = (O_WRONLY OR O_CREATE) then CHR ''+'' else CHR ''>'')"
    by (simp add: tok_kind_def redir_sym_def sym_toks_def)
  have "redir_tok (tok_kind (redir_sym m fd)) c ?q (?q + length f) = REDIR c ?q (?q + length f) m fd"
    using m by (auto simp: k redir_tok_def O_WRONLY_def O_CREATE_def O_TRUNC_def O_RDONLY_def)
  then have "parseredirs line c s = parseredirs line (REDIR c ?q (?q + length f) m fd) (?q + length f + 1)"
    using hd gettoken_rest [OF r] gettoken_rest [OF r2] kind_word [OF f] by (subst parseredirs.simps) simp
  then show ?thesis using that r3 word_at_rest [OF r2] by blast
qed

text \<open>The words of a simple command.\<close>

definition redirs_args :: "string \<Rightarrow> nat \<Rightarrow> cmd \<Rightarrow> nat \<Rightarrow> perr + cmd \<times> nat" where
  "redirs_args line k c s =
     (case parseredirs line c s of Inl e \<Rightarrow> Inl e | Inr (ret, s') \<Rightarrow> parseargs line ret k s')"

lemma redirs_args_words:
  assumes "rest line s (ws @ ts)" and "\<forall>w \<in> set ws. valid_word w" and "k + length ws < MAXARGS"
  shows "\<exists>b s'. redirs_args line k (EXEC a) s = redirs_args line (k + length ws) (EXEC (a @ b)) s'
    \<and> rest line s' ts \<and> map (word_at line) b = ws"
  using assms
proof (induction ws arbitrary: s a k)
  case Nil
  then show ?case by (intro exI [of _ "[]"] exI [of _ s]) simp
next
  case (Cons w ws)
  let ?e = "s + length w"
  have r: "rest line s (w # (ws @ ts))" and w: "valid_word w" using Cons.prems by auto
  have "parseargs line (EXEC a) k s = redirs_args line (k + 1) (EXEC (a @ [(s, ?e)])) (?e + 1)"
    using peek_word [OF r w, of "''|)&;''"] gettoken_rest [OF r] kind_word [OF w] Cons.prems(3)
    by (subst parseargs.simps) (simp add: redirs_args_def symbols_def NUL_def split: sum.split)
  then have 1: "redirs_args line k (EXEC a) s = redirs_args line (k + 1) (EXEC (a @ [(s, ?e)])) (?e + 1)"
    using parseredirs_word [OF r w] by (simp add: redirs_args_def)
  obtain b s' where b: "redirs_args line (k + 1) (EXEC (a @ [(s, ?e)])) (?e + 1)
      = redirs_args line (k + 1 + length ws) (EXEC ((a @ [(s, ?e)]) @ b)) s'"
      "rest line s' ts" "map (word_at line) b = ws"
    using Cons.IH [OF rest_step [OF r], of "k + 1" "a @ [(s, ?e)]"] Cons.prems by auto
  show ?case using 1 b word_at_rest [OF r] by (intro exI [of _ "(s, ?e) # b"] exI [of _ s']) simp
qed

text \<open>What a call returns on the tokens of a command, unless the depth is exhausted.\<close>

definition parses :: "string \<Rightarrow> string list \<Rightarrow> scmd \<Rightarrow> perr + cmd \<times> nat \<Rightarrow> bool" where
  "parses line ts a r \<longleftrightarrow> r = Inl Depth
     \<or> (\<exists>c s. r = Inr (c, s) \<and> rest line s ts \<and> view (word_at line) c = a)"

text \<open>The same before the loop over redirections, and before the loop over \<open>&\<close>.\<close>

definition parses_exec :: "string \<Rightarrow> string list \<Rightarrow> scmd \<Rightarrow> perr + cmd \<times> nat \<Rightarrow> bool" where
  "parses_exec line ts a r \<longleftrightarrow> r = Inl Depth
     \<or> (\<exists>c s k. (r = parseredirs line c s \<or> r = redirs_args line k c s) \<and> rest line s ts \<and> view (word_at line) c = a)"

definition parses_back :: "string \<Rightarrow> string list \<Rightarrow> scmd \<Rightarrow> perr + cmd \<times> nat \<Rightarrow> bool" where
  "parses_back line ts a r \<longleftrightarrow> r = Inl Depth
     \<or> (\<exists>c s c' s'. r = Inr (c, s) \<and> parseback line c s = parseback line c' s' \<and> rest line s' ts
          \<and> view (word_at line) c' = a)"

lemma parses_exec_done:
  assumes "parses_exec line ts a r" and st: "starts ts ['')'', ''|'', '';'', ''&'']"
  shows "parses line ts a r"
proof -
  have "parseredirs line c s = Inr (c, s) \<and> redirs_args line k c s = Inr (c, s)" if "rest line s ts" for c s k
  proof -
    have p: "parseredirs line c s = Inr (c, s)" using that st by (intro parseredirs_stop) (auto simp: starts_def)
    have "parseargs line c k s = Inr (c, s)"
    proof (cases ts)
      case Nil
      then show ?thesis using that peek_rest [OF that] gettoken_end by (subst parseargs.simps) simp
    next
      case (Cons t us)
      then have "peek line s ''|)&;'' = (True, s)" using that st by (intro peek_token) auto
      then show ?thesis by (subst parseargs.simps) simp
    qed
    with p show ?thesis by (simp add: redirs_args_def)
  qed
  then show ?thesis using assms(1) unfolding parses_exec_def parses_def by metis
qed

lemma parses_redir:
  assumes "parses_exec line (redir_sym m fd # f # ts) a r" and f: "valid_word f"
    and m: "(m, fd) \<in> {(O_RDONLY, 0), (O_WRONLY OR O_CREATE OR O_TRUNC, 1), (O_WRONLY OR O_CREATE, 1)}"
  shows "parses_exec line ts (SRedir a f m fd) r"
proof -
  have "\<exists>c' s'. parseredirs line c s = parseredirs line c' s' \<and> rest line s' ts \<and> view (word_at line) c' = SRedir a f m fd"
    if r: "rest line s (redir_sym m fd # f # ts)" and v: "view (word_at line) c = a" for c s
  proof -
    obtain q s' where "parseredirs line c s = parseredirs line (REDIR c q (q + length f) m fd) s'"
        "rest line s' ts" "word_at line (q, q + length f) = f"
      by (rule parseredirs_step [OF r f m, of c])
    then show ?thesis using v by (intro exI [of _ "REDIR c q (q + length f) m fd"] exI [of _ s']) simp
  qed
  then show ?thesis using assms(1) unfolding parses_exec_def redirs_args_def by metis
qed

lemma parses_block:
  assumes r: "rest line s (''('' # us)" and "\<And>n s'. rest line s' us \<Longrightarrow> parses line ('')'' # ts) a (parseline n line s')"
  shows "parses_exec line ts a (parseexec n line s)"
proof -
  have p: "peek line s ''('' = (True, s)" by (rule peek_token [OF r]) simp
  have blk: "parseblock m line s = Inl Depth
      \<or> (\<exists>c s'. parseblock m line s = parseredirs line c s' \<and> rest line s' ts \<and> view (word_at line) c = a)" for m
  proof (cases m)
    case (Suc k)
    have "parses line ('')'' # ts) a (parseline k line (s + length ''('' + 1))" using rest_step [OF r] assms(2) by blast
    then consider "parseline k line (s + length ''('' + 1) = Inl Depth"
      | c s3 where "parseline k line (s + length ''('' + 1) = Inr (c, s3)" "rest line s3 ('')'' # ts)" "view (word_at line) c = a"
      unfolding parses_def by blast
    then show ?thesis
    proof cases
      case 1
      then show ?thesis using p gettoken_rest [OF r] Suc by simp
    next
      case (2 c s3)
      have "peek line s3 '')'' = (True, s3)" by (rule peek_token [OF 2(2)]) simp
      then have "parseblock m line s = parseredirs line c (s3 + length '')'' + 1)"
        using p gettoken_rest [OF r] gettoken_rest [OF 2(2)] Suc 2(1) by simp
      then show ?thesis using rest_step [OF 2(2)] 2(3) by blast
    qed
  qed simp
  show ?thesis
  proof (cases n)
    case (Suc m)
    then have "parseexec n line s = parseblock m line s" using p by simp
    then show ?thesis using blk [of m] unfolding parses_exec_def by auto
  qed (simp add: parses_exec_def)
qed

lemma parses_pipe_end:
  assumes "\<And>n. parses line ts a (parseexec n line s)" and "starts ts ['')'', '';'', ''&'']"
  shows "parses line ts a (parsepipe n line s)"
proof (cases n)
  case (Suc m)
  consider "parseexec m line s = Inl Depth"
    | c s1 where "parseexec m line s = Inr (c, s1)" "rest line s1 ts" "view (word_at line) c = a"
    using assms(1) [of m] unfolding parses_def by blast
  then show ?thesis
  proof cases
    case (2 c s1)
    have "peek line s1 ''|'' = (False, s1)" by (rule peek_starts [OF 2(2) assms(2)]) auto
    then show ?thesis using 2 Suc by (auto simp: parses_def)
  qed (simp add: Suc parses_def)
qed (simp add: parses_def)

lemma parses_pipe:
  assumes "\<And>n. parses line (''|'' # us) a (parseexec n line s)"
    and "\<And>n s'. rest line s' us \<Longrightarrow> parses line ts b (parsepipe n line s')"
  shows "parses line ts (SPipe a b) (parsepipe n line s)"
proof (cases n)
  case (Suc m)
  consider "parseexec m line s = Inl Depth"
    | c s1 where "parseexec m line s = Inr (c, s1)" "rest line s1 (''|'' # us)" "view (word_at line) c = a"
    using assms(1) [of m] unfolding parses_def by blast
  then show ?thesis
  proof cases
    case (2 c s1)
    have "peek line s1 ''|'' = (True, s1)" by (rule peek_token [OF 2(2)]) simp
    moreover have "parses line ts b (parsepipe m line (s1 + length ''|'' + 1))" by (rule assms(2) [OF rest_step [OF 2(2)]])
    ultimately show ?thesis using 2 Suc gettoken_rest [OF 2(2)] by (auto simp: parses_def)
  qed (simp add: Suc parses_def)
qed (simp add: parses_def)

lemma parses_back_start: "parses line ts a r \<Longrightarrow> parses_back line ts a r"
  unfolding parses_def parses_back_def by blast

lemma parses_back_amp:
  assumes "parses_back line (''&'' # ts) a r"
  shows "parses_back line ts (SBack a) r"
proof -
  have "parseback line c s = parseback line (BACK c) (s + length ''&'' + 1)" if r: "rest line s (''&'' # ts)" for c s
    using peek_token [OF r, of "''&''"] gettoken_rest [OF r] by (subst parseback.simps) simp
  moreover have "view (word_at line) (BACK c) = SBack a" if "view (word_at line) c = a" for c using that by simp
  ultimately show ?thesis using assms rest_step unfolding parses_back_def by metis
qed

lemma parseback_stop: "rest line s ts \<Longrightarrow> starts ts ['')'', '';''] \<Longrightarrow> parseback line c s = (c, s)"
  using peek_starts [of line s ts "['')'', '';'']" "''&''"] by (subst parseback.simps) fastforce

lemma parses_line_end:
  assumes "\<And>n. parses_back line ts a (parsepipe n line s)" and st: "starts ts ['')'']"
  shows "parses line ts a (parseline n line s)"
proof (cases n)
  case (Suc m)
  consider "parsepipe m line s = Inl Depth"
    | c s1 c' s2 where "parsepipe m line s = Inr (c, s1)" "parseback line c s1 = parseback line c' s2"
        "rest line s2 ts" "view (word_at line) c' = a"
    using assms(1) [of m] unfolding parses_back_def by blast
  then show ?thesis
  proof cases
    case (2 c s1 c' s2)
    have "peek line s2 '';'' = (False, s2)" by (rule peek_starts [OF 2(3) st]) auto
    moreover have "parseback line c' s2 = (c', s2)" using parseback_stop [OF 2(3)] st by (auto simp: starts_def)
    ultimately show ?thesis using 2 Suc by (auto simp: parses_def)
  qed (simp add: Suc parses_def)
qed (simp add: parses_def)

lemma parses_line:
  assumes "\<And>n. parses_back line ('';'' # us) a (parsepipe n line s)"
    and "\<And>n s'. rest line s' us \<Longrightarrow> parses line ts b (parseline n line s')"
  shows "parses line ts (SList a b) (parseline n line s)"
proof (cases n)
  case (Suc m)
  consider "parsepipe m line s = Inl Depth"
    | c s1 c' s2 where "parsepipe m line s = Inr (c, s1)" "parseback line c s1 = parseback line c' s2"
        "rest line s2 ('';'' # us)" "view (word_at line) c' = a"
    using assms(1) [of m] unfolding parses_back_def by blast
  then show ?thesis
  proof cases
    case (2 c s1 c' s2)
    have "peek line s2 '';'' = (True, s2)" by (rule peek_token [OF 2(3)]) simp
    moreover have "parseback line c' s2 = (c', s2)" using parseback_stop [OF 2(3)] by simp
    moreover have "parses line ts b (parseline m line (s2 + length '';'' + 1))" by (rule assms(2) [OF rest_step [OF 2(3)]])
    ultimately show ?thesis using 2 Suc gettoken_rest [OF 2(3)] by (auto simp: parses_def)
  qed (simp add: Suc parses_def)
qed (simp add: parses_def)

lemma parses_words:
  assumes "rest line s (ws @ ts)" and "\<forall>w \<in> set ws. valid_word w" and "length ws < MAXARGS"
    and "starts ts ['')'', ''|'', '';'', ''&'', ''<'', ''>'', ''>>'']"
  shows "parses_exec line ts (SExec ws) (parseexec n line s)"
proof (cases n)
  case (Suc m)
  have "peek line s ''('' = (False, s)"
  proof (cases ws)
    case Nil
    then show ?thesis using assms(1) by (intro peek_starts [OF _ assms(4)]) auto
  next
    case (Cons w vs)
    then show ?thesis using assms(1,2) by (intro peek_word [of line s w "vs @ ts"]) (auto simp: symbols_def)
  qed
  then have "parseexec n line s = redirs_args line 0 (EXEC []) s" using Suc by (simp add: redirs_args_def)
  moreover obtain b s' where "redirs_args line 0 (EXEC []) s = redirs_args line (0 + length ws) (EXEC ([] @ b)) s'"
      "rest line s' ts" "map (word_at line) b = ws"
    using redirs_args_words [OF assms(1,2), of 0 "[]"] assms(3) by auto
  ultimately show ?thesis unfolding parses_exec_def
    by (intro disjI2 exI [of _ "EXEC b"] exI [of _ s'] exI [of _ "length ws"]) simp
qed (simp add: parses_exec_def)

lemma parses_all:
  "valid_cmd a \<Longrightarrow> rest line s (exec_toks a @ ts) \<Longrightarrow> starts ts ['')'', ''|'', '';'', ''&'', ''<'', ''>'', ''>>'']
    \<Longrightarrow> parses_exec line ts a (parseexec n line s)"
  "valid_cmd a \<Longrightarrow> rest line s (pipe_toks a @ ts) \<Longrightarrow> starts ts ['')'', '';'', ''&'']
    \<Longrightarrow> parses line ts a (parsepipe n line s)"
  "valid_cmd a \<Longrightarrow> rest line s (back_toks a @ ts) \<Longrightarrow> starts ts ['')'', '';'', ''&'']
    \<Longrightarrow> parses_back line ts a (parsepipe n line s)"
  "valid_cmd a \<Longrightarrow> rest line s (line_toks a @ ts) \<Longrightarrow> starts ts ['')'']
    \<Longrightarrow> parses line ts a (parseline n line s)"
proof (induction a and a and a and a arbitrary: s ts n and s ts n and s ts n and s ts n
    rule: exec_toks_pipe_toks_back_toks_line_toks.induct)
  case (1 ws)
  then show ?case by (intro parses_words) auto
next
  case (2 c f m fd)
  have "starts (redir_sym m fd # f # ts) ['')'', ''|'', '';'', ''&'', ''<'', ''>'', ''>>'']" by (simp add: redir_sym_def)
  then have "parses_exec line (redir_sym m fd # f # ts) c (parseexec n line s)" using 2 by auto
  then show ?case using 2(2) by (intro parses_redir) auto
next
  case (3 l r)
  have "parses line (''|'' # (pipe_toks r @ '')'' # ts)) l (parseexec n line s)"
    if "rest line s (exec_toks l @ ''|'' # (pipe_toks r @ '')'' # ts))" for n s
    using that 3 by (intro parses_exec_done) auto
  then have "parses line ('')'' # ts) (SPipe l r) (parsepipe n line s)"
    if "rest line s (exec_toks l @ ''|'' # (pipe_toks r @ '')'' # ts))" for n s
    using that 3 by (intro parses_pipe) auto
  then have "parses line ('')'' # ts) (SPipe l r) (parseline n line s)"
    if "rest line s (exec_toks l @ ''|'' # (pipe_toks r @ '')'' # ts))" for n s
    using that by (intro parses_line_end parses_back_start) auto
  then show ?case
    using 3(4) by (intro parses_block [where us = "exec_toks l @ ''|'' # (pipe_toks r @ '')'' # ts)"]) auto
next
  case (4 l r)
  have "parses line ('')'' # ts) (SList l r) (parseline n line s)"
    if "rest line s (back_toks l @ '';'' # (line_toks r @ '')'' # ts))" for n s
    using that 4 by (intro parses_line [where us = "line_toks r @ '')'' # ts"]) auto
  then show ?case
    using 4(4) by (intro parses_block [where us = "back_toks l @ '';'' # (line_toks r @ '')'' # ts)"]) auto
next
  case (5 c)
  have "parses line ('')'' # ts) (SBack c) (parseline n line s)" if "rest line s (back_toks c @ ''&'' # '')'' # ts)" for n s
    using that 5 by (intro parses_line_end parses_back_amp) auto
  then show ?case using 5(3) by (intro parses_block [where us = "back_toks c @ ''&'' # '')'' # ts"]) auto
next
  case (6 l r)
  have "parses line (''|'' # (pipe_toks r @ ts)) l (parseexec n line s)" for n
    using 6 by (intro parses_exec_done) auto
  then show ?case using 6 by (intro parses_pipe) auto
next
  case "7_1"
  then show ?case by (intro parses_pipe_end parses_exec_done) (auto simp: starts_def)
next
  case "7_2"
  then show ?case by (intro parses_pipe_end parses_exec_done) (auto simp: starts_def)
next
  case "7_3"
  then show ?case by (intro parses_pipe_end parses_exec_done) (auto simp: starts_def)
next
  case "7_4"
  then show ?case by (intro parses_pipe_end parses_exec_done) (auto simp: starts_def)
next
  case (8 c)
  then show ?case by (intro parses_back_amp) auto
next
  case (10 l r)
  then show ?case by (intro parses_line [where us = "line_toks r @ ts"]) auto
next
  case "11_1"
  then show ?case by (intro parses_line_end) (auto simp: starts_def)
next
  case "11_2"
  then show ?case by (intro parses_line_end) (auto simp: starts_def)
next
  case "11_3"
  then show ?case by (intro parses_line_end) (auto simp: starts_def)
next
  case "11_4"
  then show ?case by (intro parses_line_end) (auto simp: starts_def)
qed (auto intro: parses_back_start)

lemma tok_ok_sym [simp]:
  "tok_ok ''(''" "tok_ok '')''" "tok_ok ''|''" "tok_ok '';''" "tok_ok ''&''" "tok_ok ''<''" "tok_ok ''>''" "tok_ok ''>>''"
  by (simp_all add: tok_ok_def sym_toks_def)

lemma tok_ok_word: "valid_word w \<Longrightarrow> tok_ok w"
  by (simp add: tok_ok_def)

lemma toks_ok:
  "valid_cmd a \<Longrightarrow> \<forall>t \<in> set (exec_toks a). tok_ok t"
  "valid_cmd a \<Longrightarrow> \<forall>t \<in> set (pipe_toks a). tok_ok t"
  "valid_cmd a \<Longrightarrow> \<forall>t \<in> set (back_toks a). tok_ok t"
  "valid_cmd a \<Longrightarrow> \<forall>t \<in> set (line_toks a). tok_ok t"
proof (induction a and a and a and a rule: exec_toks_pipe_toks_back_toks_line_toks.induct)
  case (2 c f m fd)
  have "tok_ok (redir_sym m fd)" by (simp add: redir_sym_def)
  then show ?case using 2 by (simp add: tok_ok_word)
qed (simp_all add: tok_ok_word ball_Un)

lemma tok_no_NUL: "tok_ok t \<Longrightarrow> NUL \<notin> set t"
proof (cases "t \<in> sym_toks")
  case True
  then show ?thesis unfolding sym_toks_def by (elim insertE emptyE) (simp_all add: NUL_def)
next
  case False
  moreover assume "tok_ok t"
  ultimately show ?thesis by (auto simp: tok_ok_def valid_word_def)
qed

text \<open>
  C29: Every command the shell can hold, however its lists, pipes, background
  commands, redirections and words are nested, can be written as a line which
  \<open>parsecmd\<close> turns back into it: the strings its fields point to are the words.
\<close>
theorem parse_unparse:
  assumes "valid_cmd a"
  shows "\<exists>c buf. parsecmd (unparse a) = Inr (c, buf) \<and> read_cmd buf c = a"
proof -
  let ?l = "unparse a"
  have ok: "\<forall>t \<in> set (line_toks a). tok_ok t" using toks_ok(4) assms .
  then have r: "rest ?l 0 (line_toks a @ [])" by (simp add: rest_def unparse_def)
  have nn: "NUL \<notin> set ?l" using ok tok_no_NUL by (auto simp: unparse_def render_def NUL_def)
  obtain c s where c: "parseline (parse_depth ?l) ?l 0 = Inr (c, s)" "rest ?l s []" "view (word_at ?l) c = a"
    using parses_all(4) [OF assms r, of "parse_depth ?l"] parseline_depth [of ?l] by (auto simp: parses_def)
  have "parsecmd ?l = Inr (c, nulterminate c (?l @ [NUL]))"
    using c(1,2) peek_rest [OF c(2), of "''''"] by (simp add: parsecmd_def rest_nil)
  moreover from parsecmd_words [OF this nn] have "read_cmd (nulterminate c (?l @ [NUL])) c = a" using c(3) by simp
  ultimately show ?thesis by blast
qed

theorem parse_unparse_witness:
  "\<exists>c buf. parsecmd ''ls | ( wc -l ; cat ) > out & '' = Inr (c, buf)
     \<and> read_cmd buf c = SBack (SPipe (SExec [''ls'']) (SRedir (SList (SExec [''wc'', ''-l'']) (SExec [''cat'']))
         ''out'' (O_WRONLY OR O_CREATE OR O_TRUNC) 1))"
proof -
  let ?a = "SBack (SPipe (SExec [''ls'']) (SRedir (SList (SExec [''wc'', ''-l'']) (SExec [''cat'']))
         ''out'' (O_WRONLY OR O_CREATE OR O_TRUNC) 1))"
  have "unparse ?a = ''ls | ( wc -l ; cat ) > out & ''" by code_simp
  moreover have "valid_cmd ?a" by code_simp
  ultimately show ?thesis using parse_unparse [of ?a] by simp
qed

end
