(* ===== verification/Shrun.thy ===== *)
theory Shrun
  imports Shell
begin

text \<open>
  user/sh.c: running a parsed command and the loop of the shell.  A user program
  is a tree of system calls: each call carries the rest of the program as a
  function of its result, and \<open>Fork\<close> is continued twice.  The descriptor table
  of a process is the one the kernel keeps in \<open>ofile\<close>, with new descriptors
  taken from the front as \<open>fdalloc\<close> does.
\<close>

section \<open>Programs\<close>

datatype call =
    CExec string "string list"
  | COpen string int
  | CClose int
  | CDup int
  | CWait
  | CChdir string
  | CWrite int string

datatype prog =
    Exit int
  | Fork "int \<Rightarrow> prog"
  | Call call "int \<Rightarrow> prog"
  | MkPipe "int \<Rightarrow> int \<Rightarrow> int \<Rightarrow> prog"  \<comment> \<open>result, \<open>p[0]\<close>, \<open>p[1]\<close>\<close>

text \<open>\<open>fprintf(2, ...)\<close> writes one character at a time.\<close>

primrec eprint :: "string \<Rightarrow> prog \<Rightarrow> prog" where
  "eprint [] k = k"
| "eprint (c # cs) k = Call (CWrite 2 [c]) (\<lambda>_. eprint cs k)"

definition sh_panic :: "string \<Rightarrow> prog" where
  "sh_panic msg = eprint (msg @ [CHR 0x0A]) (Exit 1)"

definition fork1 :: "(int \<Rightarrow> prog) \<Rightarrow> prog" where
  "fork1 k = Fork (\<lambda>pid. if pid = - 1 then sh_panic ''fork'' else k pid)"

definition seq :: "call \<Rightarrow> prog \<Rightarrow> prog" where
  "seq c k = Call c (\<lambda>_. k)"

section \<open>runcmd\<close>

primrec runcmd :: "scmd \<Rightarrow> prog" where
  "runcmd (SExec argv) =
     (case argv of
        [] \<Rightarrow> Exit 1
      | a # _ \<Rightarrow> seq (CExec a argv) (eprint (''exec '' @ a @ '' failed'' @ [CHR 0x0A]) (Exit 0)))"
| "runcmd (SRedir c file mode fd) =
     seq (CClose fd)
       (Call (COpen file mode) (\<lambda>r.
          if r < 0 then eprint (''open '' @ file @ '' failed'' @ [CHR 0x0A]) (Exit 1) else runcmd c))"
| "runcmd (SList l r) = fork1 (\<lambda>pid. if pid = 0 then runcmd l else seq CWait (runcmd r))"
| "runcmd (SPipe l r) =
     MkPipe (\<lambda>res p0 p1.
       if res < 0 then sh_panic ''pipe''
       else fork1 (\<lambda>pid.
         if pid = 0
         then seq (CClose 1) (seq (CDup p1) (seq (CClose p0) (seq (CClose p1) (runcmd l))))
         else fork1 (\<lambda>pid.
           if pid = 0
           then seq (CClose 0) (seq (CDup p0) (seq (CClose p0) (seq (CClose p1) (runcmd r))))
           else seq (CClose p0) (seq (CClose p1) (seq CWait (seq CWait (Exit 0)))))))"
| "runcmd (SBack c) = fork1 (\<lambda>pid. if pid = 0 then runcmd c else Exit 0)"

section \<open>The loop of the shell\<close>

text \<open>\<open>gets\<close> of user/ulib.c on the characters that are still to come; it reads fewer than \<open>mx\<close>.\<close>

fun gets :: "nat \<Rightarrow> string \<Rightarrow> string \<times> string" where
  "gets mx [] = ([], [])"
| "gets mx (c # cs) =
     (if mx \<le> 1 then ([], c # cs)
      else if c = CHR 0x0A \<or> c = CHR 0x0D then ([c], cs)
      else case gets (mx - 1) cs of (l, r) \<Rightarrow> (c # l, r))"

text \<open>\<open>while (*cmd == ' ' || *cmd == '\t') cmd++;\<close>\<close>

definition skip_blanks :: "string \<Rightarrow> string" where
  "skip_blanks l = dropWhile (\<lambda>c. c = CHR '' '' \<or> c = CHR 0x09) l"

text \<open>A line as the C string at its start.\<close>

definition cstr :: "string \<Rightarrow> string" where
  "cstr l = takeWhile (\<lambda>c. c \<noteq> NUL) l"

definition run_line :: "string \<Rightarrow> prog" where
  "run_line cmd = (case parsecmd cmd of
       Inl (ShPanic msg) \<Rightarrow> eprint msg (Exit 1)
     | Inl Depth \<Rightarrow> Exit 1
     | Inr (c, buf) \<Rightarrow> runcmd (read_cmd buf c))"

text \<open>One command line: blank, \<open>cd\<close>, or a command run by a child.\<close>

definition sh_line :: "string \<Rightarrow> prog \<Rightarrow> prog" where
  "sh_line buf k =
     (let cmd = skip_blanks (cstr buf) in
      if take 1 cmd = [CHR 0x0A] then k
      else if take 3 cmd = ''cd ''
      then let dir = drop 3 (butlast cmd) in
        Call (CChdir dir) (\<lambda>r. if r < 0 then eprint (''cannot cd '' @ dir @ [CHR 0x0A]) k else k)
      else fork1 (\<lambda>pid. if pid = 0 then run_line cmd else seq CWait k))"

lemma gets_shorter: "gets mx (c # cs) = (l, r) \<Longrightarrow> 1 < mx \<Longrightarrow> length r < length (c # cs)"
proof -
  have "length (snd (gets mx cs)) \<le> length cs" for mx cs
    by (induction mx cs rule: gets.induct) (auto split: prod.splits)
  then have "gets mx cs = (l, r) \<Longrightarrow> length r \<le> length cs" for mx l r by (metis snd_conv)
  then show "gets mx (c # cs) = (l, r) \<Longrightarrow> 1 < mx \<Longrightarrow> length r < length (c # cs)"
    by (auto split: if_splits prod.splits simp: less_Suc_eq_le)
qed

text \<open>\<open>getcmd\<close> returns -1 when the buffer is empty or starts with a zero; \<open>buf[100]\<close>.\<close>

function sh_loop :: "string \<Rightarrow> prog" where
  "sh_loop [] = seq (CWrite 2 ''$ '') (Exit 0)"
| "sh_loop (c # cs) =
     (case gets 100 (c # cs) of (buf, input) \<Rightarrow>
        seq (CWrite 2 ''$ '') (if take 1 buf = [NUL] then Exit 0 else sh_line buf (sh_loop input)))"
  by pat_completeness auto
termination by (relation "measure length") (simp, metis gets_shorter in_measure one_less_numeral_iff semiring_norm(76))

section \<open>Descriptors\<close>

text \<open>What a descriptor refers to; a pipe is named by the point of the run that made it.\<close>

datatype fdobj = FCons | FFile string int | FPipeR "nat list" | FPipeW "nat list"

type_synonym fdtab = "fdobj option list"

text \<open>\<open>fdalloc\<close> of kernel/sysfile.c: the first free slot of the table.\<close>

definition fd_alloc :: "fdobj \<Rightarrow> fdtab \<Rightarrow> int \<times> fdtab" where
  "fd_alloc x f =
     (let fd = length (takeWhile (\<lambda>e. e \<noteq> None) f)
      in if fd < length f then (int fd, f[fd := Some x]) else (- 1, f))"

definition fd_get :: "int \<Rightarrow> fdtab \<Rightarrow> fdobj option" where
  "fd_get fd f = (if 0 \<le> fd \<and> nat fd < length f then f ! nat fd else None)"

definition fd_close :: "int \<Rightarrow> fdtab \<Rightarrow> int \<times> fdtab" where
  "fd_close fd f = (case fd_get fd f of None \<Rightarrow> (- 1, f) | Some _ \<Rightarrow> (0, f[nat fd := None]))"

definition fd_dup :: "int \<Rightarrow> fdtab \<Rightarrow> int \<times> fdtab" where
  "fd_dup fd f = (case fd_get fd f of None \<Rightarrow> (- 1, f) | Some x \<Rightarrow> fd_alloc x f)"

definition fd_pipe :: "nat list \<Rightarrow> fdtab \<Rightarrow> int \<times> int \<times> int \<times> fdtab" where
  "fd_pipe p f =
     (case fd_alloc (FPipeR p) f of (r, f1) \<Rightarrow>
        if r < 0 then (- 1, 0, 0, f)
        else case fd_alloc (FPipeW p) f1 of (w, f2) \<Rightarrow>
          if w < 0 then (- 1, 0, 0, f1[nat r := None]) else (0, r, w, f2))"

text \<open>
  The programs that a run starts, with the descriptors they start with.
  \<open>opens\<close> says which files can be opened; the other calls succeed.
\<close>

primrec run :: "(string \<Rightarrow> int \<Rightarrow> bool) \<Rightarrow> prog \<Rightarrow> fdtab \<Rightarrow> nat list \<Rightarrow> (string list \<times> fdtab) list" where
  "run opens (Exit n) f p = []"
| "run opens (Fork k) f p = run opens (k 0) f (p @ [0]) @ run opens (k 1) f (p @ [1])"
| "run opens (MkPipe k) f p = (case fd_pipe p f of (r, p0, p1, f') \<Rightarrow> run opens (k r p0 p1) f' (p @ [2]))"
| "run opens (Call c k) f p =
     (case c of
        CExec a argv \<Rightarrow> [(argv, f)]
      | COpen file m \<Rightarrow>
          if opens file m then (case fd_alloc (FFile file m) f of (r, f') \<Rightarrow> run opens (k r) f' p)
          else run opens (k (- 1)) f p
      | CClose fd \<Rightarrow> (case fd_close fd f of (r, f') \<Rightarrow> run opens (k r) f' p)
      | CDup fd \<Rightarrow> (case fd_dup fd f of (r, f') \<Rightarrow> run opens (k r) f' p)
      | CWait \<Rightarrow> run opens (k 0) f p
      | CChdir d \<Rightarrow> run opens (k 0) f p
      | CWrite fd s \<Rightarrow> run opens (k (int (length s))) f p)"

text \<open>What a command means: the descriptors each of its programs should have.\<close>

primrec wanted :: "(string \<Rightarrow> int \<Rightarrow> bool) \<Rightarrow> scmd \<Rightarrow> fdtab \<Rightarrow> nat list \<Rightarrow> (string list \<times> fdtab) list" where
  "wanted opens (SExec argv) f p = (if argv = [] then [] else [(argv, f)])"
| "wanted opens (SRedir c file m fd) f p =
     (if opens file m then wanted opens c (f[nat fd := Some (FFile file m)]) p else [])"
| "wanted opens (SList l r) f p = wanted opens l f (p @ [0]) @ wanted opens r f (p @ [1])"
| "wanted opens (SPipe l r) f p =
     wanted opens l (f[1 := Some (FPipeW p)]) (p @ [2, 0]) @ wanted opens r (f[0 := Some (FPipeR p)]) (p @ [2, 1, 0])"
| "wanted opens (SBack c) f p = wanted opens c f (p @ [0])"

text \<open>Descriptors 0, 1 and 2 are open and no other.\<close>

definition std :: "fdtab \<Rightarrow> bool" where
  "std f \<longleftrightarrow> length f = NOFILE \<and> (\<forall>i < NOFILE. f ! i \<noteq> None \<longleftrightarrow> i < 3)"

primrec redirs_ok :: "scmd \<Rightarrow> bool" where
  "redirs_ok (SExec argv) \<longleftrightarrow> True"
| "redirs_ok (SRedir c file m fd) \<longleftrightarrow> redirs_ok c \<and> fd \<in> {0, 1}"
| "redirs_ok (SPipe l r) \<longleftrightarrow> redirs_ok l \<and> redirs_ok r"
| "redirs_ok (SList l r) \<longleftrightarrow> redirs_ok l \<and> redirs_ok r"
| "redirs_ok (SBack c) \<longleftrightarrow> redirs_ok c"

lemma std_cases:
  assumes "std f"
  obtains a b c where "f = Some a # Some b # Some c # replicate 13 None"
proof -
  have l: "length f = 16" and o: "\<And>i. i < 16 \<Longrightarrow> f ! i \<noteq> None \<longleftrightarrow> i < 3" using assms by (auto simp: std_def NOFILE_def)
  obtain a b c where abc: "f ! 0 = Some a" "f ! 1 = Some b" "f ! 2 = Some c" using o [of 0] o [of 1] o [of 2] by auto
  have "f = Some a # Some b # Some c # replicate 13 None"
  proof (rule nth_equalityI)
    fix i assume "i < length f"
    then show "f ! i = (Some a # Some b # Some c # replicate 13 None) ! i"
      using l o [of i] abc by (cases "i < 3") (auto simp: less_Suc_eq numeral_3_eq_3 numeral_2_eq_2 nth_Cons' nth_replicate)
  qed (use l in simp)
  then show thesis using that by blast
qed

lemma std_intro: "std (Some a # Some b # Some c # replicate 13 None)"
  by (auto simp: std_def NOFILE_def nth_Cons split: nat.splits)

lemma run_eprint [simp]: "run opens (eprint s k) f p = run opens k f p"
  by (induction s) auto

lemma run_panic [simp]: "run opens (sh_panic msg) f p = []"
  by (simp add: sh_panic_def)

lemma run_fork1 [simp]: "run opens (fork1 k) f p = run opens (k 0) f (p @ [0]) @ run opens (k 1) f (p @ [1])"
  by (simp add: fork1_def)

lemma run_seq [simp]:
  "run opens (seq (CClose fd) k) f p = run opens k (snd (fd_close fd f)) p"
  "run opens (seq (CDup fd) k) f p = run opens k (snd (fd_dup fd f)) p"
  "run opens (seq CWait k) f p = run opens k f p"
  "run opens (seq (CExec a argv) k) f p = [(argv, f)]"
  by (simp_all add: seq_def split: prod.splits)

lemmas fd_ops = fd_alloc_def fd_get_def fd_close_def fd_dup_def fd_pipe_def Let_def

lemma fd_pipe_std:
  "fd_pipe p (Some a # Some b # Some c # replicate 13 None)
   = (0, 3, 4, Some a # Some b # Some c # Some (FPipeR p) # Some (FPipeW p) # replicate 11 None)"
  by (simp add: fd_ops numeral_nat)

text \<open>The two ends of a pipe are put in place of descriptor 1 and descriptor 0, and nothing else stays open.\<close>

lemma pipe_left:
  "snd (fd_close 4 (snd (fd_close 3 (snd (fd_dup 4 (snd (fd_close 1
     (Some a # Some b # Some c # Some r # Some w # replicate 11 None))))))))
   = Some a # Some w # Some c # replicate 13 None"
  by (simp add: fd_ops numeral_nat)

lemma pipe_right:
  "snd (fd_close 4 (snd (fd_close 3 (snd (fd_dup 3 (snd (fd_close 0
     (Some a # Some b # Some c # Some r # Some w # replicate 11 None))))))))
   = Some r # Some b # Some c # replicate 13 None"
  by (simp add: fd_ops numeral_nat)

lemma redir_std:
  "fd \<in> {0, 1} \<Longrightarrow> fd_alloc x (snd (fd_close fd (Some a # Some b # Some c # replicate 13 None)))
   = (fd, (Some a # Some b # Some c # replicate 13 None)[nat fd := Some x])"
  by (auto simp: fd_ops)

text \<open>
  C30: The shell sets up the descriptors of every program it runs as the command
  says.  Started with descriptors 0, 1 and 2 open, running a command starts
  exactly the programs in it, each with the redirections it stands under applied
  in order and each pipe's ends in place of descriptor 1 of the left side and
  descriptor 0 of the right side; a command whose file cannot be opened starts
  nothing, and no program inherits any descriptor but 0, 1 and 2.
\<close>
theorem runcmd_descriptors:
  "std f \<Longrightarrow> redirs_ok c \<Longrightarrow>
   run opens (runcmd c) f p = wanted opens c f p \<and> (\<forall>(argv, g) \<in> set (run opens (runcmd c) f p). std g)"
proof (induction c arbitrary: f p)
  case (SExec argv)
  then show ?case by (cases argv) auto
next
  case (SRedir c fn m fd)
  obtain a b d where f: "f = Some a # Some b # Some d # replicate 13 None" using SRedir.prems(1) by (rule std_cases)
  have fd: "fd \<in> {0, 1}" using SRedir.prems by auto
  have s: "std (f[nat fd := Some (FFile fn m)])"
    using fd std_intro by (auto simp: f)
  show ?case
    using SRedir.IH [OF s] SRedir.prems redir_std [OF fd, of "FFile fn m" a b d] fd by (auto simp: f)
next
  case (SPipe l r)
  obtain a b d where f: "f = Some a # Some b # Some d # replicate 13 None" using SPipe.prems(1) by (rule std_cases)
  have "run opens (runcmd (SPipe l r)) f p
      = run opens (runcmd l) (Some a # Some (FPipeW p) # Some d # replicate 13 None) (p @ [2, 0])
      @ run opens (runcmd r) (Some (FPipeR p) # Some b # Some d # replicate 13 None) (p @ [2, 1, 0])"
    by (simp add: f fd_pipe_std pipe_left pipe_right)
  then show ?case
    using SPipe.IH(1) [OF std_intro] SPipe.IH(2) [OF std_intro] SPipe.prems by (simp add: f ball_Un)
next
  case (SList l r)
  then show ?case by (simp add: ball_Un)
next
  case (SBack c)
  then show ?case by simp
qed

theorem runcmd_descriptors_witness:
  "run (\<lambda>_ _. True) (runcmd (SPipe (SExec [''ls'']) (SRedir (SExec [''wc'']) ''out'' 1 1)))
     (Some FCons # Some FCons # Some FCons # replicate 13 None) []
   = [([''ls''], Some FCons # Some (FPipeW []) # Some FCons # replicate 13 None),
      ([''wc''], Some (FPipeR []) # Some (FFile ''out'' 1) # Some FCons # replicate 13 None)]"
  using runcmd_descriptors [of "Some FCons # Some FCons # Some FCons # replicate 13 None"
      "SPipe (SExec [''ls'']) (SRedir (SExec [''wc'']) ''out'' 1 1)" "\<lambda>_ _. True" "[]"] std_intro [of FCons FCons FCons]
  by simp

end
