(* ===== verification/Grep.thy ===== *)
theory Grep
  imports Riscv
begin

text \<open>
  user/grep.c: the matcher of Kernighan and Pike and the loop that feeds it the
  lines of a file through a fixed buffer.  Strings are character lists without
  their terminating zero.  The matcher is shown to decide the language of the
  pattern, and the loop to print the matching lines however the reads divide the
  input.
\<close>

section \<open>The matcher\<close>

fun matchhere :: "string \<Rightarrow> string \<Rightarrow> bool"
  and matchstar :: "char \<Rightarrow> string \<Rightarrow> string \<Rightarrow> bool" where
  "matchhere [] str = True"
| "matchhere (c # re) str =
     (if re \<noteq> [] \<and> hd re = CHR ''*'' then matchstar c (tl re) str
      else if c = CHR ''$'' \<and> re = [] then str = []
      else case str of [] \<Rightarrow> False | x # str' \<Rightarrow> (c = CHR ''.'' \<or> c = x) \<and> matchhere re str')"
| "matchstar c re str =
     (matchhere re str \<or> (case str of [] \<Rightarrow> False | x # str' \<Rightarrow> (x = c \<or> c = CHR ''.'') \<and> matchstar c re str'))"

declare matchstar.simps [simp del]

fun match_any :: "string \<Rightarrow> string \<Rightarrow> bool" where
  "match_any re str = (matchhere re str \<or> (case str of [] \<Rightarrow> False | _ # str' \<Rightarrow> match_any re str'))"

declare match_any.simps [simp del]

definition match :: "string \<Rightarrow> string \<Rightarrow> bool" where
  "match re str = (if re \<noteq> [] \<and> hd re = CHR ''^'' then matchhere (tl re) str else match_any re str)"

section \<open>The language of a pattern\<close>

datatype item = One char | Star char

definition accepts :: "char \<Rightarrow> char \<Rightarrow> bool" where
  "accepts c x \<longleftrightarrow> c = CHR ''.'' \<or> c = x"

text \<open>The items of a pattern without \<open>^\<close>, and whether it ends in \<open>$\<close>.\<close>

fun items :: "string \<Rightarrow> item list \<times> bool" where
  "items [] = ([], False)"
| "items (c # re) =
     (if re \<noteq> [] \<and> hd re = CHR ''*'' then (case items (tl re) of (its, e) \<Rightarrow> (Star c # its, e))
      else if c = CHR ''$'' \<and> re = [] then ([], True)
      else (case items re of (its, e) \<Rightarrow> (One c # its, e)))"

primrec lang :: "item list \<Rightarrow> string set" where
  "lang [] = {[]}"
| "lang (i # its) = (case i of
     One c \<Rightarrow> {x # w | x w. accepts c x \<and> w \<in> lang its}
   | Star c \<Rightarrow> {u @ w | u w. (\<forall>x \<in> set u. accepts c x) \<and> w \<in> lang its})"

definition here :: "string \<Rightarrow> string \<Rightarrow> bool" where
  "here re str \<longleftrightarrow> (\<exists>mid post. str = mid @ post \<and> mid \<in> lang (fst (items re)) \<and> (snd (items re) \<longrightarrow> post = []))"

lemma here_nil [simp]: "here [] str"
  by (simp add: here_def)

lemma here_end [simp]: "here [CHR ''$''] str \<longleftrightarrow> str = []"
  by (auto simp: here_def)

lemma here_one:
  assumes "\<not> (re \<noteq> [] \<and> hd re = CHR ''*'')" and "\<not> (c = CHR ''$'' \<and> re = [])"
  shows "here (c # re) str \<longleftrightarrow> (\<exists>x t. str = x # t \<and> accepts c x \<and> here re t)"
proof -
  obtain its e where i: "items re = (its, e)" by fastforce
  then have "items (c # re) = (One c # its, e)" using assms by auto
  then have "here (c # re) str \<longleftrightarrow>
      (\<exists>mid post. str = mid @ post \<and> (\<exists>x w. mid = x # w \<and> accepts c x \<and> w \<in> lang its) \<and> (e \<longrightarrow> post = []))"
    by (simp add: here_def)
  also have "\<dots> \<longleftrightarrow> (\<exists>x w post. str = x # (w @ post) \<and> accepts c x \<and> w \<in> lang its \<and> (e \<longrightarrow> post = []))"
    by (metis append_Cons)
  also have "\<dots> \<longleftrightarrow> (\<exists>x t. str = x # t \<and> accepts c x \<and> here re t)"
    unfolding here_def i fst_conv snd_conv by blast
  finally show ?thesis .
qed

lemma here_star:
  assumes "re \<noteq> []" and "hd re = CHR ''*''"
  shows "here (c # re) str \<longleftrightarrow> (\<exists>u t. str = u @ t \<and> (\<forall>x \<in> set u. accepts c x) \<and> here (tl re) t)"
proof -
  obtain its e where i: "items (tl re) = (its, e)" by fastforce
  then have "items (c # re) = (Star c # its, e)" using assms by simp
  then have "here (c # re) str \<longleftrightarrow>
      (\<exists>mid post. str = mid @ post \<and> (\<exists>u w. mid = u @ w \<and> (\<forall>x \<in> set u. accepts c x) \<and> w \<in> lang its) \<and> (e \<longrightarrow> post = []))"
    by (simp add: here_def)
  also have "\<dots> \<longleftrightarrow>
      (\<exists>u w post. str = u @ w @ post \<and> (\<forall>x \<in> set u. accepts c x) \<and> w \<in> lang its \<and> (e \<longrightarrow> post = []))"
    (is "?l \<longleftrightarrow> ?r")
  proof
    show "?l \<Longrightarrow> ?r" by (elim exE conjE, simp) blast
    assume ?r
    then obtain u w post where "str = (u @ w) @ post" "\<forall>x \<in> set u. accepts c x" "w \<in> lang its" "e \<longrightarrow> post = []" by auto
    then show ?l by blast
  qed
  also have "\<dots> \<longleftrightarrow> (\<exists>u t. str = u @ t \<and> (\<forall>x \<in> set u. accepts c x) \<and> here (tl re) t)"
    unfolding here_def i fst_conv snd_conv by blast
  finally show ?thesis .
qed

lemma star_unfold:
  "(\<exists>u t. str = u @ t \<and> (\<forall>x \<in> set u. P x) \<and> Q t)
   \<longleftrightarrow> Q str \<or> (\<exists>x str'. str = x # str' \<and> P x \<and> (\<exists>u t. str' = u @ t \<and> (\<forall>x \<in> set u. P x) \<and> Q t))"
  (is "?l \<longleftrightarrow> ?r")
proof
  assume ?l
  then obtain u t where "str = u @ t" "\<forall>x \<in> set u. P x" "Q t" by blast
  then show ?r by (cases u) auto
next
  assume ?r
  then show ?l by (elim disjE exE conjE) (force, metis append_Cons set_ConsD)
qed

lemma matchhere_here:
  "matchhere re str \<longleftrightarrow> here re str"
  "matchstar c re str \<longleftrightarrow> (\<exists>u t. str = u @ t \<and> (\<forall>x \<in> set u. accepts c x) \<and> here re t)"
proof (induction re str and c re str rule: matchhere_matchstar.induct)
  case (2 c re str)
  show ?case
  proof (cases "re \<noteq> [] \<and> hd re = CHR ''*''")
    case True
    then show ?thesis using 2(1) by (simp add: here_star)
  next
    case False
    then show ?thesis using 2 by (auto simp: here_one accepts_def split: list.splits)
  qed
next
  case (3 c re str)
  show ?case using 3 by (subst matchstar.simps, subst star_unfold) (auto simp: accepts_def split: list.splits)
qed simp

lemma match_any_here: "match_any re str \<longleftrightarrow> (\<exists>pre t. str = pre @ t \<and> here re t)"
proof (induction re str rule: match_any.induct)
  case (1 re str)
  have "(\<exists>pre t. str = pre @ t \<and> here re t)
      \<longleftrightarrow> here re str \<or> (\<exists>x str'. str = x # str' \<and> (\<exists>pre t. str' = pre @ t \<and> here re t))"
    using star_unfold [of str "\<lambda>_. True" "here re"] by simp
  then show ?case using 1 by (subst match_any.simps) (auto simp: matchhere_here split: list.splits)
qed

text \<open>
  C31: \<open>match\<close> decides the language of the pattern: it answers yes exactly when
  some part of the text is in the language of the items between an optional
  \<open>^\<close> and an optional \<open>$\<close>, and that part starts at the beginning or stops at
  the end of the text where the pattern says so.
\<close>
theorem match_correct:
  "match re str \<longleftrightarrow>
     (let anchored = re \<noteq> [] \<and> hd re = CHR ''^''; (its, e) = items (if anchored then tl re else re)
      in \<exists>pre mid post. str = pre @ mid @ post \<and> mid \<in> lang its \<and> \<not> (anchored \<and> pre \<noteq> []) \<and> \<not> (e \<and> post \<noteq> []))"
proof (cases "re \<noteq> [] \<and> hd re = CHR ''^''")
  case True
  then show ?thesis by (auto simp: match_def matchhere_here here_def Let_def split: prod.splits)
next
  case False
  then show ?thesis by (auto simp: match_def match_any_here here_def Let_def split: prod.splits)
qed

theorem match_correct_witness:
  "match ''^ab*c$'' ''abbc'' \<and> (\<exists>pre mid post. ''abbc'' = pre @ mid @ post \<and> mid \<in> lang [One CHR ''a'', Star CHR ''b'', One CHR ''c'']
     \<and> pre = [] \<and> post = [])"
proof -
  have "match ''^ab*c$'' ''abbc''" by code_simp
  then show ?thesis using match_correct [of "''^ab*c$''" "''abbc''"] by simp
qed

section \<open>The loop over the input\<close>

definition NEWLINE :: char where "NEWLINE = CHR 0x0A"
definition BUFSIZE :: nat where "BUFSIZE = 1024"

text \<open>\<open>strchr(p, '\n')\<close>: the offset of the first newline before any zero.\<close>

fun find_nl :: "string \<Rightarrow> nat option" where
  "find_nl [] = None"
| "find_nl (c # cs) =
     (if c = CHR 0x00 then None else if c = NEWLINE then Some 0 else map_option Suc (find_nl cs))"

lemma find_nl_less: "find_nl p = Some i \<Longrightarrow> i < length p"
  by (induction p arbitrary: i) (auto split: if_splits)

text \<open>The inner loop: what is written and what is left at \<open>p\<close>.\<close>

function grep_lines :: "string \<Rightarrow> string \<Rightarrow> string \<times> string" where
  "grep_lines pattern p =
     (case find_nl p of
        None \<Rightarrow> ([], p)
      | Some i \<Rightarrow>
          (case grep_lines pattern (drop (i + 1) p) of (out, r) \<Rightarrow>
             ((if match pattern (take i p) then take i p @ [NEWLINE] else []) @ out, r)))"
  by pat_completeness auto
termination by (relation "measure (\<lambda>(pattern, p). length p)") (auto dest: find_nl_less)

declare grep_lines.simps [simp del]

text \<open>
  The outer loop.  \<open>buf\<close> holds the \<open>m\<close> bytes in front of the buffer, \<open>input\<close>
  what is still to be read.  \<open>read\<close> delivers at least one byte while there is
  input and room; \<open>ks\<close> says how many it delivers each time.
\<close>

function grep :: "string \<Rightarrow> nat list \<Rightarrow> string \<Rightarrow> string \<Rightarrow> string" where
  "grep pattern ks buf input =
     (let room = BUFSIZE - length buf - 1; n = min room (max 1 (case ks of [] \<Rightarrow> room | k # _ \<Rightarrow> k)) in
      if n = 0 \<or> input = [] then []
      else case grep_lines pattern (buf @ take n input) of (out, r) \<Rightarrow>
        out @ grep pattern (tl ks) r (drop n input))"
  by pat_completeness auto
termination by (relation "measure (\<lambda>(pattern, ks, buf, input). length input)") auto

declare grep.simps [simp del]

text \<open>The lines of a text, and what follows the last newline.\<close>

fun text_lines :: "string \<Rightarrow> string list \<times> string" where
  "text_lines [] = ([], [])"
| "text_lines (c # cs) =
     (case text_lines cs of (ls, r) \<Rightarrow>
        if c = NEWLINE then ([] # ls, r)
        else case ls of [] \<Rightarrow> ([], c # r) | l # ls' \<Rightarrow> ((c # l) # ls', r))"

definition matching :: "string \<Rightarrow> string list \<Rightarrow> string" where
  "matching pattern ls = concat (map (\<lambda>l. l @ [NEWLINE]) (filter (match pattern) ls))"

lemma text_lines_nl:
  "NEWLINE \<notin> set l \<Longrightarrow> text_lines (l @ NEWLINE # p) = (l # fst (text_lines p), snd (text_lines p))"
  by (induction l) (auto split: prod.splits)

lemma text_lines_none: "NEWLINE \<notin> set l \<Longrightarrow> text_lines l = ([], l)"
  by (induction l) auto

lemma find_nl_Some:
  "find_nl p = Some i \<Longrightarrow> p = take i p @ NEWLINE # drop (Suc i) p \<and> NEWLINE \<notin> set (take i p)"
  by (induction p arbitrary: i) (auto split: if_splits)

lemma find_nl_None: "CHR 0x00 \<notin> set p \<Longrightarrow> find_nl p = None \<Longrightarrow> NEWLINE \<notin> set p"
  by (induction p) (auto split: if_splits)

lemma grep_lines_eq:
  "CHR 0x00 \<notin> set p \<Longrightarrow> grep_lines pattern p = (matching pattern (fst (text_lines p)), snd (text_lines p))"
proof (induction pattern p rule: grep_lines.induct)
  case (1 pattern p)
  show ?case
  proof (cases "find_nl p")
    case None
    then show ?thesis using 1 find_nl_None [of p] text_lines_none [of p]
      by (subst grep_lines.simps) (simp add: matching_def)
  next
    case (Some i)
    have z: "CHR 0x00 \<notin> set (drop (i + 1) p)" using 1(2) by (meson in_set_dropD)
    have p: "text_lines p = (take i p # fst (text_lines (drop (Suc i) p)), snd (text_lines (drop (Suc i) p)))"
      using find_nl_Some [OF Some] text_lines_nl [of "take i p" "drop (Suc i) p"] by metis
    show ?thesis using 1(1) [OF Some z] Some
      by (subst grep_lines.simps) (simp add: matching_def p)
  qed
qed

lemma text_lines_append:
  "text_lines (x @ y) = (fst (text_lines x) @ fst (text_lines (snd (text_lines x) @ y)), snd (text_lines (snd (text_lines x) @ y)))"
proof (induction x)
  case (Cons c x)
  obtain ls r where x: "text_lines x = (ls, r)" by fastforce
  show ?case
  proof (cases "c = NEWLINE \<or> ls \<noteq> []")
    case True
    then show ?thesis using Cons x by (cases ls) (auto split: prod.splits)
  next
    case False
    then show ?thesis using Cons x by (auto split: prod.splits list.splits)
  qed
qed simp

lemma no_nl_rest: "NEWLINE \<notin> set (snd (text_lines p))"
  by (induction p) (auto split: prod.splits list.splits if_splits)

lemma rest_subset: "set (snd (text_lines p)) \<subseteq> set p"
  by (induction p) (auto split: prod.splits list.splits if_splits)

definition short_lines :: "string \<Rightarrow> bool" where
  "short_lines p \<longleftrightarrow> (\<forall>l \<in> set (fst (text_lines p)). length l + 1 < BUFSIZE) \<and> length (snd (text_lines p)) + 1 < BUFSIZE"

text \<open>A prefix without newlines belongs to the first line.\<close>

lemma short_prefix:
  assumes "NEWLINE \<notin> set buf" and "short_lines (buf @ input)"
  shows "length buf + 1 < BUFSIZE"
proof -
  have "text_lines (buf @ input) = (case text_lines input of (ls, r) \<Rightarrow>
      (case ls of [] \<Rightarrow> ([], buf @ r) | l # ls' \<Rightarrow> ((buf @ l) # ls', r)))"
    using assms(1) by (induction buf) (auto split: prod.splits list.splits)
  then show ?thesis using assms(2) by (auto simp: short_lines_def split: prod.splits list.splits)
qed

lemma matching_append: "matching pattern (xs @ ys) = matching pattern xs @ matching pattern ys"
  by (simp add: matching_def)

text \<open>
  C32: However the reads divide its input, \<open>grep\<close> writes the lines that match the
  pattern, each with its newline and in order, and nothing else, provided that
  the input has no zero bytes and that no line overflows the buffer.
\<close>
theorem grep_correct:
  assumes "CHR 0x00 \<notin> set input" and "short_lines input"
  shows "grep pattern ks [] input = matching pattern (fst (text_lines input))"
proof -
  have "grep pattern ks buf input = matching pattern (fst (text_lines (buf @ input)))"
    if "CHR 0x00 \<notin> set (buf @ input)" "NEWLINE \<notin> set buf" "short_lines (buf @ input)" for buf
    using that
  proof (induction pattern ks buf input rule: grep.induct)
    case (1 pattern ks buf input)
    let ?room = "BUFSIZE - length buf - 1"
    define n where "n = min ?room (max 1 (case ks of [] \<Rightarrow> ?room | k # _ \<Rightarrow> k))"
    have n: "n \<noteq> 0" using short_prefix [OF 1(3,4)] by (simp add: n_def)
    have unf: "grep pattern ks buf input = (if n = 0 \<or> input = [] then []
        else case grep_lines pattern (buf @ take n input) of (out, r) \<Rightarrow> out @ grep pattern (tl ks) r (drop n input))"
      by (subst grep.simps) (simp only: Let_def n_def)
    show ?case
    proof (cases "input = []")
      case True
      then show ?thesis using 1(3) by (subst grep.simps) (simp add: Let_def text_lines_none matching_def)
    next
      case False
      let ?x = "buf @ take n input"
      let ?r = "snd (text_lines ?x)"
      have all: "buf @ input = ?x @ drop n input" by simp
      have z: "CHR 0x00 \<notin> set ?x" "CHR 0x00 \<notin> set (?r @ drop n input)"
        using 1(2) rest_subset [of ?x] by (auto dest: in_set_takeD in_set_dropD)
      have tl: "text_lines (buf @ input) = (fst (text_lines ?x) @ fst (text_lines (?r @ drop n input)), snd (text_lines (?r @ drop n input)))"
        unfolding all by (rule text_lines_append)
      have g: "grep_lines pattern ?x = (matching pattern (fst (text_lines ?x)), ?r)" by (rule grep_lines_eq [OF z(1)])
      have "grep pattern (tl ks) ?r (drop n input) = matching pattern (fst (text_lines (?r @ drop n input)))"
      proof (rule 1(1) [OF refl n_def _ g [symmetric]])
        show "short_lines (?r @ drop n input)" using 1(4) by (auto simp: short_lines_def tl)
      qed (use n False z(2) no_nl_rest in auto)
      then show ?thesis
        using n False g unf by (simp add: tl matching_append)
    qed
  qed
  from this [of "[]"] show ?thesis using assms by simp
qed

theorem grep_correct_witness:
  "grep ''b'' [1, 3] [] (''ab'' @ [NEWLINE] @ ''cd'' @ [NEWLINE] @ ''b'') = ''ab'' @ [NEWLINE]"
proof -
  let ?i = "''ab'' @ [NEWLINE] @ ''cd'' @ [NEWLINE] @ ''b''"
  have t: "text_lines ?i = ([''ab'', ''cd''], ''b'')" by code_simp
  have "match ''b'' ''ab''" "\<not> match ''b'' ''cd''" by code_simp+
  moreover have "CHR 0x00 \<notin> set ?i" by code_simp
  moreover have "short_lines ?i" by (simp add: short_lines_def t BUFSIZE_def)
  ultimately show ?thesis using grep_correct [of ?i "''b''" "[1, 3]"] t by (simp add: matching_def)
qed

end
