(* ===== verification/Bio.thy ===== *)
theory Bio
  imports Console
begin

text \<open>
  kernel/sleeplock.c and kernel/bio.c: sleep locks and the buffer cache.  The
  buffers are linked through \<open>b_prev\<close> and \<open>b_next\<close> as in the source; entry
  \<open>HEAD\<close> of the table is \<open>bcache.head\<close>.  The disk is the array of its blocks;
  \<open>disk_transfer\<close> is what \<open>virtio_disk_rw\<close> has done when it returns, and
  \<open>dhist\<close> records the writes in the order the disk received them.  The theory
  shows that the list is the recency order of the buffers, that no block is
  cached twice and that reading through the cache sees the last data written.
\<close>

type_synonym block = "nat \<Rightarrow> u8"

section \<open>Data\<close>

record sleeplock =
  sl_locked :: bool
  sl_pid :: u32

record buf =
  b_valid :: bool
  b_disk :: bool
  b_dev :: u32
  b_blockno :: u32
  b_refcnt :: u32
  b_prev :: nat
  b_next :: nat
  b_data :: block

record bio_st = con_st +
  disk :: "u32 \<Rightarrow> block"
  dhist :: "(u32 \<times> block) list"
  bufs :: "buf list"
  slocks :: "sleeplock list"   \<comment> \<open>locks of the buffers, then of the inodes\<close>

definition HEAD :: nat where "HEAD = NBUF"

definition upd_buf :: "nat \<Rightarrow> (buf \<Rightarrow> buf) \<Rightarrow> 'z bio_st_scheme \<Rightarrow> 'z bio_st_scheme" where
  "upd_buf i f s = s\<lparr>bufs := (bufs s)[i := f (bufs s ! i)]\<rparr>"

definition upd_slock :: "nat \<Rightarrow> (sleeplock \<Rightarrow> sleeplock) \<Rightarrow> 'z bio_st_scheme \<Rightarrow> 'z bio_st_scheme" where
  "upd_slock k f s = s\<lparr>slocks := (slocks s)[k := f (slocks s ! k)]\<rparr>"

section \<open>kernel/sleeplock.c\<close>

definition initsleeplock :: "nat \<Rightarrow> 'z bio_st_scheme \<Rightarrow> (unit, 'z bio_st_scheme) outcome" where
  "initsleeplock k = kput (upd_slock k (\<lambda>l. l\<lparr>sl_locked := False, sl_pid := 0\<rparr>))"

text \<open>A process that wakes up in the loop starts it again, so it returns or sleeps.\<close>

definition acquiresleep :: "nat \<Rightarrow> 'z bio_st_scheme \<Rightarrow> (unit, 'z bio_st_scheme) outcome" where
  "acquiresleep k =
     kthen (kacquire (SleepLk k))
       (\<lambda>s. if sl_locked (slocks s ! k) then sleep (ChSleepLock k) (SleepLk k) s
            else kbind myproc (\<lambda>p.
                   kthen (kput (\<lambda>s. upd_slock k (\<lambda>l. l\<lparr>sl_locked := True, sl_pid := p_pid (procs s ! p)\<rparr>) s))
                     (krelease (SleepLk k))) s)"

definition releasesleep :: "nat \<Rightarrow> 'z bio_st_scheme \<Rightarrow> (unit, 'z bio_st_scheme) outcome" where
  "releasesleep k = critical (SleepLk k)
     (kthen (kput (upd_slock k (\<lambda>l. l\<lparr>sl_locked := False, sl_pid := 0\<rparr>))) (wakeup (Some (ChSleepLock k))))"

definition holdingsleep :: "nat \<Rightarrow> 'z bio_st_scheme \<Rightarrow> (bool, 'z bio_st_scheme) outcome" where
  "holdingsleep k = critical (SleepLk k)
     (kbind myproc (\<lambda>p. kget (\<lambda>s. sl_locked (slocks s ! k) \<and> sl_pid (slocks s ! k) = p_pid (procs s ! p))))"

section \<open>kernel/bio.c\<close>

text \<open>Insertion behind the head, as \<open>binit\<close> and \<open>brelse\<close> write it out.\<close>

definition link_head :: "nat \<Rightarrow> 'z bio_st_scheme \<Rightarrow> (unit, 'z bio_st_scheme) outcome" where
  "link_head b =
     kthen (kput (\<lambda>s. upd_buf b (\<lambda>x. x\<lparr>b_next := b_next (bufs s ! HEAD)\<rparr>) s))
       (kthen (kput (upd_buf b (\<lambda>x. x\<lparr>b_prev := HEAD\<rparr>)))
          (kthen (kput (\<lambda>s. upd_buf (b_next (bufs s ! HEAD)) (\<lambda>x. x\<lparr>b_prev := b\<rparr>) s))
             (kput (upd_buf HEAD (\<lambda>x. x\<lparr>b_next := b\<rparr>)))))"

definition binit :: "'z bio_st_scheme \<Rightarrow> (unit, 'z bio_st_scheme) outcome" where
  "binit =
     kthen (kput (upd_buf HEAD (\<lambda>x. x\<lparr>b_prev := HEAD\<rparr>)))
       (kthen (kput (upd_buf HEAD (\<lambda>x. x\<lparr>b_next := HEAD\<rparr>)))
          (kfor (\<lambda>b. kthen (initsleeplock b) (link_head b)) [0..<NBUF]))"

text \<open>
  The two loops of \<open>bget\<close>: the first buffer that satisfies the test, following
  \<open>b_next\<close> or \<open>b_prev\<close> up to the head.  The first argument bounds the steps.
\<close>

primrec scan :: "nat \<Rightarrow> (buf \<Rightarrow> nat) \<Rightarrow> (buf \<Rightarrow> bool) \<Rightarrow> buf list \<Rightarrow> nat \<Rightarrow> nat option" where
  "scan 0 dir P bs b = None"
| "scan (Suc n) dir P bs b =
     (if b = HEAD then None else if P (bs ! b) then Some b else scan n dir P bs (dir (bs ! b)))"

definition find_cached :: "u32 \<Rightarrow> u32 \<Rightarrow> buf list \<Rightarrow> nat option" where
  "find_cached dev blockno bs =
     scan (Suc NBUF) b_next (\<lambda>b. b_dev b = dev \<and> b_blockno b = blockno) bs (b_next (bs ! HEAD))"

definition find_unused :: "buf list \<Rightarrow> nat option" where
  "find_unused bs = scan (Suc NBUF) b_prev (\<lambda>b. b_refcnt b = 0) bs (b_prev (bs ! HEAD))"

definition bget :: "u32 \<Rightarrow> u32 \<Rightarrow> 'z bio_st_scheme \<Rightarrow> (nat, 'z bio_st_scheme) outcome" where
  "bget dev blockno =
     kthen (kacquire BcacheLock) (\<lambda>s.
       case find_cached dev blockno (bufs s) of
         Some b \<Rightarrow>
           kthen (kput (upd_buf b (\<lambda>x. x\<lparr>b_refcnt := b_refcnt x + 1\<rparr>)))
             (kthen (krelease BcacheLock) (kthen (acquiresleep b) (kret b))) s
       | None \<Rightarrow>
           (case find_unused (bufs s) of
              Some b \<Rightarrow>
                kthen (kput (upd_buf b (\<lambda>x. x\<lparr>b_dev := dev, b_blockno := blockno, b_valid := False, b_refcnt := 1\<rparr>)))
                  (kthen (krelease BcacheLock) (kthen (acquiresleep b) (kret b))) s
            | None \<Rightarrow> Panic ''bget: no buffers''))"

definition disk_transfer :: "nat \<Rightarrow> bool \<Rightarrow> 'z bio_st_scheme \<Rightarrow> (unit, 'z bio_st_scheme) outcome" where
  "disk_transfer i wr = kput (\<lambda>s.
     let b = bufs s ! i in
     if wr then s\<lparr>disk := (disk s)(b_blockno b := b_data b), dhist := dhist s @ [(b_blockno b, b_data b)]\<rparr>
     else upd_buf i (\<lambda>x. x\<lparr>b_data := disk s (b_blockno b)\<rparr>) s)"

definition bread :: "u32 \<Rightarrow> u32 \<Rightarrow> 'z bio_st_scheme \<Rightarrow> (nat, 'z bio_st_scheme) outcome" where
  "bread dev blockno = kbind (bget dev blockno) (\<lambda>b s.
     if \<not> b_valid (bufs s ! b)
     then kthen (disk_transfer b False) (kthen (kput (upd_buf b (\<lambda>x. x\<lparr>b_valid := True\<rparr>))) (kret b)) s
     else Ret b s)"

definition bwrite :: "nat \<Rightarrow> 'z bio_st_scheme \<Rightarrow> (unit, 'z bio_st_scheme) outcome" where
  "bwrite b = kbind (holdingsleep b) (\<lambda>h. if \<not> h then kpanic ''bwrite'' else disk_transfer b True)"

definition brelse :: "nat \<Rightarrow> 'z bio_st_scheme \<Rightarrow> (unit, 'z bio_st_scheme) outcome" where
  "brelse b = kbind (holdingsleep b) (\<lambda>h.
     if \<not> h then kpanic ''brelse''
     else kthen (releasesleep b)
       (critical BcacheLock
          (kthen (kput (upd_buf b (\<lambda>x. x\<lparr>b_refcnt := b_refcnt x - 1\<rparr>)))
             (\<lambda>s. if b_refcnt (bufs s ! b) = 0
                  then kthen (kput (\<lambda>s. upd_buf (b_next (bufs s ! b)) (\<lambda>x. x\<lparr>b_prev := b_prev (bufs s ! b)\<rparr>) s))
                         (kthen (kput (\<lambda>s. upd_buf (b_prev (bufs s ! b)) (\<lambda>x. x\<lparr>b_next := b_next (bufs s ! b)\<rparr>) s))
                            (link_head b)) s
                  else Ret () s))))"

definition bpin :: "nat \<Rightarrow> 'z bio_st_scheme \<Rightarrow> (unit, 'z bio_st_scheme) outcome" where
  "bpin b = critical BcacheLock (kput (upd_buf b (\<lambda>x. x\<lparr>b_refcnt := b_refcnt x + 1\<rparr>)))"

definition bunpin :: "nat \<Rightarrow> 'z bio_st_scheme \<Rightarrow> (unit, 'z bio_st_scheme) outcome" where
  "bunpin b = critical BcacheLock (kput (upd_buf b (\<lambda>x. x\<lparr>b_refcnt := b_refcnt x - 1\<rparr>)))"

section \<open>Sleep locks of a process that need not wait\<close>

text \<open>
  The context in which the file system code of process \<open>p\<close> runs: it holds none
  of the spin locks that the cache takes, and nobody waits for a sleep lock.
\<close>

definition bio_ctx :: "nat \<Rightarrow> 'z bio_st_scheme \<Rightarrow> bool" where
  "bio_ctx p s \<longleftrightarrow> curproc s = Some p \<and> p < length (procs s)
     \<and> BcacheLock \<notin> set (locks s) \<and> no_plocks s \<and> (\<forall>k. SleepLk k \<notin> set (locks s))
     \<and> (\<forall>q \<in> set (procs s). \<forall>k. p_state q = SLEEPING \<longrightarrow> p_chan q \<noteq> Some (ChSleepLock k))"

lemma upd_slock_simps [simp]:
  "locks (upd_slock k f s) = locks s" "curproc (upd_slock k f s) = curproc s" "procs (upd_slock k f s) = procs s"
  "bufs (upd_slock k f s) = bufs s" "disk (upd_slock k f s) = disk s" "dhist (upd_slock k f s) = dhist s"
  "slocks (upd_slock k f s) = (slocks s)[k := f (slocks s ! k)]"
  "upd_slock k f (s\<lparr>locks := ls\<rparr>) = (upd_slock k f s)\<lparr>locks := ls\<rparr>"
  by (simp_all add: upd_slock_def)

lemma upd_buf_simps [simp]:
  "locks (upd_buf k f s) = locks s" "curproc (upd_buf k f s) = curproc s" "procs (upd_buf k f s) = procs s"
  "slocks (upd_buf k f s) = slocks s" "disk (upd_buf k f s) = disk s" "dhist (upd_buf k f s) = dhist s"
  "bufs (upd_buf k f s) = (bufs s)[k := f (bufs s ! k)]"
  "upd_buf k f (s\<lparr>locks := ls\<rparr>) = (upd_buf k f s)\<lparr>locks := ls\<rparr>"
  by (simp_all add: upd_buf_def)

lemma bio_ctx_upd [simp]:
  "bio_ctx p (upd_buf k f s) = bio_ctx p s" "bio_ctx p (upd_slock k g s) = bio_ctx p s"
  "bio_ctx p (s\<lparr>disk := d\<rparr>) = bio_ctx p s" "bio_ctx p (s\<lparr>dhist := h\<rparr>) = bio_ctx p s"
  "bio_ctx p (s\<lparr>bufs := bs\<rparr>) = bio_ctx p s" "bio_ctx p (s\<lparr>slocks := sl\<rparr>) = bio_ctx p s"
  by (simp_all add: bio_ctx_def no_plocks_def)

lemma wakeup_none:
  assumes "no_plocks s" and "\<forall>q \<in> set (procs s). p_state q = SLEEPING \<longrightarrow> p_chan q \<noteq> ch"
  shows "wakeup ch s = Ret () s"
proof -
  have "mapi (\<lambda>i. if Some i \<noteq> curproc s then wake_proc ch else id) (procs s) = procs s"
    using assms(2) by (intro mapi_id) (auto simp: wake_proc_def)
  then show ?thesis by (simp add: wakeup_eq [OF assms(1)])
qed

lemma acquiresleep_free:
  assumes "bio_ctx p s" and "\<not> sl_locked (slocks s ! k)"
  shows "acquiresleep k s = Ret () (upd_slock k (\<lambda>l. l\<lparr>sl_locked := True, sl_pid := p_pid (procs s ! p)\<rparr>) s)"
  using assms by (simp add: acquiresleep_def bio_ctx_def myproc_def kthen_def kbind_def kput_def)

lemma releasesleep_eq:
  assumes "bio_ctx p s"
  shows "releasesleep k s = Ret () (upd_slock k (\<lambda>l. l\<lparr>sl_locked := False, sl_pid := 0\<rparr>) s)"
proof -
  let ?t = "(upd_slock k (\<lambda>l. l\<lparr>sl_locked := False, sl_pid := 0\<rparr>) s)\<lparr>locks := SleepLk k # locks s\<rparr>"
  have "wakeup (Some (ChSleepLock k)) ?t = Ret () ?t"
    using assms by (intro wakeup_none) (auto simp: bio_ctx_def no_plocks_def)
  then show ?thesis using assms
    by (simp add: releasesleep_def bio_ctx_def kput_def critical_Ret [where t = ?t])
qed

lemma holdingsleep_eq:
  assumes "bio_ctx p s"
  shows "holdingsleep k s = Ret (sl_locked (slocks s ! k) \<and> sl_pid (slocks s ! k) = p_pid (procs s ! p)) s"
  using assms by (simp add: holdingsleep_def bio_ctx_def critical_Ret myproc_def kget_def kbind_def)

section \<open>The recency list\<close>

primrec chain :: "(nat \<Rightarrow> nat) \<Rightarrow> nat \<Rightarrow> nat list \<Rightarrow> nat \<Rightarrow> bool" where
  "chain f a [] c \<longleftrightarrow> f a = c"
| "chain f a (x # xs) c \<longleftrightarrow> f a = x \<and> chain f x xs c"

definition nxt :: "buf list \<Rightarrow> nat \<Rightarrow> nat" where "nxt bs i = b_next (bs ! i)"
definition prv :: "buf list \<Rightarrow> nat \<Rightarrow> nat" where "prv bs i = b_prev (bs ! i)"

text \<open>\<open>xs\<close> are the buffers from the most to the least recently used.\<close>

definition lru :: "buf list \<Rightarrow> nat list \<Rightarrow> bool" where
  "lru bs xs \<longleftrightarrow> length bs = Suc NBUF \<and> chain (nxt bs) HEAD xs HEAD \<and> chain (prv bs) HEAD (rev xs) HEAD
     \<and> distinct xs \<and> set xs = {..<NBUF}"

lemma chain_append: "chain f a (xs @ y # ys) c \<longleftrightarrow> chain f a xs y \<and> chain f y ys c"
  by (induction xs arbitrary: a) auto

lemma chain_snoc: "chain f a (xs @ [y]) c \<longleftrightarrow> chain f a xs y \<and> f y = c"
  by (simp add: chain_append)

lemma chain_first: "chain f a xs c \<Longrightarrow> f a = hd (xs @ [c])"
  by (cases xs) auto

lemma chain_last: "chain f a xs c \<Longrightarrow> f (last (a # xs)) = c"
  by (induction xs arbitrary: a) auto

lemma chain_cong: "(\<And>x. x = a \<or> x \<in> set xs \<Longrightarrow> f x = g x) \<Longrightarrow> chain f a xs c = chain g a xs c"
  by (induction xs arbitrary: a) auto

text \<open>Redirecting the last element of the chain.\<close>

lemma chain_redirect: "chain f a xs c \<Longrightarrow> distinct (a # xs) \<Longrightarrow> chain (f(last (a # xs) := d)) a xs d"
proof (induction xs arbitrary: a)
  case (Cons x xs)
  have "chain (f(last (x # xs) := d)) x xs d" using Cons.prems by (intro Cons.IH) simp_all
  moreover have "last (x # xs) \<in> set (x # xs)" by (rule last_in_set) simp
  ultimately show ?case using Cons by auto
qed simp

lemma chain_unlink:
  assumes c: "chain f a (ys @ b # zs) c" and d: "distinct (a # ys @ b # zs)"
  shows "chain (f(last (a # ys) := f b)) a (ys @ zs) c"
proof -
  have 1: "chain f a ys b" "chain f b zs c" using c by (simp_all add: chain_append)
  have l: "last (a # ys) \<in> set (a # ys)" by (rule last_in_set) simp
  have y: "chain (f(last (a # ys) := f b)) a ys (f b)" using chain_redirect [OF 1(1)] d by simp
  show ?thesis
  proof (cases zs)
    case Nil
    then show ?thesis using y 1 by simp
  next
    case (Cons z zs')
    have "chain (f(last (a # ys) := f b)) z zs' c \<longleftrightarrow> chain f z zs' c"
      using l d Cons by (intro chain_cong) auto
    then show ?thesis using y 1 Cons by (simp add: chain_append)
  qed
qed

lemma chain_push:
  assumes "chain f a xs c" and "b \<noteq> a" "b \<notin> set xs" "a \<notin> set xs"
  shows "chain (f(b := f a, a := b)) a (b # xs) c"
proof (cases xs)
  case Nil
  then show ?thesis using assms by simp
next
  case (Cons x ys)
  have "chain (f(b := f a, a := b)) x ys c \<longleftrightarrow> chain f x ys c" using assms Cons by (intro chain_cong) auto
  then show ?thesis using assms Cons by simp
qed

lemma chain_push_last:
  assumes "chain g c xs a" and "distinct (c # xs)" "b \<notin> set (c # xs)"
  shows "chain (g(b := a, last (c # xs) := b)) c (xs @ [b]) a"
proof -
  have l: "last (c # xs) \<in> set (c # xs)" by (rule last_in_set) simp
  have "chain ((g(b := a))(last (c # xs) := b)) c xs b"
  proof (rule chain_redirect)
    show "chain (g(b := a)) c xs a" using assms by (subst chain_cong [where g = g]) auto
  qed (use assms in simp)
  then show ?thesis using assms l by (auto simp: chain_append)
qed

text \<open>The loops of \<open>bget\<close> are searches of the list.\<close>

lemma scan_find:
  "chain (\<lambda>i. dir (bs ! i)) a xs HEAD \<Longrightarrow> HEAD \<notin> set xs \<Longrightarrow> length xs < n
   \<Longrightarrow> scan n dir P bs (dir (bs ! a)) = find (\<lambda>i. P (bs ! i)) xs"
proof (induction xs arbitrary: a n)
  case Nil
  then show ?case by (cases n) auto
next
  case (Cons x xs)
  then show ?case by (cases n) auto
qed

lemma lru_scan:
  assumes "lru bs xs"
  shows "find_cached dev b bs = find (\<lambda>i. b_dev (bs ! i) = dev \<and> b_blockno (bs ! i) = b) xs"
    and "find_unused bs = find (\<lambda>i. b_refcnt (bs ! i) = 0) (rev xs)"
proof -
  have l: "length xs = NBUF" using assms distinct_card [of xs] by (auto simp: lru_def)
  have h: "HEAD \<notin> set xs" using assms by (auto simp: lru_def HEAD_def)
  have n: "chain (\<lambda>i. b_next (bs ! i)) HEAD xs HEAD" "chain (\<lambda>i. b_prev (bs ! i)) HEAD (rev xs) HEAD"
    using assms by (simp_all add: lru_def nxt_def [abs_def] prv_def [abs_def])
  show "find_cached dev b bs = find (\<lambda>i. b_dev (bs ! i) = dev \<and> b_blockno (bs ! i) = b) xs"
    unfolding find_cached_def using n(1) h by (rule scan_find) (simp add: l)
  show "find_unused bs = find (\<lambda>i. b_refcnt (bs ! i) = 0) (rev xs)"
    unfolding find_unused_def using n(2) by (rule scan_find) (simp_all add: l h)
qed

text \<open>A buffer without its links.\<close>

definition payload :: "buf \<Rightarrow> buf" where
  "payload b = b\<lparr>b_prev := 0, b_next := 0\<rparr>"

lemma payload_links [simp]:
  "payload (b\<lparr>b_prev := p\<rparr>) = payload b" "payload (b\<lparr>b_next := n\<rparr>) = payload b"
  by (simp_all add: payload_def)

lemma payload_fields:
  assumes "map payload bs' = map payload bs" and "i < length bs"
  shows "b_valid (bs' ! i) = b_valid (bs ! i)" "b_dev (bs' ! i) = b_dev (bs ! i)"
    "b_blockno (bs' ! i) = b_blockno (bs ! i)" "b_refcnt (bs' ! i) = b_refcnt (bs ! i)"
    "b_data (bs' ! i) = b_data (bs ! i)"
proof -
  have "length bs' = length bs" using assms(1) map_eq_imp_length_eq by blast
  then have e: "payload (bs' ! i) = payload (bs ! i)" using assms by (metis nth_map)
  show "b_valid (bs' ! i) = b_valid (bs ! i)" "b_dev (bs' ! i) = b_dev (bs ! i)"
    "b_blockno (bs' ! i) = b_blockno (bs ! i)" "b_refcnt (bs' ! i) = b_refcnt (bs ! i)"
    "b_data (bs' ! i) = b_data (bs ! i)"
    using arg_cong [OF e, of b_valid] arg_cong [OF e, of b_dev] arg_cong [OF e, of b_blockno]
      arg_cong [OF e, of b_refcnt] arg_cong [OF e, of b_data] by (simp_all add: payload_def)
qed

lemma map_payload_upd: "payload x = payload (bs ! i) \<Longrightarrow> map payload (bs[i := x]) = map payload bs"
  by (cases "i < length bs") (auto simp: map_update list_eq_iff_nth_eq nth_list_update)

lemma links_upd:
  "i < length bs \<Longrightarrow> nxt (bs[i := x]) = (nxt bs)(i := b_next x)"
  "i < length bs \<Longrightarrow> prv (bs[i := x]) = (prv bs)(i := b_prev x)"
  by (auto simp: nxt_def prv_def fun_eq_iff nth_list_update)

lemma links_keep:
  assumes "b_next x = b_next (bs ! i)" and "b_prev x = b_prev (bs ! i)"
  shows "nxt (bs[i := x]) = nxt bs" and "prv (bs[i := x]) = prv bs"
proof -
  have "b_next (bs[i := x] ! j) = b_next (bs ! j) \<and> b_prev (bs[i := x] ! j) = b_prev (bs ! j)" for j
    using assms by (cases "i < length bs") (simp_all add: nth_list_update not_less list_update_beyond)
  then show "nxt (bs[i := x]) = nxt bs" "prv (bs[i := x]) = prv bs" by (simp_all add: fun_eq_iff nxt_def prv_def)
qed

lemma lru_same: "lru bs xs \<Longrightarrow> length bs' = length bs \<Longrightarrow> nxt bs' = nxt bs \<Longrightarrow> prv bs' = prv bs \<Longrightarrow> lru bs' xs"
  by (simp add: lru_def)

lemma lru_upd: "lru bs xs \<Longrightarrow> b_next x = b_next (bs ! i) \<Longrightarrow> b_prev x = b_prev (bs ! i) \<Longrightarrow> lru (bs[i := x]) xs"
  by (erule lru_same) (simp_all add: links_keep)

lemma lru_bound: "lru bs xs \<Longrightarrow> x \<in> set xs \<longleftrightarrow> x < NBUF"
  by (auto simp: lru_def)

definition push_bufs :: "nat \<Rightarrow> buf list \<Rightarrow> buf list" where
  "push_bufs b bs =
     (let bs1 = bs[b := (bs ! b)\<lparr>b_next := b_next (bs ! HEAD)\<rparr>];
          bs2 = bs1[b := (bs1 ! b)\<lparr>b_prev := HEAD\<rparr>];
          h = b_next (bs2 ! HEAD);
          bs3 = bs2[h := (bs2 ! h)\<lparr>b_prev := b\<rparr>]
      in bs3[HEAD := (bs3 ! HEAD)\<lparr>b_next := b\<rparr>])"

definition cut_bufs :: "nat \<Rightarrow> buf list \<Rightarrow> buf list" where
  "cut_bufs b bs =
     (let n = b_next (bs ! b);
          bs1 = bs[n := (bs ! n)\<lparr>b_prev := b_prev (bs ! b)\<rparr>];
          p = b_prev (bs1 ! b)
      in bs1[p := (bs1 ! p)\<lparr>b_next := b_next (bs1 ! b)\<rparr>])"

lemma link_head_eq: "link_head b s = Ret () (s\<lparr>bufs := push_bufs b (bufs s)\<rparr>)"
  by (simp add: link_head_def push_bufs_def Let_def kthen_def kbind_def kput_def upd_buf_def)

lemma push_links:
  assumes "b \<noteq> HEAD" and "length bs = Suc NBUF" and "b < NBUF" and "nxt bs HEAD \<le> NBUF" and "nxt bs HEAD \<noteq> b"
  shows "nxt (push_bufs b bs) = (nxt bs)(b := nxt bs HEAD, HEAD := b)"
    and "prv (push_bufs b bs) = (prv bs)(b := HEAD, nxt bs HEAD := b)"
    and "map payload (push_bufs b bs) = map payload bs" and "length (push_bufs b bs) = length bs"
proof -
  have h: "HEAD < length bs" "b < length bs" "b_next (bs ! HEAD) < length bs" "b_next (bs ! HEAD) \<noteq> b"
    using assms by (auto simp: HEAD_def nxt_def)
  then show "length (push_bufs b bs) = length bs" by (simp add: push_bufs_def Let_def)
  show "map payload (push_bufs b bs) = map payload bs"
    using h by (simp add: push_bufs_def Let_def map_payload_upd)
  show "nxt (push_bufs b bs) = (nxt bs)(b := nxt bs HEAD, HEAD := b)"
    "prv (push_bufs b bs) = (prv bs)(b := HEAD, nxt bs HEAD := b)"
    using h assms(1) by (auto simp: push_bufs_def Let_def links_upd fun_eq_iff nth_list_update nxt_def prv_def)
qed

lemma cut_links:
  assumes "b \<noteq> nxt bs b" and "b < length bs" and "nxt bs b < length bs" and "prv bs b < length bs"
  shows "nxt (cut_bufs b bs) = (nxt bs)(prv bs b := nxt bs b)"
    and "prv (cut_bufs b bs) = (prv bs)(nxt bs b := prv bs b)"
    and "map payload (cut_bufs b bs) = map payload bs" and "length (cut_bufs b bs) = length bs"
proof -
  note h = assms [unfolded nxt_def prv_def]
  then show "length (cut_bufs b bs) = length bs" by (simp add: cut_bufs_def Let_def)
  show "map payload (cut_bufs b bs) = map payload bs"
    using h by (simp add: cut_bufs_def Let_def map_payload_upd)
  show "nxt (cut_bufs b bs) = (nxt bs)(prv bs b := nxt bs b)" "prv (cut_bufs b bs) = (prv bs)(nxt bs b := prv bs b)"
    using h by (auto simp: cut_bufs_def Let_def links_upd fun_eq_iff nth_list_update nxt_def prv_def)
qed

text \<open>Taking a buffer out and putting it behind the head moves it to the front of the list.\<close>

lemma lru_front:
  assumes l: "lru bs xs" and b: "b < NBUF"
  shows "lru (push_bufs b (cut_bufs b bs)) (b # remove1 b xs)"
    and "map payload (push_bufs b (cut_bufs b bs)) = map payload bs"
proof -
  have bx: "b \<in> set xs" using lru_bound [OF l] b by simp
  then obtain ys zs where xs: "xs = ys @ b # zs" "b \<notin> set ys" by (metis split_list_first)
  have d: "distinct xs" "HEAD \<notin> set xs" "b \<noteq> HEAD" "\<And>x. x \<in> set xs \<Longrightarrow> x < NBUF" and len: "length bs = Suc NBUF"
    using l b by (auto simp: lru_def HEAD_def)
  have n: "chain (nxt bs) HEAD (ys @ b # zs) HEAD" and p: "chain (prv bs) HEAD (rev zs @ b # rev ys) HEAD"
    using l xs by (simp_all add: lru_def)
  have nb: "nxt bs b = hd (zs @ [HEAD])" using n chain_first by (simp add: chain_append)
  have pb: "prv bs b = hd (rev ys @ [HEAD])" using p chain_first by (simp add: chain_append)
  have lz: "last (HEAD # rev zs) = hd (zs @ [HEAD])" by (cases zs) auto
  have ly: "last (HEAD # ys) = hd (rev ys @ [HEAD])" by (cases ys rule: rev_cases) auto
  have bnd: "nxt bs b \<le> NBUF" "prv bs b \<le> NBUF" "nxt bs b \<noteq> b"
  proof -
    have "hd (zs @ [HEAD]) \<in> set (zs @ [HEAD])" "hd (rev ys @ [HEAD]) \<in> set (rev ys @ [HEAD])" by (rule hd_in_set; simp)+
    then show "nxt bs b \<le> NBUF" "prv bs b \<le> NBUF" "nxt bs b \<noteq> b"
      using d xs unfolding nb pb by (auto simp: HEAD_def dest: less_imp_le)
  qed
  let ?c = "cut_bufs b bs"
  have cl: "nxt ?c = (nxt bs)(prv bs b := nxt bs b)" "prv ?c = (prv bs)(nxt bs b := prv bs b)"
      "map payload ?c = map payload bs" "length ?c = length bs"
    using bnd b len by (intro cut_links; simp)+
  have n': "chain (nxt ?c) HEAD (ys @ zs) HEAD"
    using chain_unlink [OF n] d xs ly pb by (simp add: cl)
  have p': "chain (prv ?c) HEAD (rev (ys @ zs)) HEAD"
    using chain_unlink [OF p] d xs lz nb by (simp add: cl Int_commute)
  have rm: "remove1 b xs = ys @ zs" using xs by (simp add: remove1_append)
  have h: "nxt ?c HEAD = hd ((ys @ zs) @ [HEAD])" using chain_first [OF n'] .
  have hb: "nxt ?c HEAD \<le> NBUF" "nxt ?c HEAD \<noteq> b"
  proof -
    have "hd ((ys @ zs) @ [HEAD]) \<in> set ((ys @ zs) @ [HEAD])" by (rule hd_in_set) simp
    then show "nxt ?c HEAD \<le> NBUF" "nxt ?c HEAD \<noteq> b" using d xs unfolding h by (auto simp: HEAD_def dest: less_imp_le)
  qed
  have pl: "nxt (push_bufs b ?c) = (nxt ?c)(b := nxt ?c HEAD, HEAD := b)"
      "prv (push_bufs b ?c) = (prv ?c)(b := HEAD, nxt ?c HEAD := b)"
      "map payload (push_bufs b ?c) = map payload ?c" "length (push_bufs b ?c) = length ?c"
    using d b hb cl len by (intro push_links; simp)+
  have "chain (nxt (push_bufs b ?c)) HEAD (b # (ys @ zs)) HEAD"
    unfolding pl using n' d xs by (intro chain_push) auto
  moreover have "last (HEAD # rev (ys @ zs)) = nxt ?c HEAD"
    unfolding h by (cases "ys @ zs") (auto simp: last_rev)
  then have "chain (prv (push_bufs b ?c)) HEAD (rev (ys @ zs) @ [b]) HEAD"
    unfolding pl using chain_push_last [OF p', of b] d xs by auto
  ultimately show "lru (push_bufs b ?c) (b # remove1 b xs)"
    using l d xs rm pl cl by (auto simp: lru_def)
  show "map payload (push_bufs b ?c) = map payload bs" using pl cl by simp
qed

section \<open>The invariant of the cache\<close>

definition cached :: "buf list \<Rightarrow> u32 \<Rightarrow> nat \<Rightarrow> bool" where
  "cached bs b i \<longleftrightarrow> i < NBUF \<and> b_dev (bs ! i) = ROOTDEV \<and> b_blockno (bs ! i) = b"

text \<open>The contents of a block as the kernel sees them.\<close>

definition blk :: "'z bio_st_scheme \<Rightarrow> u32 \<Rightarrow> block" where
  "blk s b = (case find_cached ROOTDEV b (bufs s) of
       None \<Rightarrow> disk s b
     | Some i \<Rightarrow> if b_valid (bufs s ! i) then b_data (bufs s ! i) else disk s b)"

definition one_copy :: "buf list \<Rightarrow> bool" where
  "one_copy bs \<longleftrightarrow> (\<forall>b i j. cached bs b i \<longrightarrow> cached bs b j \<longrightarrow> i = j)"

definition refs_ok :: "buf list \<Rightarrow> nat set \<Rightarrow> nat set \<Rightarrow> bool" where
  "refs_ok bs P H \<longleftrightarrow> (\<forall>i < NBUF. b_refcnt (bs ! i) = of_bool (i \<in> P) + of_bool (i \<in> H))"

definition slocks_ok :: "u32 \<Rightarrow> sleeplock list \<Rightarrow> nat set \<Rightarrow> bool" where
  "slocks_ok pid sl H \<longleftrightarrow> NBUF \<le> length sl
     \<and> (\<forall>i < NBUF. sl_locked (sl ! i) = (i \<in> H) \<and> (i \<in> H \<longrightarrow> sl_pid (sl ! i) = pid))"

definition users_ok :: "buf list \<Rightarrow> nat set \<Rightarrow> bool" where
  "users_ok bs U \<longleftrightarrow> (\<forall>i \<in> U. i < NBUF \<and> b_valid (bs ! i) \<and> b_dev (bs ! i) = ROOTDEV)"

definition coherent :: "(u32 \<Rightarrow> block) \<Rightarrow> buf list \<Rightarrow> nat set \<Rightarrow> bool" where
  "coherent dk bs U \<longleftrightarrow> (\<forall>i < NBUF. i \<notin> U \<longrightarrow> b_dev (bs ! i) = ROOTDEV \<longrightarrow> b_valid (bs ! i)
     \<longrightarrow> b_data (bs ! i) = dk (b_blockno (bs ! i)))"

text \<open>
  \<open>P\<close> are the buffers pinned by the log, \<open>H\<close> those that process \<open>p\<close> has locked,
  \<open>xs\<close> the recency order.
\<close>

definition bio_inv :: "nat \<Rightarrow> 'z bio_st_scheme \<Rightarrow> nat set \<Rightarrow> nat set \<Rightarrow> nat list \<Rightarrow> bool" where
  "bio_inv p s P H xs \<longleftrightarrow> bio_ctx p s \<and> lru (bufs s) xs \<and> one_copy (bufs s) \<and> refs_ok (bufs s) P H
     \<and> slocks_ok (p_pid (procs s ! p)) (slocks s) H \<and> users_ok (bufs s) (P \<union> H)
     \<and> coherent (disk s) (bufs s) (P \<union> H)"

lemma find_in: "find Q xs = Some x \<Longrightarrow> x \<in> set xs \<and> Q x"
  by (auto simp: find_Some_iff)

lemma find_cached_Some: "lru bs xs \<Longrightarrow> find_cached ROOTDEV b bs = Some i \<Longrightarrow> cached bs b i"
  using find_in [of "\<lambda>i. b_dev (bs ! i) = ROOTDEV \<and> b_blockno (bs ! i) = b" xs i]
  by (auto simp: lru_scan cached_def lru_bound)

lemma find_cached_None: "lru bs xs \<Longrightarrow> find_cached ROOTDEV b bs = None \<Longrightarrow> \<not> cached bs b i"
  by (auto simp: lru_scan cached_def lru_bound find_None_iff)

lemma find_cached_eq: "lru bs xs \<Longrightarrow> one_copy bs \<Longrightarrow> cached bs b i \<Longrightarrow> find_cached ROOTDEV b bs = Some i"
  using find_cached_Some [of bs xs b] find_cached_None [of bs xs b i]
  by (cases "find_cached ROOTDEV b bs") (auto simp: one_copy_def)

lemma blk_hit:
  "lru (bufs s) xs \<Longrightarrow> one_copy (bufs s) \<Longrightarrow> cached (bufs s) b i \<Longrightarrow> b_valid (bufs s ! i) \<Longrightarrow> blk s b = b_data (bufs s ! i)"
  by (simp add: blk_def find_cached_eq)

lemma blk_miss:
  "lru (bufs s) xs \<Longrightarrow> (\<And>i. cached (bufs s) b i \<Longrightarrow> \<not> b_valid (bufs s ! i)) \<Longrightarrow> blk s b = disk s b"
  by (auto simp: blk_def dest: find_cached_Some split: option.split)

text \<open>Where buffers are coherent, the cache does not show.\<close>

lemma blk_disk:
  assumes "bio_inv p s P H xs" and "\<And>i. i \<in> P \<union> H \<Longrightarrow> b_blockno (bufs s ! i) \<noteq> b"
  shows "blk s b = disk s b"
proof (cases "\<exists>i. cached (bufs s) b i \<and> b_valid (bufs s ! i)")
  case True
  then obtain i where i: "cached (bufs s) b i" "b_valid (bufs s ! i)" by blast
  then have "i \<notin> P \<union> H" using assms(2) [of i] by (auto simp: cached_def)
  then have "b_data (bufs s ! i) = disk s b" using assms(1) i by (simp add: bio_inv_def coherent_def cached_def)
  then show ?thesis using assms(1) i blk_hit by (metis bio_inv_def)
next
  case False
  then show ?thesis using assms(1) by (intro blk_miss) (auto simp: bio_inv_def)
qed

text \<open>A buffer is recycled or found and comes back locked with the contents of the block.\<close>

lemma bio_hold:
  assumes inv: "bio_inv p s P H xs" and i: "i < NBUF" "i \<notin> H"
    and c: "cached (bufs s) b i \<or> i \<notin> P \<and> (\<forall>j. \<not> cached (bufs s) b j)"
    and x: "b_next x = b_next (bufs s ! i)" "b_prev x = b_prev (bufs s ! i)" "b_valid x" "b_dev x = ROOTDEV"
      "b_blockno x = b" "b_refcnt x = of_bool (i \<in> P) + 1" "b_data x = blk s b"
    and t: "t = s\<lparr>bufs := (bufs s)[i := x], slocks := (slocks s)[i := \<lparr>sl_locked = True, sl_pid = p_pid (procs s ! p)\<rparr>]\<rparr>"
  shows "bio_inv p t P (insert i H) xs" and "blk t = blk s"
proof -
  have l: "lru (bufs s) xs" "one_copy (bufs s)" "length (bufs s) = Suc NBUF" "bio_ctx p s"
    using inv by (auto simp: bio_inv_def lru_def)
  have bt: "bufs t = (bufs s)[i := x]" by (simp add: t)
  have il: "i < length (bufs s)" using l(3) i(1) by simp
  have nth: "bufs t ! j = (if j = i then x else bufs s ! j)" for j
    using il by (simp add: bt nth_list_update)
  have ct: "cached (bufs t) b' j \<longleftrightarrow> (if j = i then b' = b else cached (bufs s) b' j)" for b' j
    using x i by (auto simp: cached_def nth)
  have lt: "lru (bufs t) xs" unfolding bt using l(1) x(1,2) by (rule lru_upd)
  have one: "one_copy (bufs t)"
    using l(2) c unfolding one_copy_def ct by metis
  have nu: "i \<notin> P \<union> H" if "\<not> cached (bufs s) b i" using c that i by blast
  show "blk t = blk s"
  proof
    fix b'
    show "blk t b' = blk s b'"
    proof (cases "b' = b")
      case True
      then show ?thesis using blk_hit [OF lt one, of b i] ct x nth by simp
    next
      case False
      show ?thesis
      proof (cases "\<exists>j. cached (bufs s) b' j \<and> b_valid (bufs s ! j) \<and> j \<noteq> i")
        case True
        then obtain j where j: "cached (bufs s) b' j" "b_valid (bufs s ! j)" "j \<noteq> i" by blast
        then have "blk s b' = b_data (bufs s ! j)" using l by (intro blk_hit)
        moreover have "blk t b' = b_data (bufs t ! j)" using j by (intro blk_hit [OF lt one]) (auto simp: ct nth)
        ultimately show ?thesis using j by (simp add: nth)
      next
        case none: False
        then have "blk t b' = disk t b'" using False by (intro blk_miss [OF lt]) (auto simp: ct nth)
        moreover have "blk s b' = disk s b'"
        proof (cases "cached (bufs s) b' i \<and> b_valid (bufs s ! i)")
          case True
          then have nc: "\<not> cached (bufs s) b i" using False by (auto simp: cached_def)
          then have "b_data (bufs s ! i) = disk s b'"
            using inv nu [OF nc] True by (simp add: bio_inv_def coherent_def cached_def)
          then show ?thesis using blk_hit [OF l(1,2), of b' i] True by simp
        next
          case f: False
          then show ?thesis using none l by (intro blk_miss) auto
        qed
        ultimately show ?thesis by (simp add: t)
      qed
    qed
  qed
  have "refs_ok (bufs t) P (insert i H)" using inv x i by (auto simp: bio_inv_def refs_ok_def nth)
  moreover have "slocks_ok (p_pid (procs t ! p)) (slocks t) (insert i H)"
    using inv i by (auto simp: bio_inv_def slocks_ok_def t nth_list_update)
  moreover have "users_ok (bufs t) (P \<union> insert i H)" using inv x i by (auto simp: bio_inv_def users_ok_def nth)
  moreover have "coherent (disk t) (bufs t) (P \<union> insert i H)" using inv i by (auto simp: bio_inv_def coherent_def nth t)
  ultimately show "bio_inv p t P (insert i H) xs" using lt one l by (simp add: bio_inv_def t)
qed

section \<open>The operations\<close>

lemma slock_set: "(\<lambda>l. l\<lparr>sl_locked := a, sl_pid := b\<rparr>) = (\<lambda>l. \<lparr>sl_locked = a, sl_pid = b\<rparr> :: sleeplock)"
  by (simp add: fun_eq_iff)

lemma bget_eq:
  assumes inv: "bio_inv p s P H xs" and i: "i < NBUF" "i \<notin> H"
    and f: "case find_cached ROOTDEV b (bufs s) of
        Some j \<Rightarrow> j = i \<and> y = (bufs s ! i)\<lparr>b_refcnt := b_refcnt (bufs s ! i) + 1\<rparr>
      | None \<Rightarrow> find_unused (bufs s) = Some i
          \<and> y = (bufs s ! i)\<lparr>b_dev := ROOTDEV, b_blockno := b, b_valid := False, b_refcnt := 1\<rparr>"
  shows "bget ROOTDEV b s = Ret i (s\<lparr>bufs := (bufs s)[i := y],
     slocks := (slocks s)[i := \<lparr>sl_locked = True, sl_pid = p_pid (procs s ! p)\<rparr>]\<rparr>)"
proof -
  have c: "bio_ctx p s" "\<not> sl_locked (slocks s ! i)" using inv i by (auto simp: bio_inv_def slocks_ok_def)
  then have l: "BcacheLock \<notin> set (locks s)" by (simp add: bio_ctx_def)
  have a: "acquiresleep i (s\<lparr>bufs := bs\<rparr>) = Ret () (s\<lparr>bufs := bs,
      slocks := (slocks s)[i := \<lparr>sl_locked = True, sl_pid = p_pid (procs s ! p)\<rparr>]\<rparr>)" for bs
    using acquiresleep_free [of p "s\<lparr>bufs := bs\<rparr>" i] c by (simp add: upd_slock_def slock_set)
  show ?thesis
  proof (cases "find_cached ROOTDEV b (bufs s)")
    case None
    then show ?thesis using f l
      by (simp add: bget_def kthen_def kbind_def kput_def kret_def upd_buf_def a)
  next
    case (Some j)
    then show ?thesis using f l
      by (simp add: bget_def kthen_def kbind_def kput_def kret_def upd_buf_def a)
  qed
qed

text \<open>The choice that \<open>bget\<close> makes: the cached copy, else the least recently used buffer that nobody uses.\<close>

definition bget_choice :: "buf list \<Rightarrow> u32 \<Rightarrow> nat \<Rightarrow> buf \<Rightarrow> bool" where
  "bget_choice bs b i y \<longleftrightarrow> (case find_cached ROOTDEV b bs of
        Some j \<Rightarrow> j = i \<and> y = (bs ! i)\<lparr>b_refcnt := b_refcnt (bs ! i) + 1\<rparr>
      | None \<Rightarrow> find_unused bs = Some i
          \<and> y = (bs ! i)\<lparr>b_dev := ROOTDEV, b_blockno := b, b_valid := False, b_refcnt := 1\<rparr>)"

lemma unused_iff: "bio_inv p s P H xs \<Longrightarrow> j < NBUF \<Longrightarrow> b_refcnt (bufs s ! j) = 0 \<longleftrightarrow> j \<notin> P \<union> H"
  by (auto simp: bio_inv_def refs_ok_def of_bool_def)

lemma find_unused_eq:
  assumes "bio_inv p s P H xs"
  shows "find_unused (bufs s) = find (\<lambda>j. j \<notin> P \<union> H) (rev xs)"
proof -
  have l: "lru (bufs s) xs" using assms by (simp add: bio_inv_def)
  have "find (\<lambda>i. b_refcnt (bufs s ! i) = 0) ys = find (\<lambda>j. j \<notin> P \<union> H) ys" if "set ys \<subseteq> {..<NBUF}" for ys
    using that unused_iff [OF assms] by (induction ys) auto
  from this [of "rev xs"] show ?thesis using lru_scan(2) [OF l] lru_bound [OF l] by auto
qed

lemma bget_choice_ex:
  assumes inv: "bio_inv p s P H xs" and nh: "\<forall>i \<in> H. b_blockno (bufs s ! i) \<noteq> b" and room: "card (P \<union> H) < NBUF \<or> (\<exists>j. cached (bufs s) b j)"
  shows "\<exists>i y. i < NBUF \<and> i \<notin> H \<and> bget_choice (bufs s) b i y"
proof (cases "find_cached ROOTDEV b (bufs s)")
  case (Some j)
  then have "cached (bufs s) b j" using find_cached_Some inv by (auto simp: bio_inv_def)
  then show ?thesis using Some nh by (auto simp: cached_def bget_choice_def)
next
  case None
  have l: "lru (bufs s) xs" using inv by (simp add: bio_inv_def)
  have room': "card (P \<union> H) < NBUF" using room find_cached_None [OF l None] by blast
  have "\<not> {..<NBUF} \<subseteq> P \<union> H"
  proof
    assume "{..<NBUF} \<subseteq> P \<union> H"
    moreover have "P \<union> H \<subseteq> {..<NBUF}" using inv by (auto simp: bio_inv_def users_ok_def)
    ultimately have "card (P \<union> H) = NBUF" by (metis card_lessThan subset_antisym)
    then show False using room' by simp
  qed
  then obtain i where u: "find_unused (bufs s) = Some i"
    unfolding find_unused_eq [OF inv] using l
    by (cases "find (\<lambda>j. j \<notin> P \<union> H) (rev xs)") (auto simp: find_None_iff lru_def)
  moreover from this have "i < NBUF" "i \<notin> H"
    using find_in [of _ "rev xs" i] l unfolding find_unused_eq [OF inv] by (auto simp: lru_bound)
  ultimately show ?thesis using None by (auto simp: bget_choice_def)
qed

lemma bread_ok:
  assumes inv: "bio_inv p s P H xs" and nh: "\<forall>i \<in> H. b_blockno (bufs s ! i) \<noteq> b" and room: "card (P \<union> H) < NBUF \<or> (\<exists>j. cached (bufs s) b j)"
  obtains i t where "bread ROOTDEV b s = Ret i t" "bio_inv p t P (insert i H) xs" "blk t = blk s" "i \<notin> H" "i < NBUF"
    "b_blockno (bufs t ! i) = b" "b_data (bufs t ! i) = blk s b" "t = s\<lparr>bufs := (bufs s)[i := bufs t ! i], slocks := slocks t\<rparr>"
    "i \<in> P \<longrightarrow> cached (bufs s) b i"
    "(\<exists>j. cached (bufs s) b j) \<or> find (\<lambda>j. j \<notin> P \<union> H) (rev xs) = Some i"
    "\<forall>j. cached (bufs s) b j \<longrightarrow> i = j"
proof -
  have l: "lru (bufs s) xs" "one_copy (bufs s)" and len: "length (bufs s) = Suc NBUF" using inv by (auto simp: bio_inv_def lru_def)
  note unused = find_unused_eq [OF inv] and ref0 = unused_iff [OF inv]
  obtain i y where i: "i < NBUF" "i \<notin> H" and f': "bget_choice (bufs s) b i y"
    using bget_choice_ex [OF inv nh room] by blast
  note f = f' [unfolded bget_choice_def]
  let ?sl = "(slocks s)[i := \<lparr>sl_locked = True, sl_pid = p_pid (procs s ! p)\<rparr>]"
  define x where "x = (if b_valid y then y else y\<lparr>b_data := disk s b, b_valid := True\<rparr>)"
  let ?t = "s\<lparr>bufs := (bufs s)[i := x], slocks := ?sl\<rparr>"
  have by': "b_blockno y = b" "b_dev y = ROOTDEV"
    using f find_cached_Some [OF l(1), of b] by (auto simp: cached_def split: option.splits)
  have r: "bread ROOTDEV b s = Ret i ?t"
    using bget_eq [OF inv i f] i len by' by (auto simp: bread_def x_def disk_transfer_def kthen_def kput_def kret_def upd_buf_def Let_def)
  have c: "cached (bufs s) b i \<or> i \<notin> P \<and> (\<forall>j. \<not> cached (bufs s) b j)"
    using f find_cached_Some [OF l(1), of b] find_cached_None [OF l(1), of b] find_in [of "\<lambda>j. j \<notin> P \<union> H" "rev xs" i]
    unfolding unused by (auto split: option.splits)
  have d: "b_data x = blk s b"
    using f by (auto simp: x_def blk_def split: option.splits)
  have xf: "b_next x = b_next (bufs s ! i)" "b_prev x = b_prev (bufs s ! i)" "b_valid x" "b_dev x = ROOTDEV"
      "b_blockno x = b"
    using f by' by (auto simp: x_def split: option.splits)
  have xr: "b_refcnt x = of_bool (i \<in> P) + 1"
    using f c i inv find_cached_None [OF l(1), of b] find_cached_Some [OF l(1), of b] ref0 [of i]
    by (auto simp: x_def bio_inv_def refs_ok_def split: option.splits)
  note h = bio_hold [OF inv i c xf xr d refl]
  show ?thesis
  proof (rule that [OF r])
    show "(\<exists>j. cached (bufs s) b j) \<or> find (\<lambda>j. j \<notin> P \<union> H) (rev xs) = Some i"
      using f find_cached_Some [OF l(1), of b] unused by (auto split: option.splits)
    show "\<forall>j. cached (bufs s) b j \<longrightarrow> i = j" using c l(2) by (auto simp: one_copy_def)
  qed (use h c i len xf d in auto)
qed

text \<open>Changing the data of a locked buffer changes the block for everybody who reads it later.\<close>

lemma modify_ok:
  assumes inv: "bio_inv p s P H xs" and i: "i \<in> H" and t: "t = upd_buf i (\<lambda>x. x\<lparr>b_data := d\<rparr>) s"
  shows "bio_inv p t P H xs" and "blk t = (blk s)(b_blockno (bufs s ! i) := d)"
proof -
  have l: "lru (bufs s) xs" "one_copy (bufs s)" "length (bufs s) = Suc NBUF" and u: "users_ok (bufs s) (P \<union> H)"
    using inv by (auto simp: bio_inv_def lru_def)
  then have ib: "i < NBUF" "b_valid (bufs s ! i)" "b_dev (bufs s ! i) = ROOTDEV" using i by (auto simp: users_ok_def)
  have nth: "bufs t ! j = (if j = i then (bufs s ! i)\<lparr>b_data := d\<rparr> else bufs s ! j)" for j
    using ib l(3) by (simp add: t nth_list_update)
  have ct: "cached (bufs t) b j = cached (bufs s) b j" for b j by (simp add: cached_def nth)
  have lt: "lru (bufs t) xs" unfolding t upd_buf_simps by (rule lru_upd [OF l(1)]) simp_all
  have one: "one_copy (bufs t)" using l(2) by (simp add: one_copy_def ct)
  have "refs_ok (bufs t) P H" "slocks_ok (p_pid (procs t ! p)) (slocks t) H" "users_ok (bufs t) (P \<union> H)"
      "coherent (disk t) (bufs t) (P \<union> H)"
    using inv i by (auto simp: bio_inv_def refs_ok_def users_ok_def coherent_def nth) (simp_all add: t)
  then show "bio_inv p t P H xs" using lt one inv by (simp add: bio_inv_def t)
  show "blk t = (blk s)(b_blockno (bufs s ! i) := d)"
  proof
    fix b
    show "blk t b = ((blk s)(b_blockno (bufs s ! i) := d)) b"
    proof (cases "b = b_blockno (bufs s ! i)")
      case True
      then have "cached (bufs t) b i" unfolding ct using ib by (simp add: cached_def)
      then show ?thesis using blk_hit [OF lt one, of b i] True ib by (simp add: nth)
    next
      case False
      then have "find_cached ROOTDEV b (bufs s) \<noteq> Some i" using find_cached_Some [OF l(1)] by (auto simp: cached_def)
      moreover have "find_cached ROOTDEV b (bufs t) = find_cached ROOTDEV b (bufs s)"
      proof -
        have "(b_dev (bufs t ! j) = ROOTDEV \<and> b_blockno (bufs t ! j) = b) = (b_dev (bufs s ! j) = ROOTDEV \<and> b_blockno (bufs s ! j) = b)"
          for j by (simp add: nth)
        then show ?thesis unfolding lru_scan(1) [OF l(1)] lru_scan(1) [OF lt] by simp
      qed
      ultimately show ?thesis using False by (auto simp: blk_def nth t split: option.splits)
    qed
  qed
qed

lemma bwrite_ok:
  assumes inv: "bio_inv p s P H xs" and i: "i \<in> H"
    and t: "t = s\<lparr>disk := (disk s)(b_blockno (bufs s ! i) := b_data (bufs s ! i)),
        dhist := dhist s @ [(b_blockno (bufs s ! i), b_data (bufs s ! i))]\<rparr>"
  shows "bwrite i s = Ret () t" and "bio_inv p t P H xs" and "blk t = blk s"
proof -
  have ctx: "bio_ctx p s" and l: "lru (bufs s) xs" "one_copy (bufs s)"
    and sl: "slocks_ok (p_pid (procs s ! p)) (slocks s) H" and u: "users_ok (bufs s) (P \<union> H)"
    using inv by (auto simp: bio_inv_def)
  have ib: "i < NBUF" "b_valid (bufs s ! i)" "b_dev (bufs s ! i) = ROOTDEV" using i u by (auto simp: users_ok_def)
  have "holdingsleep i s = Ret True s" using holdingsleep_eq [OF ctx, of i] sl i ib by (simp add: slocks_ok_def)
  then show "bwrite i s = Ret () t"
    by (simp add: bwrite_def disk_transfer_def kput_def Let_def t)
  have c: "cached (bufs s) (b_blockno (bufs s ! i)) i" using ib by (simp add: cached_def)
  have "coherent (disk t) (bufs t) (P \<union> H)"
    unfolding coherent_def
  proof (intro allI impI)
    fix j assume j: "j < NBUF" "j \<notin> P \<union> H" "b_dev (bufs t ! j) = ROOTDEV" "b_valid (bufs t ! j)"
    then have "b_blockno (bufs s ! j) \<noteq> b_blockno (bufs s ! i)"
      using l(2) c i unfolding one_copy_def t by (auto simp: cached_def)
    then show "b_data (bufs t ! j) = disk t (b_blockno (bufs t ! j))"
      using inv j by (simp add: bio_inv_def coherent_def t)
  qed
  then show "bio_inv p t P H xs" using inv by (simp add: bio_inv_def t)
  show "blk t = blk s"
  proof
    fix b
    show "blk t b = blk s b"
      using find_cached_eq [OF l c] ib by (cases "b = b_blockno (bufs s ! i)") (auto simp: blk_def t split: option.splits)
  qed
qed

text \<open>A change of the reference counts, of the order and of the locks only.\<close>

lemma bio_refs:
  assumes inv: "bio_inv p s P H xs" and l: "lru bs ys"
    and same: "\<And>j. j < NBUF \<Longrightarrow> b_valid (bs ! j) = b_valid (bufs s ! j) \<and> b_dev (bs ! j) = b_dev (bufs s ! j)
        \<and> b_blockno (bs ! j) = b_blockno (bufs s ! j) \<and> b_data (bs ! j) = b_data (bufs s ! j)"
    and r: "refs_ok bs P' H'" and sl: "slocks_ok (p_pid (procs s ! p)) sl H'"
    and sub: "P' \<union> H' \<subseteq> P \<union> H"
    and clean: "\<And>j. j \<in> P \<union> H \<Longrightarrow> j \<notin> P' \<union> H' \<Longrightarrow> b_data (bufs s ! j) = disk s (b_blockno (bufs s ! j))"
    and t: "t = s\<lparr>bufs := bs, slocks := sl\<rparr>"
  shows "bio_inv p t P' H' ys" and "blk t = blk s"
proof -
  have ls: "lru (bufs s) xs" "one_copy (bufs s)" using inv by (auto simp: bio_inv_def)
  have ct: "cached bs b j = cached (bufs s) b j" for b j using same by (auto simp: cached_def)
  have one: "one_copy bs" using ls(2) by (simp add: one_copy_def ct)
  have us: "users_ok (bufs s) (P \<union> H)" and co: "coherent (disk s) (bufs s) (P \<union> H)" using inv by (simp_all add: bio_inv_def)
  have "users_ok bs (P' \<union> H')"
    unfolding users_ok_def
  proof
    fix j assume "j \<in> P' \<union> H'"
    then have "j \<in> P \<union> H" using sub by blast
    then show "j < NBUF \<and> b_valid (bs ! j) \<and> b_dev (bs ! j) = ROOTDEV" using us same by (simp add: users_ok_def)
  qed
  moreover have "coherent (disk t) bs (P' \<union> H')"
    unfolding coherent_def
  proof (intro allI impI)
    fix j assume j: "j < NBUF" "j \<notin> P' \<union> H'" "b_dev (bs ! j) = ROOTDEV" "b_valid (bs ! j)"
    show "b_data (bs ! j) = disk t (b_blockno (bs ! j))"
      using j co clean [of j] same [of j] by (cases "j \<in> P \<union> H") (auto simp: coherent_def t)
  qed
  ultimately show "bio_inv p t P' H' ys" using inv l one r sl by (simp add: bio_inv_def t)
  show "blk t = blk s"
  proof
    fix b
    have "find_cached ROOTDEV b bs = find_cached ROOTDEV b (bufs s)"
      using find_cached_Some [OF ls(1), of b] find_cached_None [OF ls(1), of b]
        find_cached_None [OF l, of b] find_cached_eq [OF l one, of b]
      by (cases "find_cached ROOTDEV b (bufs s)"; cases "find_cached ROOTDEV b bs") (auto simp: ct dest: find_cached_Some [OF l])
    moreover have "j < NBUF" if "find_cached ROOTDEV b (bufs s) = Some j" for j
      using find_cached_Some [OF ls(1) that] by (simp add: cached_def)
    ultimately show "blk t b = blk s b" using same by (auto simp: blk_def t split: option.splits)
  qed
qed

definition unref :: "nat \<Rightarrow> buf list \<Rightarrow> buf list" where
  "unref i bs = bs[i := (bs ! i)\<lparr>b_refcnt := b_refcnt (bs ! i) - 1\<rparr>]"

lemma brelse_eq:
  assumes inv: "bio_inv p s P H xs" and i: "i \<in> H"
  shows "brelse i s = Ret () (s\<lparr>bufs := (if i \<in> P then unref i (bufs s) else push_bufs i (cut_bufs i (unref i (bufs s)))),
     slocks := (slocks s)[i := \<lparr>sl_locked = False, sl_pid = 0\<rparr>]\<rparr>)"
proof -
  have ctx: "bio_ctx p s" and sl: "slocks_ok (p_pid (procs s ! p)) (slocks s) H" and len: "length (bufs s) = Suc NBUF"
    and ib: "i < NBUF" and bc: "BcacheLock \<notin> set (locks s)"
    and rc: "b_refcnt (bufs s ! i) - 1 = 0 \<longleftrightarrow> i \<notin> P"
    using inv i by (auto simp: bio_inv_def lru_def users_ok_def bio_ctx_def refs_ok_def)
  have h: "holdingsleep i s = Ret True s" using holdingsleep_eq [OF ctx, of i] sl i ib by (simp add: slocks_ok_def)
  have r: "releasesleep i s = Ret () (s\<lparr>slocks := (slocks s)[i := \<lparr>sl_locked = False, sl_pid = 0\<rparr>]\<rparr>)"
    using releasesleep_eq [OF ctx, of i] by (simp add: upd_slock_def slock_set)
  have il: "i < length (bufs s)" using ib len by simp
  show ?thesis
    using h r bc rc il
    by (simp add: brelse_def critical_def kthen_def kbind_def kput_def kret_def upd_buf_def unref_def
        link_head_eq cut_bufs_def Let_def)
qed

lemma brelse_ok:
  assumes inv: "bio_inv p s P H xs" and i: "i \<in> H"
    and clean: "i \<notin> P \<Longrightarrow> b_data (bufs s ! i) = disk s (b_blockno (bufs s ! i))"
  obtains t where "brelse i s = Ret () t" "bio_inv p t P (H - {i}) (if i \<in> P then xs else i # remove1 i xs)" "blk t = blk s"
    "t = s\<lparr>bufs := bufs t, slocks := slocks t\<rparr>"
    "\<forall>j < NBUF. b_blockno (bufs t ! j) = b_blockno (bufs s ! j) \<and> b_data (bufs t ! j) = b_data (bufs s ! j)
       \<and> b_dev (bufs t ! j) = b_dev (bufs s ! j)"
proof -
  let ?u = "unref i (bufs s)"
  let ?bs = "if i \<in> P then ?u else push_bufs i (cut_bufs i ?u)" and ?xs = "if i \<in> P then xs else i # remove1 i xs"
  let ?sl = "(slocks s)[i := \<lparr>sl_locked = False, sl_pid = 0\<rparr>]"
  let ?t = "s\<lparr>bufs := ?bs, slocks := ?sl\<rparr>"
  have l: "lru (bufs s) xs" and len: "length (bufs s) = Suc NBUF" and ib: "i < NBUF"
    using inv i by (auto simp: bio_inv_def lru_def users_ok_def)
  have lu: "lru ?u xs" unfolding unref_def by (rule lru_upd [OF l]) simp_all
  have nth: "?u ! j = (if j = i then (bufs s ! i)\<lparr>b_refcnt := b_refcnt (bufs s ! i) - 1\<rparr> else bufs s ! j)" for j
    using ib len by (simp add: unref_def nth_list_update)
  have lb: "lru ?bs ?xs" using lu lru_front(1) [OF lu ib] by simp
  have "map payload ?bs = map payload ?u" using lru_front(2) [OF lu ib] by simp
  moreover have "length ?u = Suc NBUF" by (simp add: unref_def len)
  ultimately have fl: "b_valid (?bs ! j) = b_valid (?u ! j) \<and> b_dev (?bs ! j) = b_dev (?u ! j) \<and> b_blockno (?bs ! j) = b_blockno (?u ! j)
      \<and> b_refcnt (?bs ! j) = b_refcnt (?u ! j) \<and> b_data (?bs ! j) = b_data (?u ! j)" if "j < NBUF" for j
    using payload_fields [of ?bs ?u j] that by simp
  have same: "b_valid (?bs ! j) = b_valid (bufs s ! j) \<and> b_dev (?bs ! j) = b_dev (bufs s ! j)
      \<and> b_blockno (?bs ! j) = b_blockno (bufs s ! j) \<and> b_data (?bs ! j) = b_data (bufs s ! j)" if "j < NBUF" for j
    using fl [OF that] by (simp add: nth)
  have r: "refs_ok ?bs P (H - {i})"
    using inv i fl by (auto simp: bio_inv_def refs_ok_def nth)
  have sl: "slocks_ok (p_pid (procs s ! p)) ?sl (H - {i})"
    using inv ib by (auto simp: bio_inv_def slocks_ok_def nth_list_update)
  have cl: "b_data (bufs s ! j) = disk s (b_blockno (bufs s ! j))" if "j \<in> P \<union> H" "j \<notin> P \<union> (H - {i})" for j
    using that clean by auto
  have sub: "P \<union> (H - {i}) \<subseteq> P \<union> H" by blast
  note b = bio_refs [OF inv lb same r sl sub cl refl]
  show ?thesis
    by (rule that [OF brelse_eq [OF inv i]]) (use b same in auto)
qed

lemma bpin_eq: "BcacheLock \<notin> set (locks s) \<Longrightarrow> bpin i s = Ret () (upd_buf i (\<lambda>x. x\<lparr>b_refcnt := b_refcnt x + 1\<rparr>) s)"
  by (simp add: bpin_def critical_kput)

lemma bunpin_eq: "BcacheLock \<notin> set (locks s) \<Longrightarrow> bunpin i s = Ret () (upd_buf i (\<lambda>x. x\<lparr>b_refcnt := b_refcnt x - 1\<rparr>) s)"
  by (simp add: bunpin_def critical_kput)

lemma bio_recount:
  assumes inv: "bio_inv p s P H xs" and i: "i \<in> H" and P': "P' \<union> H = P \<union> H" "\<And>j. j \<noteq> i \<Longrightarrow> j \<in> P' \<longleftrightarrow> j \<in> P"
    and t: "t = upd_buf i (\<lambda>x. x\<lparr>b_refcnt := of_bool (i \<in> P') + 1\<rparr>) s"
  shows "bio_inv p t P' H xs" and "blk t = blk s"
proof -
  have l: "lru (bufs s) xs" and len: "length (bufs s) = Suc NBUF" and ib: "i < NBUF"
    using inv i by (auto simp: bio_inv_def lru_def users_ok_def)
  have nth: "bufs t ! j = (if j = i then (bufs s ! i)\<lparr>b_refcnt := of_bool (i \<in> P') + 1\<rparr> else bufs s ! j)" for j
    using ib len by (simp add: t nth_list_update)
  have lt: "lru (bufs t) xs" unfolding t upd_buf_simps by (rule lru_upd [OF l]) simp_all
  have r: "refs_ok (bufs t) P' H" using inv i P'(2) by (auto simp: bio_inv_def refs_ok_def nth)
  have sl: "slocks_ok (p_pid (procs s ! p)) (slocks s) H" using inv by (simp add: bio_inv_def)
  have t': "t = s\<lparr>bufs := bufs t, slocks := slocks s\<rparr>" by (simp add: t upd_buf_def)
  have sub: "P' \<union> H \<subseteq> P \<union> H" using P'(1) by simp
  have same: "b_valid (bufs t ! j) = b_valid (bufs s ! j) \<and> b_dev (bufs t ! j) = b_dev (bufs s ! j)
      \<and> b_blockno (bufs t ! j) = b_blockno (bufs s ! j) \<and> b_data (bufs t ! j) = b_data (bufs s ! j)" for j
    by (simp add: nth)
  note b = bio_refs [OF inv lt same r sl sub _ t']
  show "bio_inv p t P' H xs" "blk t = blk s" using P'(1) by (auto intro: b)
qed

lemma bpin_ok:
  assumes inv: "bio_inv p s P H xs" and i: "i \<in> H" "i \<notin> P" and "BcacheLock \<notin> set (locks s)"
    and t: "t = upd_buf i (\<lambda>x. x\<lparr>b_refcnt := b_refcnt x + 1\<rparr>) s"
  shows "bpin i s = Ret () t" and "bio_inv p t (insert i P) H xs" and "blk t = blk s"
proof -
  show "bpin i s = Ret () t" using assms by (simp add: bpin_eq)
  have "b_refcnt (bufs s ! i) = 1" using inv i by (auto simp: bio_inv_def refs_ok_def users_ok_def)
  then have "t = upd_buf i (\<lambda>x. x\<lparr>b_refcnt := of_bool (i \<in> insert i P) + 1\<rparr>) s" by (simp add: t upd_buf_def)
  note b = bio_recount [OF inv i(1) _ _ this]
  show "bio_inv p t (insert i P) H xs" by (rule b(1)) (use i in auto)
  show "blk t = blk s" by (rule b(2)) (use i in auto)
qed

lemma bunpin_ok:
  assumes inv: "bio_inv p s P H xs" and i: "i \<in> H" "i \<in> P"
    and t: "t = upd_buf i (\<lambda>x. x\<lparr>b_refcnt := b_refcnt x - 1\<rparr>) s"
  shows "bunpin i s = Ret () t" and "bio_inv p t (P - {i}) H xs" and "blk t = blk s"
proof -
  show "bunpin i s = Ret () t" using inv t by (simp add: bunpin_eq bio_inv_def bio_ctx_def)
  have "b_refcnt (bufs s ! i) = 2" using inv i by (auto simp: bio_inv_def refs_ok_def users_ok_def)
  then have "t = upd_buf i (\<lambda>x. x\<lparr>b_refcnt := of_bool (i \<in> P - {i}) + 1\<rparr>) s" by (simp add: t upd_buf_def)
  note b = bio_recount [OF inv i(1) _ _ this]
  show "bio_inv p t (P - {i}) H xs" by (rule b(1)) (use i in auto)
  show "blk t = blk s" by (rule b(2)) (use i in auto)
qed

section \<open>Initialisation\<close>

definition part_lru :: "buf list \<Rightarrow> nat list \<Rightarrow> bool" where
  "part_lru bs xs \<longleftrightarrow> length bs = Suc NBUF \<and> chain (nxt bs) HEAD xs HEAD \<and> chain (prv bs) HEAD (rev xs) HEAD
     \<and> distinct xs \<and> (\<forall>x \<in> set xs. x < NBUF)"

lemma part_lru_push:
  assumes l: "part_lru bs xs" and b: "b < NBUF" "b \<notin> set xs"
  shows "part_lru (push_bufs b bs) (b # xs)" and "map payload (push_bufs b bs) = map payload bs"
proof -
  have n: "chain (nxt bs) HEAD xs HEAD" and p: "chain (prv bs) HEAD (rev xs) HEAD" and d: "distinct xs" "HEAD \<notin> set xs" "b \<noteq> HEAD"
    and len: "length bs = Suc NBUF" using l b by (auto simp: part_lru_def HEAD_def)
  have h: "nxt bs HEAD = hd (xs @ [HEAD])" using chain_first [OF n] .
  have "hd (xs @ [HEAD]) \<in> set (xs @ [HEAD])" by (rule hd_in_set) simp
  then have hb: "nxt bs HEAD \<le> NBUF" "nxt bs HEAD \<noteq> b" using l b unfolding h by (auto simp: part_lru_def HEAD_def dest: less_imp_le)
  have pl: "nxt (push_bufs b bs) = (nxt bs)(b := nxt bs HEAD, HEAD := b)"
      "prv (push_bufs b bs) = (prv bs)(b := HEAD, nxt bs HEAD := b)"
      "map payload (push_bufs b bs) = map payload bs" "length (push_bufs b bs) = length bs"
    using d b hb len by (intro push_links; simp)+
  have "chain (nxt (push_bufs b bs)) HEAD (b # xs) HEAD" unfolding pl using n d b by (intro chain_push) auto
  moreover have "last (HEAD # rev xs) = nxt bs HEAD" unfolding h by (cases xs) auto
  then have "chain (prv (push_bufs b bs)) HEAD (rev xs @ [b]) HEAD"
    unfolding pl using chain_push_last [OF p, of b] d b by auto
  ultimately show "part_lru (push_bufs b bs) (b # xs)" using l b pl by (auto simp: part_lru_def)
  show "map payload (push_bufs b bs) = map payload bs" by (rule pl(3))
qed

lemma binit_loop:
  assumes "part_lru (bufs s) []" and "n \<le> NBUF" and "NBUF \<le> length (slocks s)"
  shows "\<exists>t. kfor (\<lambda>b. kthen (initsleeplock b) (link_head b)) [0..<n] s = Ret () t
    \<and> part_lru (bufs t) (rev [0..<n]) \<and> map payload (bufs t) = map payload (bufs s)
    \<and> (\<forall>k < n. slocks t ! k = \<lparr>sl_locked = False, sl_pid = 0\<rparr>) \<and> length (slocks t) = length (slocks s)
    \<and> t = s\<lparr>bufs := bufs t, slocks := slocks t\<rparr>"
  using assms(2)
proof (induction n)
  case 0
  then show ?case using assms(1) by simp
next
  case (Suc n)
  then obtain t where t: "kfor (\<lambda>b. kthen (initsleeplock b) (link_head b)) [0..<n] s = Ret () t"
      "part_lru (bufs t) (rev [0..<n])" "map payload (bufs t) = map payload (bufs s)"
      "\<forall>k < n. slocks t ! k = \<lparr>sl_locked = False, sl_pid = 0\<rparr>" "length (slocks t) = length (slocks s)"
      "t = s\<lparr>bufs := bufs t, slocks := slocks t\<rparr>" by auto
  let ?u = "t\<lparr>slocks := (slocks t)[n := \<lparr>sl_locked = False, sl_pid = 0\<rparr>], bufs := push_bufs n (bufs t)\<rparr>"
  have "kthen (initsleeplock n) (link_head n) t = Ret () ?u"
    by (simp add: initsleeplock_def link_head_eq upd_slock_def slock_set)
  then have "kfor (\<lambda>b. kthen (initsleeplock b) (link_head b)) [0..<Suc n] s = Ret () ?u"
    using t(1) by (simp add: kfor_append)
  moreover have "part_lru (bufs ?u) (rev [0..<Suc n])" "map payload (bufs ?u) = map payload (bufs s)"
    using part_lru_push [OF t(2), of n] Suc.prems t(3) by simp_all
  moreover have "\<forall>k < Suc n. slocks ?u ! k = \<lparr>sl_locked = False, sl_pid = 0\<rparr>"
    using t(4,5) Suc.prems assms(3) by (auto simp: less_Suc_eq)
  moreover have "?u = s\<lparr>bufs := bufs ?u, slocks := slocks ?u\<rparr>" by (subst t(6)) simp
  ultimately show ?case using t(5) by (intro exI [of _ ?u]) simp
qed

lemma binit_ok:
  assumes len: "length (bufs s) = Suc NBUF" "NBUF \<le> length (slocks s)"
    and z: "\<And>i. i < NBUF \<Longrightarrow> b_dev (bufs s ! i) = 0 \<and> b_refcnt (bufs s ! i) = 0"
    and ctx: "bio_ctx p (s\<lparr>curproc := Some p\<rparr>)"
  obtains t where "binit s = Ret () t" "bio_inv p (t\<lparr>curproc := Some p\<rparr>) {} {} (rev [0..<NBUF])"
    "blk t = disk s" "t = s\<lparr>bufs := bufs t, slocks := slocks t\<rparr>" "\<forall>b i. \<not> cached (bufs t) b i"
proof -
  let ?bs = "(bufs s)[HEAD := (bufs s ! HEAD)\<lparr>b_prev := HEAD, b_next := HEAD\<rparr>]"
  let ?s = "s\<lparr>bufs := ?bs\<rparr>"
  have "part_lru (bufs ?s) []" using len by (simp add: part_lru_def nxt_def prv_def HEAD_def)
  from binit_loop [OF this order_refl] len(2) obtain t where
    t: "kfor (\<lambda>b. kthen (initsleeplock b) (link_head b)) [0..<NBUF] ?s = Ret () t"
      "part_lru (bufs t) (rev [0..<NBUF])" "map payload (bufs t) = map payload ?bs"
      "\<forall>k < NBUF. slocks t ! k = \<lparr>sl_locked = False, sl_pid = 0\<rparr>" "length (slocks t) = length (slocks s)"
      "t = ?s\<lparr>bufs := bufs t, slocks := slocks t\<rparr>" by auto
  have "binit s = Ret () t"
    using t(1) len by (simp add: binit_def upd_buf_def HEAD_def)
  have ts: "t = s\<lparr>bufs := bufs t, slocks := slocks t\<rparr>" by (subst t(6)) simp
  have f: "b_dev (bufs t ! i) = 0 \<and> b_refcnt (bufs t ! i) = 0" if "i < NBUF" for i
    using payload_fields [OF t(3), of i] that z [OF that] len by (simp add: HEAD_def)
  have l: "lru (bufs t) (rev [0..<NBUF])" using t(2) by (auto simp: lru_def part_lru_def)
  have nc: "\<not> cached (bufs t) b i" for b i using f [of i] by (auto simp: cached_def ROOTDEV_def)
  have "blk t b = disk s b" for b
    using blk_miss [OF l, of b] nc arg_cong [OF ts, of disk] by auto
  moreover have "bio_ctx p (t\<lparr>curproc := Some p\<rparr>)"
    using ctx by (subst ts) (simp add: bio_ctx_def no_plocks_def)
  then have "bio_inv p (t\<lparr>curproc := Some p\<rparr>) {} {} (rev [0..<NBUF])"
    using l nc f t(4,5) len(2) by (auto simp: bio_inv_def one_copy_def refs_ok_def slocks_ok_def users_ok_def coherent_def ROOTDEV_def)
  ultimately show ?thesis using that \<open>binit s = Ret () t\<close> ts nc by (simp add: fun_eq_iff)
qed

text \<open>
  C27: The buffer cache implements the array of blocks.  \<open>bread\<close> returns a locked
  buffer with the last contents of the block, taking the cached copy or else
  recycling the least recently used buffer that nobody uses; writing new data
  through it and releasing it changes exactly that block, in the cache and on the
  disk, keeps the invariant (one copy per block, the links of the list, the
  reference counts, the locks) and makes the buffer the most recently used.
\<close>
theorem bcache_read_write:
  assumes "bio_inv p s P H xs" and "\<forall>i \<in> H. b_blockno (bufs s ! i) \<noteq> b"
    and "card (P \<union> H) < NBUF \<or> (\<exists>j. cached (bufs s) b j)"
  shows "\<exists>i t. bread ROOTDEV b s = Ret i t \<and> bio_inv p t P (insert i H) xs \<and> b_data (bufs t ! i) = blk s b \<and> blk t = blk s
    \<and> ((\<exists>j. cached (bufs s) b j) \<or> find (\<lambda>j. j \<notin> P \<union> H) (rev xs) = Some i)
    \<and> (\<forall>d. \<exists>u. kthen (bwrite i) (brelse i) (upd_buf i (\<lambda>x. x\<lparr>b_data := d\<rparr>) t) = Ret () u
         \<and> bio_inv p u P H (if i \<in> P then xs else i # remove1 i xs)
         \<and> blk u = (blk s)(b := d) \<and> disk u = (disk s)(b := d))"
proof -
  obtain i t where r: "bread ROOTDEV b s = Ret i t" "bio_inv p t P (insert i H) xs" "blk t = blk s" "i \<notin> H" "i < NBUF"
    "b_blockno (bufs t ! i) = b" "b_data (bufs t ! i) = blk s b" "t = s\<lparr>bufs := (bufs s)[i := bufs t ! i], slocks := slocks t\<rparr>"
    "(\<exists>j. cached (bufs s) b j) \<or> find (\<lambda>j. j \<notin> P \<union> H) (rev xs) = Some i"
    by (rule bread_ok [OF assms]) (rule that; assumption)
  have dt: "disk t = disk s" by (subst r(8)) simp
  have "\<exists>u. kthen (bwrite i) (brelse i) (upd_buf i (\<lambda>x. x\<lparr>b_data := d\<rparr>) t) = Ret () u
      \<and> bio_inv p u P H (if i \<in> P then xs else i # remove1 i xs) \<and> blk u = (blk s)(b := d) \<and> disk u = (disk s)(b := d)" for d
  proof -
    let ?m = "upd_buf i (\<lambda>x. x\<lparr>b_data := d\<rparr>) t"
    note m = modify_ok [OF r(2) insertI1 refl, of d]
    have il: "i < length (bufs t)" using r(2,5) by (simp add: bio_inv_def lru_def)
    define w where "w = ?m\<lparr>disk := (disk ?m)(b := d), dhist := dhist ?m @ [(b, d)]\<rparr>"
    have "w = ?m\<lparr>disk := (disk ?m)(b_blockno (bufs ?m ! i) := b_data (bufs ?m ! i)),
        dhist := dhist ?m @ [(b_blockno (bufs ?m ! i), b_data (bufs ?m ! i))]\<rparr>"
      using r(6) il by (simp add: w_def)
    note w = bwrite_ok [OF m(1) insertI1 this]
    have cl: "b_data (bufs w ! i) = disk w (b_blockno (bufs w ! i))" using r(6) il by (simp add: w_def)
    obtain u where u: "brelse i w = Ret () u" "bio_inv p u P (insert i H - {i}) (if i \<in> P then xs else i # remove1 i xs)"
        "blk u = blk w" "u = w\<lparr>bufs := bufs u, slocks := slocks u\<rparr>"
      by (rule brelse_ok [OF w(2) insertI1 cl]) (rule that; assumption)
    have "disk u = disk w" by (subst u(4)) simp
    then have "disk u = (disk s)(b := d)" by (simp add: w_def dt)
    moreover have "blk u = (blk s)(b := d)" using u(3) w(3) m(2) r(3,6) by simp
    moreover have "insert i H - {i} = H" using r(4) by simp
    ultimately show ?thesis using u(1,2) w(1) by auto
  qed
  then show ?thesis using r by blast
qed

text \<open>The machine before \<open>binit\<close>: all buffers zero, a disk whose blocks hold their number.\<close>

definition zero_buf :: buf where
  "zero_buf = \<lparr>b_valid = False, b_disk = False, b_dev = 0, b_blockno = 0, b_refcnt = 0, b_prev = 0, b_next = 0,
     b_data = (\<lambda>_. 0)\<rparr>"

definition ex_bio :: bio_st where
  "ex_bio = \<lparr>locks = [], uart_out = [], panicking = False, panicked = False, pmem = (\<lambda>_. 0), freelist = 0,
     kend = 0x80021d50, procs = ex_procs, curproc = None, initproc = Some 0, nextpid = 3, ticks = 0,
     quota_window_start = 0, eco_mode = ECO_QUOTA,
     con = \<lparr>c_buf = replicate INPUT_BUF_SIZE 0, c_r = 0, c_w = 0, c_e = 0\<rparr>, tx_busy = False, disk = (\<lambda>b _. ucast b), dhist = [],
     bufs = replicate (Suc NBUF) zero_buf, slocks = replicate (NBUF + NINODE) \<lparr>sl_locked = True, sl_pid = 9\<rparr>\<rparr>"

lemma ex_bio_init:
  obtains t where "binit ex_bio = Ret () t" "bio_inv 0 (t\<lparr>curproc := Some 0\<rparr>) {} {} (rev [0..<NBUF])"
    "blk t = disk ex_bio" "t = ex_bio\<lparr>bufs := bufs t, slocks := slocks t\<rparr>" "\<forall>b i. \<not> cached (bufs t) b i"
proof (rule binit_ok [of ex_bio 0])
  show "bio_ctx 0 (ex_bio\<lparr>curproc := Some 0\<rparr>)"
    by (simp add: bio_ctx_def ex_bio_def ex_procs_def zero_proc_def no_plocks_def)
  show "b_dev (bufs ex_bio ! i) = 0 \<and> b_refcnt (bufs ex_bio ! i) = 0" if "i < NBUF" for i
    using that by (simp add: ex_bio_def zero_buf_def nth_Cons split: nat.split)
  show "length (bufs ex_bio) = Suc NBUF" "NBUF \<le> length (slocks ex_bio)" by (simp_all add: ex_bio_def)
qed (rule that)

theorem bcache_read_write_witness:
  "\<exists>t i u. binit ex_bio = Ret () t \<and> bread ROOTDEV 7 (t\<lparr>curproc := Some 0\<rparr>) = Ret i u
     \<and> b_data (bufs u ! i) = (\<lambda>_. 7) \<and> i = 0"
proof -
  obtain t where t: "binit ex_bio = Ret () t" "bio_inv 0 (t\<lparr>curproc := Some 0\<rparr>) {} {} (rev [0..<NBUF])"
    "blk t = disk ex_bio" "t = ex_bio\<lparr>bufs := bufs t, slocks := slocks t\<rparr>" "\<forall>b i. \<not> cached (bufs t) b i"
    by (rule ex_bio_init)
  let ?s = "t\<lparr>curproc := Some 0\<rparr>"
  have "blk ?s = blk t" by (simp add: blk_def fun_eq_iff split: option.split)
  then have b: "blk ?s 7 = (\<lambda>_. 7)" using t(3) by (simp add: ex_bio_def)
  have nc: "\<not> cached (bufs ?s) 7 j" for j using t(5) by simp
  have "find (\<lambda>j. j \<notin> {} \<union> {}) (rev (rev [0..<NBUF])) = Some (0 :: nat)" by (simp add: NBUF_def MAXOPBLOCKS_def upt_rec)
  then show ?thesis
    using bcache_read_write [OF t(2), of 7] t(1) b nc by (auto simp: NBUF_def MAXOPBLOCKS_def)
qed

end
