(* ===== verification/Cache.thy ===== *)
theory Cache
  imports Bio
begin

text \<open>
  The interface of the buffer cache as its clients, the log and the file system,
  use it.  The locale \<open>buffer_cache\<close> speaks of blocks instead of buffers:
  \<open>cache s B h\<close> holds when the blocks \<open>B\<close> are pinned and \<open>h\<close> maps the locked
  buffers to their blocks, \<open>blk\<close> is what the kernel sees of each block, \<open>disk\<close>
  what has reached the disk.  It is interpreted on the operations of bio.c.
\<close>

definition set_data :: "nat \<Rightarrow> block \<Rightarrow> 'z bio_st_scheme \<Rightarrow> (unit, 'z bio_st_scheme) outcome" where
  "set_data b d = kput (upd_buf b (\<lambda>x. x\<lparr>b_data := d\<rparr>))"

definition get_data :: "nat \<Rightarrow> 'z bio_st_scheme \<Rightarrow> (block, 'z bio_st_scheme) outcome" where
  "get_data b = kget (\<lambda>s. b_data (bufs s ! b))"

section \<open>The contract\<close>

locale buffer_cache =
  fixes rd :: "u32 \<Rightarrow> 's \<Rightarrow> (nat, 's) outcome"
    and get :: "nat \<Rightarrow> 's \<Rightarrow> (block, 's) outcome"
    and put :: "nat \<Rightarrow> block \<Rightarrow> 's \<Rightarrow> (unit, 's) outcome"
    and wr :: "nat \<Rightarrow> 's \<Rightarrow> (unit, 's) outcome"
    and rel :: "nat \<Rightarrow> 's \<Rightarrow> (unit, 's) outcome"
    and pin :: "nat \<Rightarrow> 's \<Rightarrow> (unit, 's) outcome"
    and unpin :: "nat \<Rightarrow> 's \<Rightarrow> (unit, 's) outcome"
    and cache :: "'s \<Rightarrow> u32 set \<Rightarrow> (nat \<Rightarrow> u32 option) \<Rightarrow> bool"
    and view :: "'s \<Rightarrow> u32 \<Rightarrow> block" and dsk :: "'s \<Rightarrow> u32 \<Rightarrow> block" and hist :: "'s \<Rightarrow> (u32 \<times> block) list"
    and frame :: "'s \<Rightarrow> 's \<Rightarrow> bool" and nbuf :: nat
  assumes frame_trans: "frame s t \<Longrightarrow> frame t u \<Longrightarrow> frame s u"
    and rd_ok: "cache s B h \<Longrightarrow> b \<notin> ran h \<Longrightarrow> card (B \<union> ran h) < nbuf \<or> b \<in> B \<Longrightarrow>
      \<exists>i t. rd b s = Ret i t \<and> cache t B (h(i \<mapsto> b)) \<and> i \<notin> dom h \<and> view t = view s \<and> dsk t = dsk s
        \<and> hist t = hist s \<and> frame s t"
    and get_ok: "cache s B h \<Longrightarrow> h i = Some b \<Longrightarrow> get i s = Ret (view s b) s"
    and put_ok: "cache s B h \<Longrightarrow> h i = Some b \<Longrightarrow>
      \<exists>t. put i d s = Ret () t \<and> cache t B h \<and> view t = (view s)(b := d) \<and> dsk t = dsk s \<and> hist t = hist s \<and> frame s t"
    and wr_ok: "cache s B h \<Longrightarrow> h i = Some b \<Longrightarrow>
      \<exists>t. wr i s = Ret () t \<and> cache t B h \<and> view t = view s \<and> dsk t = (dsk s)(b := view s b)
        \<and> hist t = hist s @ [(b, view s b)] \<and> frame s t"
    and rel_ok: "cache s B h \<Longrightarrow> h i = Some b \<Longrightarrow> b \<in> B \<or> view s b = dsk s b \<Longrightarrow>
      \<exists>t. rel i s = Ret () t \<and> cache t B (h(i := None)) \<and> view t = view s \<and> dsk t = dsk s \<and> hist t = hist s \<and> frame s t"
    and pin_ok: "cache s B h \<Longrightarrow> h i = Some b \<Longrightarrow> b \<notin> B \<Longrightarrow>
      \<exists>t. pin i s = Ret () t \<and> cache t (insert b B) h \<and> view t = view s \<and> dsk t = dsk s \<and> hist t = hist s \<and> frame s t"
    and unpin_ok: "cache s B h \<Longrightarrow> h i = Some b \<Longrightarrow> b \<in> B \<Longrightarrow>
      \<exists>t. unpin i s = Ret () t \<and> cache t (B - {b}) h \<and> view t = view s \<and> dsk t = dsk s \<and> hist t = hist s \<and> frame s t"
    and inj_held: "cache s B h \<Longrightarrow> h i = Some b \<Longrightarrow> h j = Some b \<Longrightarrow> i = j"
    and fin: "cache s B h \<Longrightarrow> finite B \<and> finite (ran h)"
    and unheld: "cache s B h \<Longrightarrow> b \<notin> B \<Longrightarrow> b \<notin> ran h \<Longrightarrow> view s b = dsk s b"
begin

text \<open>Reading a block and giving the buffer back.\<close>

lemma read_block:
  assumes c: "cache s B h" and "b \<notin> ran h" and "card (B \<union> ran h) < nbuf \<or> b \<in> B" and ok: "b \<in> B \<or> view s b = dsk s b"
  shows "\<exists>t. kbind (rd b) (\<lambda>i. kbind (get i) (\<lambda>d. kthen (rel i) (kret (f d)))) s = Ret (f (view s b)) t
    \<and> cache t B h \<and> view t = view s \<and> dsk t = dsk s \<and> hist t = hist s \<and> frame s t"
proof -
  obtain i t where t: "rd b s = Ret i t" "cache t B (h(i \<mapsto> b))" "i \<notin> dom h" "view t = view s" "dsk t = dsk s"
      "hist t = hist s" "frame s t"
    using rd_ok [OF assms(1-3)] by (elim exE conjE) (rule that)
  obtain u where u: "rel i t = Ret () u" "cache u B ((h(i \<mapsto> b))(i := None))" "view u = view t" "dsk u = dsk t"
      "hist u = hist t" "frame t u"
    using rel_ok [OF t(2), of i b] ok t(4,5) by auto
  have "(h(i \<mapsto> b))(i := None) = h" using t(3) by (auto simp: fun_eq_iff)
  moreover have "get i t = Ret (view s b) t" using get_ok [OF t(2), of i b] t(4) by simp
  ultimately show ?thesis using t u frame_trans [OF t(7) u(6)] by (auto simp: kret_def)
qed

text \<open>
  Copying block \<open>b\<close> over block \<open>a\<close> and through to the disk, with the two
  buffers released in either order.
\<close>

lemma copy_block:
  assumes c: "cache s B h" and held: "h i = Some a" "h j = Some b" "a \<noteq> b"
    and ok: "b \<in> B \<or> view s b = dsk s b"
  shows "\<exists>t. kthen (kbind (get j) (put i)) (kthen (wr i) (kthen (rel j) (rel i))) s = Ret () t
    \<and> cache t B (h(j := None, i := None)) \<and> view t = (view s)(a := view s b) \<and> dsk t = (dsk s)(a := view s b)
    \<and> hist t = hist s @ [(a, view s b)] \<and> frame s t"
proof -
  have ij: "i \<noteq> j" using held by auto
  have g: "get j s = Ret (view s b) s" using get_ok [OF c held(2)] .
  obtain t where t: "put i (view s b) s = Ret () t" "cache t B h" "view t = (view s)(a := view s b)" "dsk t = dsk s"
      "hist t = hist s" "frame s t"
    using put_ok [OF c held(1), of "view s b"] by (elim exE conjE) (rule that)
  obtain u where u: "wr i t = Ret () u" "cache u B h" "view u = view t" "dsk u = (dsk t)(a := view t a)"
      "hist u = hist t @ [(a, view t a)]" "frame t u"
    using wr_ok [OF t(2) held(1)] by (elim exE conjE) (rule that)
  have "b \<in> B \<or> view u b = dsk u b" using ok t u held(3) by auto
  from rel_ok [OF u(2) held(2) this] obtain v where v: "rel j u = Ret () v" "cache v B (h(j := None))" "view v = view u"
      "dsk v = dsk u" "hist v = hist u" "frame u v" by (elim exE conjE) (rule that)
  have "a \<in> B \<or> view v a = dsk v a" using u v by simp
  from rel_ok [OF v(2) _ this, of i] held(1) ij obtain w where w: "rel i v = Ret () w" "cache w B (h(j := None, i := None))"
      "view w = view v" "dsk w = dsk v" "hist w = hist v" "frame v w" by auto
  have "frame s w" using t(6) u(6) v(6) w(6) frame_trans by blast
  then show ?thesis using g t u v w by auto
qed

text \<open>Installing block \<open>a\<close> over block \<open>b\<close>, which stays pinned or is let go.\<close>

lemma install_block:
  assumes c: "cache s B h" and held: "h i = Some a" "h j = Some b" "a \<noteq> b"
    and ok: "view s a = dsk s a" and pinned: "keep \<or> b \<in> B"
  shows "\<exists>t. kthen (kbind (get i) (put j)) (kthen (wr j) (kthen (if keep then kret () else unpin j) (kthen (rel i) (rel j)))) s
      = Ret () t
    \<and> cache t (if keep then B else B - {b}) (h(i := None, j := None)) \<and> view t = (view s)(b := view s a)
    \<and> dsk t = (dsk s)(b := view s a) \<and> hist t = hist s @ [(b, view s a)] \<and> frame s t"
proof -
  have ij: "i \<noteq> j" using held by auto
  have g: "get i s = Ret (view s a) s" using get_ok [OF c held(1)] .
  obtain v where v: "put j (view s a) s = Ret () v" "cache v B h" "view v = (view s)(b := view s a)"
      "dsk v = dsk s" "hist v = hist s" "frame s v"
    using put_ok [OF c held(2), of "view s a"] by (elim exE conjE) (rule that)
  obtain w where w: "wr j v = Ret () w" "cache w B h" "view w = view v" "dsk w = (dsk v)(b := view v b)"
      "hist w = hist v @ [(b, view v b)]" "frame v w"
    using wr_ok [OF v(2) held(2)] by (elim exE conjE) (rule that)
  let ?B = "if keep then B else B - {b}"
  have "\<exists>x. kthen (if keep then kret () else unpin j) (kthen (rel i) (rel j)) w = kthen (rel i) (rel j) x
      \<and> cache x ?B h \<and> view x = view w \<and> dsk x = dsk w \<and> hist x = hist w \<and> frame v x"
  proof (cases keep)
    case True
    then show ?thesis using w by (intro exI [of _ w]) (simp add: kthen_def)
  next
    case False
    then have "b \<in> B" using pinned by simp
    from unpin_ok [OF w(2) held(2) this] obtain x where "unpin j w = Ret () x" "cache x (B - {b}) h" "view x = view w"
        "dsk x = dsk w" "hist x = hist w" "frame w x" by (elim exE conjE) (rule that)
    then show ?thesis using False frame_trans [OF w(6)] by (intro exI [of _ x]) simp
  qed
  then obtain x where x: "kthen (if keep then kret () else unpin j) (kthen (rel i) (rel j)) w = kthen (rel i) (rel j) x"
      "cache x ?B h" "view x = view w" "dsk x = dsk w" "hist x = hist w" "frame v x" by (elim exE conjE)
  have "a \<in> ?B \<or> view x a = dsk x a" using ok v w x held(3) by simp
  from rel_ok [OF x(2) held(1) this] obtain y where y: "rel i x = Ret () y" "cache y ?B (h(i := None))" "view y = view x"
      "dsk y = dsk x" "hist y = hist x" "frame x y" by (elim exE conjE) (rule that)
  have cl: "b \<in> ?B \<or> view y b = dsk y b" using v w x y by simp
  have hj: "(h(i := None)) j = Some b" using ij held by simp
  obtain z where z: "rel j y = Ret () z" "cache z ?B (h(i := None, j := None))" "view z = view y" "dsk z = dsk y"
      "hist z = hist y" "frame y z" using rel_ok [OF y(2) hj cl] by (elim exE conjE) (rule that)
  have "frame s z" using v(6) x(6) y(6) z(6) frame_trans by blast
  then show ?thesis using g v w x y z by (intro exI [of _ z]) simp
qed

end

section \<open>The buffer cache of bio.c\<close>

definition pblocks :: "buf list \<Rightarrow> nat set \<Rightarrow> u32 set" where
  "pblocks bs P = (\<lambda>i. b_blockno (bs ! i)) ` P"

definition cache :: "nat \<Rightarrow> 'z bio_st_scheme \<Rightarrow> u32 set \<Rightarrow> (nat \<Rightarrow> u32 option) \<Rightarrow> bool" where
  "cache p s B h \<longleftrightarrow> (\<exists>P xs. bio_inv p s P (dom h) xs \<and> pblocks (bufs s) P = B
     \<and> (\<forall>i b. h i = Some b \<longrightarrow> b_blockno (bufs s ! i) = b))"

lemma cacheI:
  "bio_inv p s P (dom h) xs \<Longrightarrow> pblocks (bufs s) P = B \<Longrightarrow> \<forall>i b. h i = Some b \<longrightarrow> b_blockno (bufs s ! i) = b
   \<Longrightarrow> cache p s B h"
  unfolding cache_def by blast

text \<open>Only the cache and the disk have changed.\<close>

definition bio_frame :: "'z bio_st_scheme \<Rightarrow> 'z bio_st_scheme \<Rightarrow> bool" where
  "bio_frame s t \<longleftrightarrow> t = s\<lparr>disk := disk t, dhist := dhist t, bufs := bufs t, slocks := slocks t\<rparr>"

lemma bio_frame_refl: "bio_frame s s"
  by (simp add: bio_frame_def)

lemma bio_frame_bufs:
  assumes "t = s\<lparr>bufs := x, slocks := y\<rparr>"
  shows "disk t = disk s" "dhist t = dhist s" "bio_frame s t"
  by (simp_all add: assms bio_frame_def)

lemma bio_frame_trans: "bio_frame s t \<Longrightarrow> bio_frame t u \<Longrightarrow> bio_frame s u"
proof -
  assume t: "bio_frame s t" and u: "bio_frame t u"
  have "u = t\<lparr>disk := disk u, dhist := dhist u, bufs := bufs u, slocks := slocks u\<rparr>" using u by (simp add: bio_frame_def)
  also have "\<dots> = (s\<lparr>disk := disk t, dhist := dhist t, bufs := bufs t, slocks := slocks t\<rparr>)
      \<lparr>disk := disk u, dhist := dhist u, bufs := bufs u, slocks := slocks u\<rparr>"
    using t unfolding bio_frame_def by (rule arg_cong)
  finally show ?thesis by (simp add: bio_frame_def)
qed

lemma inv_one_copy:
  assumes "bio_inv p s P H xs" and "i \<in> P \<union> H" "j \<in> P \<union> H" "b_blockno (bufs s ! i) = b_blockno (bufs s ! j)"
  shows "i = j"
proof -
  have "cached (bufs s) (b_blockno (bufs s ! i)) i" "cached (bufs s) (b_blockno (bufs s ! i)) j"
    using assms by (auto simp: bio_inv_def users_ok_def cached_def)
  then show ?thesis using assms(1) by (auto simp: bio_inv_def one_copy_def)
qed

lemma card_users:
  assumes "bio_inv p s P (dom h) xs" and "pblocks (bufs s) P = B" and "\<forall>i b. h i = Some b \<longrightarrow> b_blockno (bufs s ! i) = b"
  shows "card (B \<union> ran h) = card (P \<union> dom h)"
proof -
  have "B \<union> ran h = (\<lambda>i. b_blockno (bufs s ! i)) ` (P \<union> dom h)"
    using assms(2,3) by (auto simp: pblocks_def ran_def)
  moreover have "inj_on (\<lambda>i. b_blockno (bufs s ! i)) (P \<union> dom h)"
    using inv_one_copy [OF assms(1)] by (auto simp: inj_on_def)
  ultimately show ?thesis by (simp add: card_image)
qed

lemma held_data:
  assumes "bio_inv p s P H xs" and "i \<in> P \<union> H"
  shows "b_data (bufs s ! i) = blk s (b_blockno (bufs s ! i))"
proof -
  have "cached (bufs s) (b_blockno (bufs s ! i)) i" "b_valid (bufs s ! i)"
    using assms by (auto simp: bio_inv_def users_ok_def cached_def)
  then show ?thesis using assms(1) blk_hit [of s xs "b_blockno (bufs s ! i)" i] by (simp add: bio_inv_def)
qed

lemma inv_len: "bio_inv p s P H xs \<Longrightarrow> i \<in> P \<union> H \<Longrightarrow> i < NBUF \<and> i < length (bufs s)"
  by (simp add: bio_inv_def users_ok_def lru_def less_Suc_eq)

lemma cache_rd:
  assumes "cache p s B h" and nb: "b \<notin> ran h" and room: "card (B \<union> ran h) < NBUF \<or> b \<in> B"
  shows "\<exists>i t. bread ROOTDEV b s = Ret i t \<and> cache p t B (h(i \<mapsto> b)) \<and> i \<notin> dom h \<and> blk t = blk s \<and> disk t = disk s
    \<and> dhist t = dhist s \<and> bio_frame s t"
proof -
  obtain P xs where inv: "bio_inv p s P (dom h) xs" and B: "pblocks (bufs s) P = B"
    and hb: "\<forall>i b. h i = Some b \<longrightarrow> b_blockno (bufs s ! i) = b" using assms(1) by (auto simp: cache_def)
  have nh: "\<forall>i \<in> dom h. b_blockno (bufs s ! i) \<noteq> b" using hb nb by (auto simp: ran_def)
  have r: "card (P \<union> dom h) < NBUF \<or> (\<exists>j. cached (bufs s) b j)"
  proof (cases "b \<in> B")
    case True
    then obtain j where "j \<in> P" "b_blockno (bufs s ! j) = b" using B by (auto simp: pblocks_def)
    then have "cached (bufs s) b j" using inv by (auto simp: bio_inv_def users_ok_def cached_def)
    then show ?thesis by blast
  next
    case False
    then show ?thesis using room card_users [OF inv B hb] by simp
  qed
  obtain i t where t: "bread ROOTDEV b s = Ret i t" "bio_inv p t P (insert i (dom h)) xs" "blk t = blk s" "i \<notin> dom h" "i < NBUF"
      "b_blockno (bufs t ! i) = b" "t = s\<lparr>bufs := (bufs s)[i := bufs t ! i], slocks := slocks t\<rparr>" "i \<in> P \<longrightarrow> cached (bufs s) b i"
    by (rule bread_ok [OF inv nh r]) (rule that; assumption)
  have same: "b_blockno (bufs t ! j) = b_blockno (bufs s ! j)" if "j \<in> P \<union> dom h" for j
  proof (cases "j = i")
    case True
    then have "cached (bufs s) b i" using that t(4,8) by blast
    then show ?thesis using True t(6) by (simp add: cached_def)
  next
    case False
    have "bufs t ! j = (bufs s)[i := bufs t ! i] ! j" by (subst t(7)) simp
    then show ?thesis using False by simp
  qed
  have "bio_inv p t P (dom (h(i \<mapsto> b))) xs" using t(2) by simp
  moreover have "pblocks (bufs t) P = B" using same B by (auto simp: pblocks_def)
  moreover have "\<forall>j b'. (h(i \<mapsto> b)) j = Some b' \<longrightarrow> b_blockno (bufs t ! j) = b'" using t(6) same hb by auto
  ultimately have "cache p t B (h(i \<mapsto> b))" unfolding cache_def by blast
  then show ?thesis using t(1,3,4) bio_frame_bufs [OF t(7)] by blast
qed

lemma cache_get: "cache p s B h \<Longrightarrow> h i = Some b \<Longrightarrow> get_data i s = Ret (blk s b) s"
  using held_data [of p s _ "dom h" _ i] by (auto simp: cache_def get_data_def kget_def)

lemma cache_put:
  assumes "cache p s B h" and i: "h i = Some b"
  shows "\<exists>t. set_data i d s = Ret () t \<and> cache p t B h \<and> blk t = (blk s)(b := d) \<and> disk t = disk s \<and> dhist t = dhist s
    \<and> bio_frame s t"
proof -
  obtain P xs where inv: "bio_inv p s P (dom h) xs" and B: "pblocks (bufs s) P = B"
    and hb: "\<forall>i b. h i = Some b \<longrightarrow> b_blockno (bufs s ! i) = b" using assms(1) by (auto simp: cache_def)
  let ?t = "upd_buf i (\<lambda>x. x\<lparr>b_data := d\<rparr>) s"
  note m = modify_ok [OF inv domI [of h, OF i] refl, of d]
  have "b_blockno (bufs ?t ! j) = b_blockno (bufs s ! j)" for j
    by (cases "i < length (bufs s)") (simp_all add: nth_list_update list_update_beyond not_less)
  then have "cache p ?t B h" using m(1) B hb unfolding cache_def pblocks_def by auto
  moreover have "b_blockno (bufs s ! i) = b" using hb i by simp
  ultimately show ?thesis using m(2) by (auto simp: set_data_def kput_def bio_frame_def upd_buf_def)
qed

lemma cache_wr:
  assumes "cache p s B h" and i: "h i = Some b"
  shows "\<exists>t. bwrite i s = Ret () t \<and> cache p t B h \<and> blk t = blk s \<and> disk t = (disk s)(b := blk s b)
    \<and> dhist t = dhist s @ [(b, blk s b)] \<and> bio_frame s t"
proof -
  obtain P xs where inv: "bio_inv p s P (dom h) xs" and B: "pblocks (bufs s) P = B"
    and hb: "\<forall>i b. h i = Some b \<longrightarrow> b_blockno (bufs s ! i) = b" using assms(1) by (auto simp: cache_def)
  have b: "b_blockno (bufs s ! i) = b" "b_data (bufs s ! i) = blk s b" using hb i held_data [OF inv, of i] by auto
  let ?t = "s\<lparr>disk := (disk s)(b := blk s b), dhist := dhist s @ [(b, blk s b)]\<rparr>"
  note w = bwrite_ok [OF inv domI [of h, OF i] refl, unfolded b]
  have "cache p ?t B h" using w(2) B hb unfolding cache_def by fastforce
  then show ?thesis using w(1,3) by (intro exI [of _ ?t]) (simp add: bio_frame_def)
qed

lemma cache_rel:
  assumes "cache p s B h" and i: "h i = Some b" and cl: "b \<in> B \<or> blk s b = disk s b"
  shows "\<exists>t. brelse i s = Ret () t \<and> cache p t B (h(i := None)) \<and> blk t = blk s \<and> disk t = disk s \<and> dhist t = dhist s
    \<and> bio_frame s t"
proof -
  obtain P xs where inv: "bio_inv p s P (dom h) xs" and B: "pblocks (bufs s) P = B"
    and hb: "\<forall>i b. h i = Some b \<longrightarrow> b_blockno (bufs s ! i) = b" using assms(1) by (auto simp: cache_def)
  have b: "b_blockno (bufs s ! i) = b" "b_data (bufs s ! i) = blk s b" using hb i held_data [OF inv, of i] by auto
  have iP: "i \<in> P" if bB: "b \<in> B"
  proof -
    obtain j where "j \<in> P" "b_blockno (bufs s ! j) = b" using B bB by (auto simp: pblocks_def)
    then show ?thesis using inv_one_copy [OF inv, of i j] b i by auto
  qed
  then have "i \<notin> P \<Longrightarrow> b_data (bufs s ! i) = disk s (b_blockno (bufs s ! i))" using cl b by auto
  from brelse_ok [OF inv domI [of h, OF i] this] obtain t ys where
    t: "brelse i s = Ret () t" "bio_inv p t P (dom h - {i}) ys" "blk t = blk s" "t = s\<lparr>bufs := bufs t, slocks := slocks t\<rparr>"
      "\<forall>j < NBUF. b_blockno (bufs t ! j) = b_blockno (bufs s ! j) \<and> b_data (bufs t ! j) = b_data (bufs s ! j)
       \<and> b_dev (bufs t ! j) = b_dev (bufs s ! j)" by metis
  have same: "b_blockno (bufs t ! j) = b_blockno (bufs s ! j)" if "j \<in> P \<union> dom h" for j
    using t(5) inv_len [OF inv that] by simp
  have "pblocks (bufs t) P = B" using same B by (auto simp: pblocks_def)
  moreover have "\<forall>j b'. (h(i := None)) j = Some b' \<longrightarrow> b_blockno (bufs t ! j) = b'" using same hb by auto
  moreover have "dom (h(i := None)) = dom h - {i}" by simp
  ultimately have "cache p t B (h(i := None))" using t(2) unfolding cache_def by metis
  then show ?thesis using t(1,3) bio_frame_bufs [OF t(4)] by blast
qed

lemma cache_pin:
  assumes "cache p s B h" and i: "h i = Some b" and nB: "b \<notin> B"
  shows "\<exists>t. bpin i s = Ret () t \<and> cache p t (insert b B) h \<and> blk t = blk s \<and> disk t = disk s \<and> dhist t = dhist s
    \<and> bio_frame s t"
proof -
  obtain P xs where inv: "bio_inv p s P (dom h) xs" and B: "pblocks (bufs s) P = B"
    and hb: "\<forall>i b. h i = Some b \<longrightarrow> b_blockno (bufs s ! i) = b" using assms(1) by (auto simp: cache_def)
  have iP: "i \<notin> P" using nB B hb i by (auto simp: pblocks_def)
  let ?t = "upd_buf i (\<lambda>x. x\<lparr>b_refcnt := b_refcnt x + 1\<rparr>) s"
  have "BcacheLock \<notin> set (locks s)" using inv by (simp add: bio_inv_def bio_ctx_def)
  note w = bpin_ok [OF inv domI [of h, OF i] iP this refl]
  have same: "b_blockno (bufs ?t ! j) = b_blockno (bufs s ! j)" for j
    by (cases "i < length (bufs s)") (simp_all add: nth_list_update list_update_beyond not_less)
  then have "pblocks (bufs ?t) (insert i P) = insert b B" using B hb i unfolding pblocks_def by simp
  moreover have "\<forall>j b. h j = Some b \<longrightarrow> b_blockno (bufs ?t ! j) = b" unfolding same by (rule hb)
  ultimately have "cache p ?t (insert b B) h" by (rule cacheI [OF w(2)])
  then show ?thesis using w(1,3) by (intro exI [of _ ?t]) (simp add: bio_frame_def upd_buf_def)
qed

lemma cache_unpin:
  assumes "cache p s B h" and i: "h i = Some b" and bB: "b \<in> B"
  shows "\<exists>t. bunpin i s = Ret () t \<and> cache p t (B - {b}) h \<and> blk t = blk s \<and> disk t = disk s \<and> dhist t = dhist s
    \<and> bio_frame s t"
proof -
  obtain P xs where inv: "bio_inv p s P (dom h) xs" and B: "pblocks (bufs s) P = B"
    and hb: "\<forall>i b. h i = Some b \<longrightarrow> b_blockno (bufs s ! i) = b" using assms(1) by (auto simp: cache_def)
  have bi: "b_blockno (bufs s ! i) = b" using hb i by simp
  obtain j where "j \<in> P" "b_blockno (bufs s ! j) = b" using B bB by (auto simp: pblocks_def)
  then have iP: "i \<in> P" using inv_one_copy [OF inv, of i j] bi i by auto
  let ?t = "upd_buf i (\<lambda>x. x\<lparr>b_refcnt := b_refcnt x - 1\<rparr>) s"
  note w = bunpin_ok [OF inv domI [of h, OF i] iP refl]
  have same: "b_blockno (bufs ?t ! j) = b_blockno (bufs s ! j)" for j
    by (cases "i < length (bufs s)") (simp_all add: nth_list_update list_update_beyond not_less)
  have "b_blockno (bufs s ! j) \<noteq> b" if "j \<in> P - {i}" for j using inv_one_copy [OF inv, of i j] bi iP that by auto
  then have "pblocks (bufs ?t) (P - {i}) = B - {b}" using B bi unfolding pblocks_def same by auto
  moreover have "\<forall>j b. h j = Some b \<longrightarrow> b_blockno (bufs ?t ! j) = b" unfolding same by (rule hb)
  ultimately have "cache p ?t (B - {b}) h" by (rule cacheI [OF w(2)])
  then show ?thesis using w(1,3) by (intro exI [of _ ?t]) (simp add: bio_frame_def upd_buf_def)
qed

lemma cache_inj: "cache p s B h \<Longrightarrow> h i = Some b \<Longrightarrow> h j = Some b \<Longrightarrow> i = j"
  unfolding cache_def using inv_one_copy [of p s _ "dom h" _ i j] by (metis UnI2 domI)

lemma cache_fin: "cache p s B h \<Longrightarrow> finite B \<and> finite (ran h)"
proof -
  assume "cache p s B h"
  then obtain P xs where inv: "bio_inv p s P (dom h) xs" and B: "pblocks (bufs s) P = B" by (auto simp: cache_def)
  have "P \<union> dom h \<subseteq> {..<NBUF}" using inv by (auto simp: bio_inv_def users_ok_def)
  then have "finite (P \<union> dom h)" using finite_subset by blast
  then show ?thesis using B finite_ran [of h] by (auto simp: pblocks_def)
qed

lemma cache_unheld: "cache p s B h \<Longrightarrow> b \<notin> B \<Longrightarrow> b \<notin> ran h \<Longrightarrow> blk s b = disk s b"
proof -
  assume c: "cache p s B h" and b: "b \<notin> B" "b \<notin> ran h"
  then obtain P xs where inv: "bio_inv p s P (dom h) xs" and B: "pblocks (bufs s) P = B"
    and hb: "\<forall>i b. h i = Some b \<longrightarrow> b_blockno (bufs s ! i) = b" by (auto simp: cache_def)
  show ?thesis by (rule blk_disk [OF inv]) (use B hb b in \<open>auto simp: pblocks_def ran_def\<close>)
qed

interpretation bc: buffer_cache "bread ROOTDEV" get_data set_data bwrite brelse bpin bunpin "cache p" blk disk dhist bio_frame NBUF
  for p :: nat
proof (unfold_locales, goal_cases)
  case (1 s t u) then show ?case by (rule bio_frame_trans)
next
  case (2 s B h b) then show ?case by (rule cache_rd)
next
  case (3 s B h i b) then show ?case by (rule cache_get)
next
  case (4 s B h i b d) then show ?case by (rule cache_put)
next
  case (5 s B h i b) then show ?case by (rule cache_wr)
next
  case (6 s B h i b) then show ?case by (rule cache_rel)
next
  case (7 s B h i b) then show ?case by (rule cache_pin)
next
  case (8 s B h i b) then show ?case by (rule cache_unpin)
next
  case (9 s B h i b j) then show ?case by (rule cache_inj)
next
  case (10 s B h) then show ?case by (rule cache_fin)
next
  case (11 s B h b) then show ?case by (rule cache_unheld)
qed

end
