(* ===== verification/Log.thy ===== *)
theory Log
  imports Cache
begin

text \<open>
  kernel/log.c: the write-ahead log.  \<open>lh_n\<close> and \<open>lh_block\<close> are \<open>log.lh\<close>; an
  access to \<open>lh.block\<close> out of its bounds is the outcome \<open>Panic\<close>.  The theory
  shows that a commit is atomic with respect to crashes: after any prefix of the
  disk writes of \<open>commit\<close>, recovery from the disk alone yields either none or
  all of the updates of the transaction.
\<close>

section \<open>Data\<close>

definition BSIZE :: nat where "BSIZE = 1024"

record superblock =
  sb_magic :: u32
  sb_size :: u32
  sb_nblocks :: u32
  sb_ninodes :: u32
  sb_nlog :: u32
  sb_logstart :: u32
  sb_inodestart :: u32
  sb_bmapstart :: u32

record log_st = bio_st +
  log_start :: u32
  log_outstanding :: u32
  log_committing :: bool
  log_dev :: u32
  lh_n :: u32
  lh_block :: "u32 list"

section \<open>Operations\<close>


definition lh_get :: "nat \<Rightarrow> 'z log_st_scheme \<Rightarrow> (u32, 'z log_st_scheme) outcome" where
  "lh_get i s = (if i < length (lh_block s) then Ret (lh_block s ! i) s else Panic ''log.lh.block: bounds'')"

definition lh_set :: "nat \<Rightarrow> u32 \<Rightarrow> 'z log_st_scheme \<Rightarrow> (unit, 'z log_st_scheme) outcome" where
  "lh_set i b s = (if i < length (lh_block s) then Ret () (s\<lparr>lh_block := (lh_block s)[i := b]\<rparr>)
     else Panic ''log.lh.block: bounds'')"

definition install_one :: "bool \<Rightarrow> nat \<Rightarrow> 'z log_st_scheme \<Rightarrow> (unit, 'z log_st_scheme) outcome" where
  "install_one recovering tail = kbind (lh_get tail) (\<lambda>dst.
     kthen (if recovering
            then printf (''recovering tail %d dst %d'' @ [NL]) [PNum (of_nat tail), PNum (scast dst)] else kret ())
       (\<lambda>s. kbind (bread (log_dev s) (log_start s + of_nat tail + 1)) (\<lambda>lbuf.
          kbind (bread (log_dev s) dst) (\<lambda>dbuf.
            kthen (kbind (get_data lbuf) (set_data dbuf))
              (kthen (bwrite dbuf)
                 (kthen (if recovering then kret () else bunpin dbuf)
                    (kthen (brelse lbuf) (brelse dbuf)))))) s))"

definition install_trans :: "bool \<Rightarrow> 'z log_st_scheme \<Rightarrow> (unit, 'z log_st_scheme) outcome" where
  "install_trans recovering s = kfor (install_one recovering) [0..<nat (sint (lh_n s))] s"

definition read_head :: "'z log_st_scheme \<Rightarrow> (unit, 'z log_st_scheme) outcome" where
  "read_head s =
     kbind (bread (log_dev s) (log_start s)) (\<lambda>b.
       kbind (get_data b) (\<lambda>d.
         kthen (kput (\<lambda>s. s\<lparr>lh_n := load32 d 0\<rparr>))
           (kthen (kfor (\<lambda>i. lh_set i (load32 d (4 + 4 * i))) [0..<nat (sint (load32 d 0))])
              (brelse b)))) s"

text \<open>The bytes of a header block that \<open>write_head\<close> sets.\<close>

definition header :: "u32 \<Rightarrow> u32 list \<Rightarrow> block \<Rightarrow> block" where
  "header n bs d = fold (\<lambda>i d. store32 d (4 + 4 * i) (bs ! i)) [0..<nat (sint n)] (store32 d 0 n)"

definition write_head :: "'z log_st_scheme \<Rightarrow> (unit, 'z log_st_scheme) outcome" where
  "write_head s =
     kbind (bread (log_dev s) (log_start s)) (\<lambda>b.
       kthen (\<lambda>s. if length (lh_block s) < nat (sint (lh_n s)) then Panic ''log.lh.block: bounds''
                  else kbind (get_data b) (\<lambda>d. set_data b (header (lh_n s) (lh_block s) d)) s)
         (kthen (bwrite b) (brelse b))) s"

definition recover_from_log :: "'z log_st_scheme \<Rightarrow> (unit, 'z log_st_scheme) outcome" where
  "recover_from_log =
     kthen read_head (kthen (install_trans True) (kthen (kput (\<lambda>s. s\<lparr>lh_n := 0\<rparr>)) write_head))"

text \<open>\<open>sizeof(struct logheader)\<close> is 4 + 4 * LOGBLOCKS.\<close>

definition initlog :: "u32 \<Rightarrow> superblock \<Rightarrow> 'z log_st_scheme \<Rightarrow> (unit, 'z log_st_scheme) outcome" where
  "initlog dev sb =
     (if BSIZE \<le> 4 + 4 * LOGBLOCKS then kpanic ''initlog: too big logheader''
      else kthen (kput (\<lambda>s. s\<lparr>log_start := sb_logstart sb, log_dev := dev\<rparr>)) recover_from_log)"

text \<open>A process that wakes up in the loop of \<open>begin_op\<close> tests the conditions again.\<close>

definition begin_op :: "'z log_st_scheme \<Rightarrow> (unit, 'z log_st_scheme) outcome" where
  "begin_op = kthen (kacquire LogLock) (\<lambda>s.
     if log_committing s then sleep ChLog LogLock s
     else if int LOGBLOCKS < sint (lh_n s + (log_outstanding s + 1) * of_nat MAXOPBLOCKS) then sleep ChLog LogLock s
     else kthen (kput (\<lambda>s. s\<lparr>log_outstanding := log_outstanding s + 1\<rparr>)) (krelease LogLock) s)"

definition write_log_one :: "nat \<Rightarrow> 'z log_st_scheme \<Rightarrow> (unit, 'z log_st_scheme) outcome" where
  "write_log_one tail s =
     kbind (bread (log_dev s) (log_start s + of_nat tail + 1)) (\<lambda>to.
       kbind (lh_get tail) (\<lambda>src.
         kbind (bread (log_dev s) src) (\<lambda>from.
           kthen (kbind (get_data from) (set_data to))
             (kthen (bwrite to) (kthen (brelse from) (brelse to)))))) s"

definition write_log :: "'z log_st_scheme \<Rightarrow> (unit, 'z log_st_scheme) outcome" where
  "write_log s = kfor write_log_one [0..<nat (sint (lh_n s))] s"

definition commit :: "'z log_st_scheme \<Rightarrow> (unit, 'z log_st_scheme) outcome" where
  "commit s =
     (if 0 < sint (lh_n s)
      then kthen write_log (kthen write_head (kthen (install_trans False)
             (kthen (kput (\<lambda>s. s\<lparr>lh_n := 0\<rparr>)) write_head))) s
      else Ret () s)"

definition end_op :: "'z log_st_scheme \<Rightarrow> (unit, 'z log_st_scheme) outcome" where
  "end_op =
     kbind (critical LogLock
       (kthen (kput (\<lambda>s. s\<lparr>log_outstanding := log_outstanding s - 1\<rparr>)) (\<lambda>s.
          if log_committing s then Panic ''log.committing''
          else if log_outstanding s = 0 then Ret True (s\<lparr>log_committing := True\<rparr>)
          else kthen (wakeup (Some ChLog)) (kret False) s)))
       (\<lambda>do_commit.
          if do_commit
          then kthen commit
                 (critical LogLock (kthen (kput (\<lambda>s. s\<lparr>log_committing := False\<rparr>)) (wakeup (Some ChLog))))
          else kret ())"

text \<open>The index at which the loop of \<open>log_write\<close> stops: the entry of the block, or the end.\<close>

definition lh_index :: "u32 \<Rightarrow> u32 list \<Rightarrow> nat \<Rightarrow> nat" where
  "lh_index b bs n = length (takeWhile (\<lambda>i. bs ! i \<noteq> b) [0..<n])"

definition log_write :: "nat \<Rightarrow> 'z log_st_scheme \<Rightarrow> (unit, 'z log_st_scheme) outcome" where
  "log_write b = critical LogLock (\<lambda>s.
     if int LOGBLOCKS \<le> sint (lh_n s) then Panic ''too big a transaction''
     else if sint (log_outstanding s) < 1 then Panic ''log_write outside of trans''
     else let blockno = b_blockno (bufs s ! b); n = nat (sint (lh_n s)); i = lh_index blockno (lh_block s) n in
       kthen (lh_set i blockno)
         (if i = n then kthen (bpin b) (kput (\<lambda>s. s\<lparr>lh_n := lh_n s + 1\<rparr>)) else kret ()) s)"

section \<open>Frames\<close>

text \<open>Only the cache, the disk and the console output have changed.\<close>

definition io_frame :: "'z bio_st_scheme \<Rightarrow> 'z bio_st_scheme \<Rightarrow> bool" where
  "io_frame s t \<longleftrightarrow> bio_frame (s\<lparr>uart_out := uart_out t\<rparr>) t"

lemma io_frame_eq:
  "io_frame s t \<longleftrightarrow> t = s\<lparr>uart_out := uart_out t, disk := disk t, dhist := dhist t, bufs := bufs t, slocks := slocks t\<rparr>"
  by (simp add: io_frame_def bio_frame_def)

lemma io_frame_refl: "io_frame s s"
  by (simp add: io_frame_eq)

lemma bio_io_frame: "bio_frame s t \<Longrightarrow> io_frame s t"
proof -
  assume "bio_frame s t"
  then have t: "t = s\<lparr>disk := disk t, dhist := dhist t, bufs := bufs t, slocks := slocks t\<rparr>" by (simp add: bio_frame_def)
  from arg_cong [OF t, of uart_out] have "uart_out t = uart_out s" by simp
  then show ?thesis using t by (simp add: io_frame_def bio_frame_def)
qed

lemma io_frame_trans: "io_frame s t \<Longrightarrow> io_frame t u \<Longrightarrow> io_frame s u"
proof -
  assume t: "io_frame s t" and u: "io_frame t u"
  let ?upd = "\<lambda>x. x\<lparr>uart_out := uart_out u, disk := disk u, dhist := dhist u, bufs := bufs u, slocks := slocks u\<rparr>"
  have "u = ?upd t" using u by (simp only: io_frame_eq)
  also have "\<dots> = ?upd (s\<lparr>uart_out := uart_out t, disk := disk t, dhist := dhist t, bufs := bufs t, slocks := slocks t\<rparr>)"
    using t unfolding io_frame_eq by (rule arg_cong)
  finally show ?thesis by (simp add: io_frame_eq)
qed

lemma io_frame_fields:
  fixes s t :: "'z log_st_scheme"
  assumes "io_frame s t"
  shows "log_start t = log_start s" "log_dev t = log_dev s" "lh_n t = lh_n s" "lh_block t = lh_block s"
    "log_outstanding t = log_outstanding s" "log_committing t = log_committing s" "locks t = locks s" "panicked t = panicked s"
proof -
  note e = assms [unfolded io_frame_eq]
  show "log_start t = log_start s" "log_dev t = log_dev s" "lh_n t = lh_n s" "lh_block t = lh_block s"
    "log_outstanding t = log_outstanding s" "log_committing t = log_committing s" "locks t = locks s" "panicked t = panicked s"
    using arg_cong [OF e, of log_start] arg_cong [OF e, of log_dev] arg_cong [OF e, of lh_n] arg_cong [OF e, of lh_block]
      arg_cong [OF e, of log_outstanding] arg_cong [OF e, of log_committing] arg_cong [OF e, of locks] arg_cong [OF e, of panicked]
    by simp_all
qed

lemma cache_uart [simp]: "cache p (s\<lparr>uart_out := x\<rparr>) B h = cache p s B h"
  by (simp add: cache_def bio_inv_def bio_ctx_def no_plocks_def)

lemma cache_lh [simp]:
  "cache p (s\<lparr>lh_n := n\<rparr>) B h = cache p s B h" "cache p (s\<lparr>lh_block := bs\<rparr>) B h = cache p s B h"
  "cache p (s\<lparr>log_outstanding := k\<rparr>) B h = cache p s B h" "cache p (s\<lparr>log_committing := c\<rparr>) B h = cache p s B h"
  "cache p (s\<lparr>log_start := st\<rparr>) B h = cache p s B h" "cache p (s\<lparr>log_dev := d\<rparr>) B h = cache p s B h"
  by (simp_all add: cache_def bio_inv_def bio_ctx_def no_plocks_def)

lemma blk_fields [simp]:
  "blk (s\<lparr>uart_out := x\<rparr>) = blk s" "blk (s\<lparr>lh_n := n\<rparr>) = blk s" "blk (s\<lparr>lh_block := bs\<rparr>) = blk s"
  "blk (s\<lparr>log_outstanding := k\<rparr>) = blk s" "blk (s\<lparr>log_committing := c\<rparr>) = blk s"
  "blk (s\<lparr>log_start := st\<rparr>) = blk s" "blk (s\<lparr>log_dev := d\<rparr>) = blk s" "blk (s\<lparr>locks := l\<rparr>) = blk s"
  by (simp_all add: blk_def fun_eq_iff split: option.split)

section \<open>Sequences of writes\<close>

definition apply_writes :: "(u32 \<times> block) list \<Rightarrow> (u32 \<Rightarrow> block) \<Rightarrow> (u32 \<Rightarrow> block)" where
  "apply_writes ws d = fold (\<lambda>(b, x) d. d(b := x)) ws d"

lemma apply_writes_simps [simp]:
  "apply_writes [] d = d" "apply_writes ((b, x) # ws) d = apply_writes ws (d(b := x))"
  "apply_writes (ws @ [(b, x)]) d = (apply_writes ws d)(b := x)"
  by (simp_all add: apply_writes_def)

lemma apply_writes_append: "apply_writes (ws @ vs) d = apply_writes vs (apply_writes ws d)"
  by (simp add: apply_writes_def)

lemma apply_writes_other: "b \<notin> fst ` set ws \<Longrightarrow> apply_writes ws d b = d b"
  by (induction ws arbitrary: d) auto

lemma apply_writes_same: "distinct (map fst ws) \<Longrightarrow> (b, x) \<in> set ws \<Longrightarrow> apply_writes ws d b = x"
  by (induction ws arbitrary: d) (auto simp: apply_writes_other)

section \<open>One block of the log\<close>

definition logblk :: "'z log_st_scheme \<Rightarrow> nat \<Rightarrow> u32" where
  "logblk s k = log_start s + of_nat k + 1"

lemma write_log_one_ok:
  assumes c: "cache p s B Map.empty" and d: "log_dev s = ROOTDEV" and k: "k < length (lh_block s)"
    and b: "lh_block s ! k \<in> B" and a: "logblk s k \<notin> B" and card: "card B < NBUF"
  shows "\<exists>t. write_log_one k s = Ret () t \<and> cache p t B Map.empty
    \<and> blk t = (blk s)(logblk s k := blk s (lh_block s ! k)) \<and> disk t = (disk s)(logblk s k := blk s (lh_block s ! k))
    \<and> dhist t = dhist s @ [(logblk s k, blk s (lh_block s ! k))] \<and> io_frame s t"
proof -
  let ?a = "logblk s k" and ?b = "lh_block s ! k"
  obtain i t where t: "bread ROOTDEV ?a s = Ret i t" "cache p t B [i \<mapsto> ?a]" "blk t = blk s" "disk t = disk s"
      "dhist t = dhist s" "bio_frame s t"
    using bc.rd_ok [OF c, of ?a] card by auto
  have ne: "?a \<noteq> ?b" using a b by auto
  obtain j u where u: "bread ROOTDEV ?b t = Ret j u" "cache p u B ([i \<mapsto> ?a](j \<mapsto> ?b))" "j \<notin> dom [i \<mapsto> ?a]" "blk u = blk t"
      "disk u = disk t" "dhist u = dhist t" "bio_frame t u"
    using bc.rd_ok [OF t(2), of ?b] b ne by auto
  have ij: "i \<noteq> j" using u(3) by auto
  obtain v where v: "kthen (kbind (get_data j) (set_data i)) (kthen (bwrite i) (kthen (brelse j) (brelse i))) u = Ret () v"
      "cache p v B (([i \<mapsto> ?a](j \<mapsto> ?b))(j := None, i := None))" "blk v = (blk u)(?a := blk u ?b)"
      "disk v = (disk u)(?a := blk u ?b)" "dhist v = dhist u @ [(?a, blk u ?b)]" "bio_frame u v"
    using bc.copy_block [OF u(2), of i ?a j ?b] ij ne b by auto
  have h: "([i \<mapsto> ?a](j \<mapsto> ?b))(j := None, i := None) = Map.empty" by auto
  have f: "io_frame s t" "io_frame t u" "io_frame u v" using t(6) u(7) v(6) by (auto intro: bio_io_frame)
  have g: "lh_get k t = Ret ?b t" using io_frame_fields [OF f(1)] k by (simp add: lh_get_def)
  have "write_log_one k s = Ret () v"
    using t(1) u(1) v(1) g d unfolding write_log_one_def logblk_def by simp
  moreover have "io_frame s v" using f io_frame_trans by blast
  ultimately show ?thesis using v t u h by auto
qed

lemma recovering_chars:
  "\<exists>cs. printf_chars (''recovering tail %d dst %d'' @ [NL]) [PNum a, PNum b] = Some cs"
  by (simp add: NL_def fmt_at_def printf_conv_def put_conv_def del: width_arg.simps)

lemma install_one_ok:
  assumes c: "cache p s B Map.empty" and d: "log_dev s = ROOTDEV" and k: "k < length (lh_block s)"
    and b: "recovering \<or> lh_block s ! k \<in> B" and ne: "logblk s k \<noteq> lh_block s ! k" and a: "logblk s k \<notin> B"
    and card: "Suc (card B) < NBUF \<or> \<not> recovering \<and> card B < NBUF" and pr: "can_print s"
  shows "\<exists>t. install_one recovering k s = Ret () t \<and> cache p t (if recovering then B else B - {lh_block s ! k}) Map.empty
    \<and> blk t = (blk s)(lh_block s ! k := blk s (logblk s k)) \<and> disk t = (disk s)(lh_block s ! k := blk s (logblk s k))
    \<and> dhist t = dhist s @ [(lh_block s ! k, blk s (logblk s k))] \<and> io_frame s t"
proof -
  let ?a = "logblk s k" and ?b = "lh_block s ! k"
  obtain cs where cs: "printf_chars (''recovering tail %d dst %d'' @ [NL]) [PNum (of_nat k), PNum (scast ?b)] = Some cs"
    using recovering_chars by blast
  define s0 where "s0 = (if recovering then s\<lparr>uart_out := uart_out s @ cons_out cs\<rparr> else s)"
  have p0: "(if recovering then printf (''recovering tail %d dst %d'' @ [NL]) [PNum (of_nat k), PNum (scast ?b)] else kret ()) s = Ret () s0"
    using printf_Ret [OF _ _ cs, of s] pr by (simp add: s0_def can_print_def kret_def)
  have s0: "cache p s0 B Map.empty" "blk s0 = blk s" "disk s0 = disk s" "dhist s0 = dhist s" "io_frame s s0"
      "log_start s0 = log_start s" "log_dev s0 = ROOTDEV"
    using c d by (simp_all add: s0_def io_frame_eq)
  obtain i t where t: "bread ROOTDEV ?a s0 = Ret i t" "cache p t B [i \<mapsto> ?a]" "blk t = blk s0" "disk t = disk s0"
      "dhist t = dhist s0" "bio_frame s0 t"
    using bc.rd_ok [OF s0(1), of ?a] card by auto
  have room: "card (B \<union> ran [i \<mapsto> ?a]) < NBUF \<or> ?b \<in> B"
    using card b bc.fin [OF s0(1)] by (auto simp: card_insert_if)
  obtain j u where u: "bread ROOTDEV ?b t = Ret j u" "cache p u B ([i \<mapsto> ?a](j \<mapsto> ?b))" "j \<notin> dom [i \<mapsto> ?a]" "blk u = blk t"
      "disk u = disk t" "dhist u = dhist t" "bio_frame t u"
    using bc.rd_ok [OF t(2) _ room] ne by auto
  let ?h = "[i \<mapsto> ?a](j \<mapsto> ?b)"
  have ij: "i \<noteq> j" and hi: "?h i = Some ?a" "?h j = Some ?b" using u(3) by auto
  have aa: "blk u ?a = disk u ?a" using t(3,4) u(4,5) bc.unheld [OF s0(1) a] by simp
  let ?B = "if recovering then B else B - {?b}"
  obtain z where z: "kthen (kbind (get_data i) (set_data j)) (kthen (bwrite j)
        (kthen (if recovering then kret () else bunpin j) (kthen (brelse i) (brelse j)))) u = Ret () z"
      "cache p z ?B (?h(i := None, j := None))" "blk z = (blk u)(?b := blk u ?a)" "disk z = (disk u)(?b := blk u ?a)"
      "dhist z = dhist u @ [(?b, blk u ?a)]" "bio_frame u z"
    using bc.install_block [OF u(2) hi ne aa b] by (elim exE conjE) (rule that)
  have h: "?h(i := None, j := None) = Map.empty" by auto
  have "bio_frame s0 z" using t(6) u(7) z(6) bio_frame_trans by blast
  then have fr: "io_frame s z" using s0(5) bio_io_frame io_frame_trans by blast
  have "install_one recovering k s = Ret () z"
    unfolding install_one_def
    using k p0 t(1) u(1) z(1) s0(6,7) by (simp add: lh_get_def logblk_def)
  then show ?thesis using fr z u t s0 h by auto
qed

section \<open>The loops over the log\<close>

definition log_writes :: "'z log_st_scheme \<Rightarrow> nat \<Rightarrow> (u32 \<times> block) list" where
  "log_writes s n = map (\<lambda>k. (logblk s k, blk s (lh_block s ! k))) [0..<n]"

definition home_writes :: "'z log_st_scheme \<Rightarrow> nat \<Rightarrow> (u32 \<times> block) list" where
  "home_writes s n = map (\<lambda>k. (lh_block s ! k, blk s (logblk s k))) [0..<n]"

lemma write_log_loop:
  assumes c: "cache p s B Map.empty" and d: "log_dev s = ROOTDEV" and card: "card B < NBUF" and len: "n \<le> length (lh_block s)"
    and b: "\<And>k. k < n \<Longrightarrow> lh_block s ! k \<in> B \<and> logblk s k \<notin> B"
  shows "\<exists>t. kfor write_log_one [0..<n] s = Ret () t \<and> cache p t B Map.empty
    \<and> blk t = apply_writes (log_writes s n) (blk s) \<and> disk t = apply_writes (log_writes s n) (disk s)
    \<and> dhist t = dhist s @ log_writes s n \<and> io_frame s t"
  using len b
proof (induction n)
  case 0
  then show ?case using c by (simp add: log_writes_def io_frame_refl)
next
  case (Suc n)
  then obtain t where t: "kfor write_log_one [0..<n] s = Ret () t" "cache p t B Map.empty"
      "blk t = apply_writes (log_writes s n) (blk s)" "disk t = apply_writes (log_writes s n) (disk s)"
      "dhist t = dhist s @ log_writes s n" "io_frame s t" by auto
  note f = io_frame_fields [OF t(6)]
  have l: "logblk t k = logblk s k" for k using f by (simp add: logblk_def)
  have "lh_block s ! n \<noteq> logblk s x" if "x < n" for x using Suc.prems(2) [of n] Suc.prems(2) [of x] that by auto
  then have "lh_block s ! n \<notin> fst ` set (log_writes s n)" by (fastforce simp: log_writes_def)
  then have v: "blk t (lh_block s ! n) = blk s (lh_block s ! n)" using t(3) by (simp add: apply_writes_other)
  obtain u where u: "write_log_one n t = Ret () u" "cache p u B Map.empty"
      "blk u = (blk t)(logblk t n := blk t (lh_block t ! n))" "disk u = (disk t)(logblk t n := blk t (lh_block t ! n))"
      "dhist u = dhist t @ [(logblk t n, blk t (lh_block t ! n))]" "io_frame t u"
    using write_log_one_ok [OF t(2), of n] f d Suc.prems(1) Suc.prems(2) [of n] card l by auto
  have "log_writes s (Suc n) = log_writes s n @ [(logblk s n, blk s (lh_block s ! n))]" by (simp add: log_writes_def)
  then show ?case
    using t u v f l io_frame_trans [OF t(6) u(6)] by (simp add: kfor_append del: fun_upd_apply)
qed

lemma install_loop:
  assumes c: "cache p s B Map.empty" and d: "log_dev s = ROOTDEV" and pr: "can_print s" and len: "n \<le> length (lh_block s)"
    and card: "Suc (card B) < NBUF \<or> \<not> rec \<and> card B < NBUF"
    and b: "\<And>k. k < n \<Longrightarrow> (rec \<or> lh_block s ! k \<in> B) \<and> logblk s k \<notin> B \<and> (\<forall>j < n. logblk s k \<noteq> lh_block s ! j)"
    and dist: "distinct (take n (lh_block s))"
  shows "\<exists>t. kfor (install_one rec) [0..<n] s = Ret () t
    \<and> cache p t (if rec then B else B - set (take n (lh_block s))) Map.empty
    \<and> blk t = apply_writes (home_writes s n) (blk s) \<and> disk t = apply_writes (home_writes s n) (disk s)
    \<and> dhist t = dhist s @ home_writes s n \<and> io_frame s t"
  using len b dist
proof (induction n)
  case 0
  then show ?case using c by (simp add: home_writes_def io_frame_refl)
next
  case (Suc n)
  let ?B = "if rec then B else B - set (take n (lh_block s))"
  have tk: "take (Suc n) (lh_block s) = take n (lh_block s) @ [lh_block s ! n]"
    using Suc.prems(1) by (simp add: take_Suc_conv_app_nth)
  have prem: "\<And>k. k < n \<Longrightarrow> (rec \<or> lh_block s ! k \<in> B) \<and> logblk s k \<notin> B \<and> (\<forall>j < n. logblk s k \<noteq> lh_block s ! j)"
    using Suc.prems(2) by simp
  obtain t where t: "kfor (install_one rec) [0..<n] s = Ret () t" "cache p t ?B Map.empty"
      "blk t = apply_writes (home_writes s n) (blk s)" "disk t = apply_writes (home_writes s n) (disk s)"
      "dhist t = dhist s @ home_writes s n" "io_frame s t"
    using Suc.IH [OF _ prem] Suc.prems(1,3) tk by auto
  note f = io_frame_fields [OF t(6)]
  have l: "logblk t k = logblk s k" for k using f by (simp add: logblk_def)
  have "logblk s n \<noteq> lh_block s ! j" if "j < n" for j using Suc.prems(2) [of n] that by simp
  then have "logblk s n \<notin> fst ` set (home_writes s n)" by (fastforce simp: home_writes_def)
  then have v: "blk t (logblk s n) = blk s (logblk s n)" using t(3) by (simp add: apply_writes_other)
  have nb: "rec \<or> lh_block t ! n \<in> ?B" using Suc.prems(2) [of n] Suc.prems(3) f tk by auto
  have "card ?B \<le> card B" using bc.fin [OF c] by (simp add: card_mono)
  then have card': "Suc (card ?B) < NBUF \<or> \<not> rec \<and> card ?B < NBUF" using card by auto
  have ne: "logblk t n \<noteq> lh_block t ! n" "logblk t n \<notin> ?B" using Suc.prems(2) [of n] f l by auto
  have pr': "can_print t" using pr f by (simp add: can_print_def)
  obtain u where u: "install_one rec n t = Ret () u" "cache p u (if rec then ?B else ?B - {lh_block t ! n}) Map.empty"
      "blk u = (blk t)(lh_block t ! n := blk t (logblk t n))" "disk u = (disk t)(lh_block t ! n := blk t (logblk t n))"
      "dhist u = dhist t @ [(lh_block t ! n, blk t (logblk t n))]" "io_frame t u"
    using install_one_ok [OF t(2) _ _ nb ne card' pr'] f d Suc.prems(1) by auto
  have "home_writes s (Suc n) = home_writes s n @ [(lh_block s ! n, blk s (logblk s n))]" by (simp add: home_writes_def)
  moreover have "(if rec then ?B else ?B - {lh_block t ! n}) = (if rec then B else B - set (take (Suc n) (lh_block s)))"
    using f tk by auto
  ultimately show ?case
    using t u v f l io_frame_trans [OF t(6) u(6)] by (simp add: kfor_append del: fun_upd_apply)
qed

section \<open>The header block\<close>

lemma header_fold:
  "load32 (fold (\<lambda>i d. store32 d (4 + 4 * i) (bs ! i)) [0..<m] d) 0 = load32 d 0"
  "i < m \<Longrightarrow> load32 (fold (\<lambda>i d. store32 d (4 + 4 * i) (bs ! i)) [0..<m] d) (4 + 4 * i) = bs ! i"
  by (induction m) (auto simp: load_frame_nat less_Suc_eq mem_simps)

lemma header_load:
  "load32 (header n bs d) 0 = n"
  "i < nat (sint n) \<Longrightarrow> load32 (header n bs d) (4 + 4 * i) = bs ! i"
  by (simp_all add: header_def header_fold mem_simps)

lemma write_head_ok:
  assumes c: "cache p s B Map.empty" and d: "log_dev s = ROOTDEV" and st: "log_start s \<notin> B" and card: "card B < NBUF"
    and len: "nat (sint (lh_n s)) \<le> length (lh_block s)"
  shows "\<exists>t. write_head s = Ret () t \<and> cache p t B Map.empty
    \<and> blk t = (blk s)(log_start s := header (lh_n s) (lh_block s) (blk s (log_start s)))
    \<and> disk t = (disk s)(log_start s := header (lh_n s) (lh_block s) (blk s (log_start s)))
    \<and> dhist t = dhist s @ [(log_start s, header (lh_n s) (lh_block s) (blk s (log_start s)))] \<and> io_frame s t"
proof -
  let ?a = "log_start s" and ?d = "header (lh_n s) (lh_block s) (blk s (log_start s))"
  obtain i t where t: "bread ROOTDEV ?a s = Ret i t" "cache p t B [i \<mapsto> ?a]" "blk t = blk s" "disk t = disk s"
      "dhist t = dhist s" "bio_frame s t"
    using bc.rd_ok [OF c, of ?a] card by auto
  note f = io_frame_fields [OF bio_io_frame [OF t(6)]]
  have hi: "[i \<mapsto> ?a] i = Some ?a" by simp
  have g: "get_data i t = Ret (blk t ?a) t" by (rule bc.get_ok [OF t(2) hi])
  obtain u where u: "set_data i ?d t = Ret () u" "cache p u B [i \<mapsto> ?a]" "blk u = (blk t)(?a := ?d)" "disk u = disk t"
      "dhist u = dhist t" "bio_frame t u"
    using bc.put_ok [OF t(2) hi, of ?d] by (elim exE conjE) (rule that)
  obtain v where v: "bwrite i u = Ret () v" "cache p v B [i \<mapsto> ?a]" "blk v = blk u" "disk v = (disk u)(?a := blk u ?a)"
      "dhist v = dhist u @ [(?a, blk u ?a)]" "bio_frame u v"
    using bc.wr_ok [OF u(2) hi] by (elim exE conjE) (rule that)
  have "?a \<in> B \<or> blk v ?a = disk v ?a" using v by simp
  from bc.rel_ok [OF v(2) hi this] obtain w where w: "brelse i v = Ret () w" "cache p w B ([i \<mapsto> ?a](i := None))" "blk w = blk v"
      "disk w = disk v" "dhist w = dhist v" "bio_frame v w" by (elim exE conjE) (rule that)
  have "write_head s = Ret () w"
    using t(1) g u(1) v(1) w(1) d f len t(3) by (simp add: write_head_def kthen_def kbind_def not_less)
  moreover have "io_frame s w" using t(6) u(6) v(6) w(6) bio_frame_trans bio_io_frame by blast
  moreover have "[i \<mapsto> ?a](i := None) = Map.empty" by auto
  ultimately show ?thesis using t u v w by (intro exI [of _ w]) (simp add: fun_upd_same del: fun_upd_apply)
qed

lemma read_head_loop:
  assumes "m \<le> length (lh_block s)"
  shows "kfor (\<lambda>i. lh_set i (f i)) [0..<m] s = Ret () (s\<lparr>lh_block := map f [0..<m] @ drop m (lh_block s)\<rparr>)"
  using assms
proof (induction m)
  case (Suc m)
  then have "(map f [0..<m] @ drop m (lh_block s))[m := f m] = map f [0..<Suc m] @ drop (Suc m) (lh_block s)"
    by (simp add: list_update_append Cons_nth_drop_Suc [symmetric])
  then show ?case using Suc by (simp add: kfor_append lh_set_def)
qed simp

lemma read_head_ok:
  assumes c: "cache p s {} Map.empty" and d: "log_dev s = ROOTDEV"
    and m: "m = nat (sint (load32 (blk s (log_start s)) 0))" "m \<le> length (lh_block s)"
  shows "\<exists>t. read_head s = Ret () t \<and> cache p t {} Map.empty \<and> blk t = blk s \<and> disk t = disk s \<and> dhist t = dhist s
    \<and> io_frame (s\<lparr>lh_n := load32 (blk s (log_start s)) 0,
         lh_block := map (\<lambda>i. load32 (blk s (log_start s)) (4 + 4 * i)) [0..<m] @ drop m (lh_block s)\<rparr>) t"
proof -
  let ?a = "log_start s" and ?d = "blk s (log_start s)"
  let ?upd = "\<lambda>t. t\<lparr>lh_n := load32 ?d 0, lh_block := map (\<lambda>i. load32 ?d (4 + 4 * i)) [0..<m] @ drop m (lh_block s)\<rparr>"
  obtain i t where t: "bread ROOTDEV ?a s = Ret i t" "cache p t {} [i \<mapsto> ?a]" "blk t = blk s" "disk t = disk s"
      "dhist t = dhist s" "bio_frame s t"
    using bc.rd_ok [OF c, of ?a] by (auto simp: NBUF_def MAXOPBLOCKS_def)
  note f = io_frame_fields [OF bio_io_frame [OF t(6)]]
  have hi: "[i \<mapsto> ?a] i = Some ?a" by simp
  have g: "get_data i t = Ret ?d t" using bc.get_ok [OF t(2) hi] t(3) by simp
  have cu: "cache p (?upd t) {} [i \<mapsto> ?a]" using t(2) by simp
  have "?a \<in> {} \<or> blk (?upd t) ?a = disk (?upd t) ?a" using bc.unheld [OF c] t(3,4) by simp
  from bc.rel_ok [OF cu hi this] obtain w where w: "brelse i (?upd t) = Ret () w" "cache p w {} ([i \<mapsto> ?a](i := None))"
      "blk w = blk (?upd t)" "disk w = disk (?upd t)" "dhist w = dhist (?upd t)" "bio_frame (?upd t) w"
    by (elim exE conjE) (rule that)
  have "read_head s = Ret () w"
    using t(1) g w(1) d f m read_head_loop [of m "t\<lparr>lh_n := load32 ?d 0\<rparr>" "\<lambda>i. load32 ?d (4 + 4 * i)"]
    by (simp add: read_head_def)
  moreover have "io_frame (?upd s) w"
  proof -
    have "bio_frame (?upd s) (?upd t)"
    proof -
      have "t = s\<lparr>disk := disk t, dhist := dhist t, bufs := bufs t, slocks := slocks t\<rparr>" using t(6) by (simp add: bio_frame_def)
      from arg_cong [OF this, of ?upd] show ?thesis by (simp add: bio_frame_def)
    qed
    then show ?thesis using w(6) bio_frame_trans bio_io_frame by blast
  qed
  moreover have "[i \<mapsto> ?a](i := None) = Map.empty" by auto
  ultimately show ?thesis using t w by (intro exI [of _ w]) (simp add: fun_upd_same del: fun_upd_apply)
qed

section \<open>Commit and recovery\<close>

definition log_area :: "'z log_st_scheme \<Rightarrow> u32 set" where
  "log_area s = insert (log_start s) (logblk s ` {..<LOGBLOCKS})"

text \<open>A transaction of \<open>n\<close> blocks is in the log, in memory, and may be committed.\<close>

definition log_ready :: "nat \<Rightarrow> 'z log_st_scheme \<Rightarrow> nat \<Rightarrow> bool" where
  "log_ready p s n \<longleftrightarrow> cache p s (set (take n (lh_block s))) Map.empty \<and> lh_n s = of_nat n \<and> n < NBUF
     \<and> length (lh_block s) = LOGBLOCKS \<and> distinct (take n (lh_block s)) \<and> set (take n (lh_block s)) \<inter> log_area s = {}
     \<and> log_dev s = ROOTDEV \<and> can_print s"

text \<open>The disk writes of a commit.\<close>

definition commit_writes :: "'z log_st_scheme \<Rightarrow> nat \<Rightarrow> (u32 \<times> block) list" where
  "commit_writes s n =
     (let h = header (of_nat n) (lh_block s) (blk s (log_start s)) in
      log_writes s n @ [(log_start s, h)] @ map (\<lambda>k. (lh_block s ! k, blk s (lh_block s ! k))) [0..<n]
        @ [(log_start s, header 0 (lh_block s) h)])"

lemma of_nat_small: "n < 100 \<Longrightarrow> nat (sint (of_nat n :: u32)) = n"
proof -
  assume n: "n < 100"
  then have "unat (of_nat n :: u32) = n" by (simp add: unat_of_nat)
  then have "uint (of_nat n :: u32) = int n" by (simp add: uint_nat)
  then show ?thesis using n by (simp add: sint_u32)
qed

lemma of_nat_inj_small: "j < 100 \<Longrightarrow> k < 100 \<Longrightarrow> (of_nat j :: u32) = of_nat k \<longleftrightarrow> j = k"
  by (metis of_nat_small)

lemma logblk_inj: "j < LOGBLOCKS \<Longrightarrow> k < LOGBLOCKS \<Longrightarrow> logblk s j = logblk s k \<longleftrightarrow> j = k"
  using of_nat_inj_small [of j k] by (simp add: logblk_def LOGBLOCKS_def MAXOPBLOCKS_def)

lemma logblk_start: "k < LOGBLOCKS \<Longrightarrow> logblk s k \<noteq> log_start s"
proof
  assume k: "k < LOGBLOCKS" and "logblk s k = log_start s"
  then have "of_nat (Suc k) = (of_nat 0 :: u32)" by (simp add: logblk_def add.assoc add.commute)
  then show False using of_nat_inj_small [of "Suc k" 0] k by (simp add: LOGBLOCKS_def MAXOPBLOCKS_def)
qed

lemma take_nth_set: "k < n \<Longrightarrow> n \<le> length xs \<Longrightarrow> xs ! k \<in> set (take n xs)"
  using nth_mem [of k "take n xs"] by simp

lemma NBUF_LOGBLOCKS: "NBUF = 30" "LOGBLOCKS = 30"
  by (simp_all add: NBUF_def LOGBLOCKS_def MAXOPBLOCKS_def)

lemma log_ready_facts:
  assumes "log_ready p s n"
  shows "nat (sint (lh_n s)) = n" "n \<le> length (lh_block s)" "\<And>k. k < n \<Longrightarrow> lh_block s ! k \<notin> log_area s"
    "\<And>k j. k < n \<Longrightarrow> j < n \<Longrightarrow> logblk s k \<noteq> lh_block s ! j" "card (set (take n (lh_block s))) < NBUF"
    "\<And>k. k < n \<Longrightarrow> logblk s k \<notin> set (take n (lh_block s))" "log_start s \<notin> set (take n (lh_block s))"
proof -
  have n: "n < 30" "length (lh_block s) = 30" "set (take n (lh_block s)) \<inter> log_area s = {}" "distinct (take n (lh_block s))" "lh_n s = of_nat n"
    using assms by (auto simp: log_ready_def NBUF_LOGBLOCKS)
  show "nat (sint (lh_n s)) = n" using n by (simp add: of_nat_small)
  show l: "n \<le> length (lh_block s)" using n by simp
  show out: "lh_block s ! k \<notin> log_area s" if "k < n" for k using take_nth_set [OF that l] n(3) by blast
  have la: "logblk s k \<in> log_area s" if "k < n" for k using that n(1) by (auto simp: log_area_def NBUF_LOGBLOCKS)
  show "logblk s k \<noteq> lh_block s ! j" if "k < n" "j < n" for k j using out [OF that(2)] la [OF that(1)] by auto
  show "card (set (take n (lh_block s))) < NBUF" using n by (simp add: distinct_card NBUF_LOGBLOCKS)
  show "logblk s k \<notin> set (take n (lh_block s))" if "k < n" for k using la [OF that] n(3) by blast
  show "log_start s \<notin> set (take n (lh_block s))" using n(3) by (auto simp: log_area_def)
qed

lemma writes_keys:
  "fst ` set (log_writes s n) = logblk s ` {..<n}" "fst ` set (home_writes s n) = (\<lambda>k. lh_block s ! k) ` {..<n}"
  by (auto simp: log_writes_def home_writes_def image_image lessThan_atLeast0)

lemma start_unlogged: "n \<le> LOGBLOCKS \<Longrightarrow> log_start s \<notin> fst ` set (log_writes s n)"
  unfolding writes_keys using logblk_start [of _ s] by (metis imageE lessThan_iff less_le_trans)

lemma log_writes_data:
  assumes "k < n" and "n \<le> LOGBLOCKS"
  shows "apply_writes (log_writes s n) d (logblk s k) = blk s (lh_block s ! k)"
proof (rule apply_writes_same)
  show "distinct (map fst (log_writes s n))"
    using assms(2) logblk_inj [of _ _ s] by (auto simp: log_writes_def distinct_map inj_on_def)
  show "(logblk s k, blk s (lh_block s ! k)) \<in> set (log_writes s n)" using assms(1) by (auto simp: log_writes_def)
qed

lemma io_frame_lh: "io_frame s t \<Longrightarrow> io_frame (s\<lparr>lh_n := x\<rparr>) (t\<lparr>lh_n := x\<rparr>)"
proof -
  assume "io_frame s t"
  from arg_cong [OF this [unfolded io_frame_eq], of "\<lambda>u. u\<lparr>lh_n := x\<rparr>"] show ?thesis by (simp add: io_frame_eq)
qed

lemma commit_ok:
  assumes r: "log_ready p s n" and n: "0 < n"
  shows "\<exists>t. commit s = Ret () t \<and> cache p t {} Map.empty \<and> blk t = apply_writes (commit_writes s n) (blk s)
    \<and> disk t = apply_writes (commit_writes s n) (disk s) \<and> dhist t = dhist s @ commit_writes s n
    \<and> io_frame (s\<lparr>lh_n := 0\<rparr>) t"
proof -
  note f = log_ready_facts [OF r]
  let ?L = "set (take n (lh_block s))"
  have c: "cache p s ?L Map.empty" "log_dev s = ROOTDEV" "can_print s" "distinct (take n (lh_block s))" "n < 30"
      "length (lh_block s) = LOGBLOCKS" "lh_n s = of_nat n"
    using r by (auto simp: log_ready_def NBUF_LOGBLOCKS)
  obtain t where t: "kfor write_log_one [0..<n] s = Ret () t" "cache p t ?L Map.empty" "blk t = apply_writes (log_writes s n) (blk s)"
      "disk t = apply_writes (log_writes s n) (disk s)" "dhist t = dhist s @ log_writes s n" "io_frame s t"
    using write_log_loop [OF c(1,2) f(5,2)] f(6) take_nth_set [OF _ f(2)] by auto
  note ft = io_frame_fields [OF t(6)]
  obtain u where u: "write_head t = Ret () u" "cache p u ?L Map.empty"
      "blk u = (blk t)(log_start t := header (lh_n t) (lh_block t) (blk t (log_start t)))"
      "disk u = (disk t)(log_start t := header (lh_n t) (lh_block t) (blk t (log_start t)))"
      "dhist u = dhist t @ [(log_start t, header (lh_n t) (lh_block t) (blk t (log_start t)))]" "io_frame t u"
    using write_head_ok [OF t(2)] ft f c by auto
  note fu = io_frame_fields [OF u(6)]
  have lb: "logblk u k = logblk s k" for k using ft fu by (simp add: logblk_def)
  have prem: "(False \<or> lh_block u ! k \<in> ?L) \<and> logblk u k \<notin> ?L \<and> (\<forall>j < n. logblk u k \<noteq> lh_block u ! j)" if "k < n" for k
    using that ft fu lb f(4,6) take_nth_set [OF that f(2)] by simp
  have pu: "can_print u" using c(3) ft fu by (simp add: can_print_def)
  obtain v where v: "kfor (install_one False) [0..<n] u = Ret () v" "cache p v (?L - set (take n (lh_block u))) Map.empty"
      "blk v = apply_writes (home_writes u n) (blk u)" "disk v = apply_writes (home_writes u n) (disk u)"
      "dhist v = dhist u @ home_writes u n" "io_frame u v"
    using install_loop [OF u(2) _ pu _ _ prem] ft fu f(2,5) c by auto
  note fv = io_frame_fields [OF v(6)]
  let ?v = "v\<lparr>lh_n := 0\<rparr>"
  have cv: "cache p ?v {} Map.empty" using v(2) ft fu by simp
  obtain w where w: "write_head ?v = Ret () w" "cache p w {} Map.empty"
      "blk w = (blk v)(log_start v := header 0 (lh_block v) (blk v (log_start v)))"
      "disk w = (disk v)(log_start v := header 0 (lh_block v) (blk v (log_start v)))"
      "dhist w = dhist v @ [(log_start v, header 0 (lh_block v) (blk v (log_start v)))]" "io_frame ?v w"
    using write_head_ok [OF cv] c ft fu fv by (auto simp: NBUF_LOGBLOCKS)
  have "commit s = Ret () w"
    using n f(1) t(1) u(1) v(1) w(1) ft fu by (simp add: commit_def write_log_def install_trans_def)
  moreover have cw: "commit_writes s n = log_writes s n
      @ [(log_start t, header (lh_n t) (lh_block t) (blk t (log_start t)))] @ home_writes u n
      @ [(log_start v, header 0 (lh_block v) (blk v (log_start v)))]"
  proof -
    have 1: "blk t (log_start s) = blk s (log_start s)"
      unfolding t(3) using start_unlogged [of n s] c(5) by (intro apply_writes_other) (simp add: NBUF_LOGBLOCKS)
    have 2: "blk u (logblk s k) = blk s (lh_block s ! k)" if "k < n" for k
      using log_writes_data [OF that, of s "blk s"] that t(3) u(3) ft c(5) logblk_start [of k s] by (simp add: NBUF_LOGBLOCKS)
    have 3: "blk v (log_start s) = header (of_nat n) (lh_block s) (blk s (log_start s))"
    proof -
      have "log_start s \<noteq> lh_block u ! k" if "k < n" for k using f(3) [OF that] ft fu by (auto simp: log_area_def)
      then have "log_start s \<notin> fst ` set (home_writes u n)" unfolding writes_keys by auto
      then have "blk v (log_start s) = blk u (log_start s)" unfolding v(3) by (rule apply_writes_other)
      then show ?thesis using u(3) ft 1 c(7) by simp
    qed
    have "home_writes u n = map (\<lambda>k. (lh_block s ! k, blk s (lh_block s ! k))) [0..<n]"
      using 2 lb ft fu by (simp add: home_writes_def)
    then show ?thesis using 1 3 ft fu fv c(7) by (simp add: commit_writes_def Let_def)
  qed
  moreover have "io_frame (s\<lparr>lh_n := 0\<rparr>) w"
  proof -
    have "io_frame s v" using t(6) u(6) v(6) io_frame_trans by blast
    then have "io_frame (s\<lparr>lh_n := 0\<rparr>) (v\<lparr>lh_n := 0\<rparr>)" by (rule io_frame_lh)
    then show ?thesis using w(6) io_frame_trans by blast
  qed
  moreover have "blk w = apply_writes (commit_writes s n) (blk s)" "disk w = apply_writes (commit_writes s n) (disk s)"
    unfolding cw apply_writes_append by (simp_all add: w(3,4) v(3,4) u(3,4) t(3,4) del: fun_upd_apply)
  moreover have "dhist w = dhist s @ commit_writes s n" unfolding cw by (simp add: w(5) v(5) u(5) t(5))
  ultimately show ?thesis using w(2) by blast
qed

definition logged :: "block \<Rightarrow> u32 list" where
  "logged d = map (\<lambda>i. load32 d (4 + 4 * i)) [0..<nat (sint (load32 d 0))]"

lemma logged_header:
  "n \<le> length bs \<Longrightarrow> n < 100 \<Longrightarrow> logged (header (of_nat n) bs d) = take n bs"
  by (rule nth_equalityI) (simp_all add: logged_def header_load of_nat_small)

lemma logged_empty: "load32 d 0 = 0 \<Longrightarrow> logged d = []"
  by (simp add: logged_def)

lemma recover_ok:
  assumes c: "cache p r {} Map.empty" and d: "log_dev r = ROOTDEV" and pr: "can_print r"
    and len: "length (lh_block r) = LOGBLOCKS" and L: "L = logged (disk r (log_start r))" "length L \<le> LOGBLOCKS"
    and dist: "distinct L" and out: "set L \<inter> log_area r = {}"
  shows "\<exists>t. recover_from_log r = Ret () t \<and> cache p t {} Map.empty \<and> lh_n t = 0 \<and> load32 (disk t (log_start r)) 0 = 0
    \<and> (\<forall>b. b \<noteq> log_start r \<longrightarrow>
         disk t b = apply_writes (map (\<lambda>k. (L ! k, disk r (logblk r k))) [0..<length L]) (disk r) b)"
proof -
  let ?d = "blk r (log_start r)" and ?m = "length L"
  have bd: "blk r b = disk r b" for b using bc.unheld [OF c] by simp
  have m: "?m = nat (sint (load32 ?d 0))" using L bd by (simp add: logged_def)
  let ?r = "r\<lparr>lh_n := load32 ?d 0, lh_block := map (\<lambda>i. load32 ?d (4 + 4 * i)) [0..<?m] @ drop ?m (lh_block r)\<rparr>"
  obtain t where t: "read_head r = Ret () t" "cache p t {} Map.empty" "blk t = blk r" "disk t = disk r" "dhist t = dhist r"
      "io_frame ?r t"
    using read_head_ok [OF c d m] L(2) len by auto
  note ft = io_frame_fields [OF t(6)]
  have lb: "logblk t k = logblk r k" for k using ft by (simp add: logblk_def)
  have "map (\<lambda>i. load32 ?d (4 + 4 * i)) [0..<?m] = L" using L bd m by (simp add: logged_def)
  then have lh: "lh_block t = L @ drop ?m (lh_block r)" "log_start t = log_start r" "nat (sint (lh_n t)) = ?m" "log_dev t = ROOTDEV"
    using ft m d by simp_all
  have nth: "lh_block t ! k = L ! k" if "k < ?m" for k using lh that by (simp add: nth_append)
  have la: "logblk r k \<noteq> L ! j" if "k < ?m" "j < ?m" for k j
  proof -
    have "logblk r k \<in> log_area r" using that(1) L(2) by (auto simp: log_area_def)
    then show ?thesis using nth_mem [OF that(2)] out by auto
  qed
  have prem: "(True \<or> lh_block t ! k \<in> {}) \<and> logblk t k \<notin> {} \<and> (\<forall>j < ?m. logblk t k \<noteq> lh_block t ! j)" if "k < ?m" for k
    using la [OF that] nth lb by simp
  have pt: "can_print t" using pr ft by (simp add: can_print_def)
  obtain u where u: "kfor (install_one True) [0..<?m] t = Ret () u" "cache p u {} Map.empty"
      "blk u = apply_writes (home_writes t ?m) (blk t)" "disk u = apply_writes (home_writes t ?m) (disk t)" "io_frame t u"
    using install_loop [OF t(2) lh(4) pt _ _ prem] lh dist by (auto simp: NBUF_LOGBLOCKS)
  note fu = io_frame_fields [OF u(5)]
  let ?u = "u\<lparr>lh_n := 0\<rparr>"
  have cu: "cache p ?u {} Map.empty" using u(2) by simp
  obtain w where w: "write_head ?u = Ret () w" "cache p w {} Map.empty"
      "disk w = (disk u)(log_start u := header 0 (lh_block u) (blk u (log_start u)))" "io_frame ?u w"
    using write_head_ok [OF cu] fu lh by (auto simp: NBUF_LOGBLOCKS)
  have "recover_from_log r = Ret () w"
    using t(1) u(1) w(1) lh by (simp add: recover_from_log_def install_trans_def)
  moreover have "home_writes t ?m = map (\<lambda>k. (L ! k, disk r (logblk r k))) [0..<?m]"
    using nth lb t(3) bd by (simp add: home_writes_def)
  moreover have "load32 (disk w (log_start r)) 0 = 0" using w(3) fu lh(2) by (simp add: header_load)
  ultimately show ?thesis using w u t(4) fu lh(2) io_frame_fields(3) [OF w(4)] by auto
qed

section \<open>Crashes\<close>

text \<open>
  The state after a crash: the disk has the given content; memory is that of a
  kernel that has just run \<open>binit\<close> and set \<open>log.start\<close> and \<open>log.dev\<close>.
\<close>

definition rebooted :: "nat \<Rightarrow> 'z log_st_scheme \<Rightarrow> 'z log_st_scheme \<Rightarrow> bool" where
  "rebooted p s r \<longleftrightarrow> cache p r {} Map.empty \<and> log_start r = log_start s \<and> log_dev r = ROOTDEV
     \<and> length (lh_block r) = LOGBLOCKS \<and> can_print r"

lemma rebooted_logblk: "rebooted p s r \<Longrightarrow> logblk r k = logblk s k \<and> log_area r = log_area s"
  by (simp add: rebooted_def logblk_def log_area_def)

lemma recover_empty:
  assumes r: "rebooted p s r" and "load32 (disk r (log_start s)) 0 = 0"
  shows "\<exists>t. recover_from_log r = Ret () t \<and> lh_n t = 0 \<and> load32 (disk t (log_start s)) 0 = 0
    \<and> (\<forall>b. b \<noteq> log_start s \<longrightarrow> disk t b = disk r b)"
proof -
  have "logged (disk r (log_start r)) = []" using assms by (simp add: logged_empty rebooted_def)
  then show ?thesis using recover_ok [of p r "[]"] r by (auto simp: rebooted_def)
qed

lemma recover_full:
  assumes r: "rebooted p s r" and s: "log_ready p0 s n"
    and hd: "disk r (log_start s) = header (of_nat n) (lh_block s) d"
    and lg: "\<And>k. k < n \<Longrightarrow> disk r (logblk s k) = blk s (lh_block s ! k)"
  shows "\<exists>t. recover_from_log r = Ret () t \<and> lh_n t = 0 \<and> load32 (disk t (log_start s)) 0 = 0
    \<and> (\<forall>b. b \<noteq> log_start s \<longrightarrow> disk t b = (if b \<in> set (take n (lh_block s)) then blk s b else disk r b))"
proof -
  let ?L = "take n (lh_block s)"
  have n: "n < 30" "length (lh_block s) = 30" "distinct ?L" "set ?L \<inter> log_area s = {}"
    using s by (auto simp: log_ready_def NBUF_LOGBLOCKS)
  have rr: "cache p r {} Map.empty" "log_start r = log_start s" "log_dev r = ROOTDEV" "length (lh_block r) = LOGBLOCKS" "can_print r"
    using r by (simp_all add: rebooted_def)
  have lb: "logblk r k = logblk s k" "log_area r = log_area s" for k using rebooted_logblk [OF r] by auto
  have L: "?L = logged (disk r (log_start r))" using hd rr(2) n by (simp add: logged_header)
  have len: "length ?L = n" using n by simp
  let ?ws = "map (\<lambda>k. (?L ! k, disk r (logblk r k))) [0..<n]"
  have ws: "?ws = map (\<lambda>k. (?L ! k, blk s (?L ! k))) [0..<n]" using lg lb by simp
  have "map (\<lambda>k. ?L ! k) [0..<n] = ?L" using len map_nth [of ?L] by simp
  then have fst_ws: "map fst ?ws = ?L" by (simp add: o_def)
  obtain t where t: "recover_from_log r = Ret () t" "lh_n t = 0" "load32 (disk t (log_start s)) 0 = 0"
      "\<forall>b. b \<noteq> log_start s \<longrightarrow> disk t b = apply_writes ?ws (disk r) b"
    using recover_ok [OF rr(1,3,5,4) L _ n(3)] n(4) lb rr(2) len n(1) by (auto simp: NBUF_LOGBLOCKS)
  have "apply_writes ?ws (disk r) b = (if b \<in> set ?L then blk s b else disk r b)" for b
  proof (cases "b \<in> set ?L")
    case True
    then obtain k where "k < n" "?L ! k = b" using len by (metis in_set_conv_nth)
    then have "(b, blk s b) \<in> set ?ws" unfolding ws by auto
    then show ?thesis using apply_writes_same [of ?ws b "blk s b"] fst_ws n(3) True by simp
  next
    case False
    then have "b \<notin> fst ` set ?ws" using fst_ws by (metis list.set_map)
    then show ?thesis using False by (simp add: apply_writes_other)
  qed
  then show ?thesis using t by auto
qed

text \<open>The disk after a prefix of the writes of a commit.\<close>

definition install_writes :: "'z log_st_scheme \<Rightarrow> nat \<Rightarrow> (u32 \<times> block) list" where
  "install_writes s n = map (\<lambda>k. (lh_block s ! k, blk s (lh_block s ! k))) [0..<n]"

lemma install_writes_take:
  "apply_writes (take j (install_writes s n)) d b = (if b \<in> fst ` set (take j (install_writes s n)) then blk s b else d b)"
proof -
  have "\<forall>w \<in> set ws. snd w = blk s (fst w) \<Longrightarrow>
      apply_writes ws d b = (if b \<in> fst ` set ws then blk s b else d b)" for ws d
    by (induction ws arbitrary: d) (force split: if_splits)+
  moreover have "\<forall>w \<in> set (take j (install_writes s n)). snd w = blk s (fst w)"
    by (auto simp: install_writes_def dest!: in_set_takeD)
  ultimately show ?thesis by blast
qed

lemma install_keys: "n \<le> length (lh_block s) \<Longrightarrow> fst ` set (install_writes s n) = set (take n (lh_block s))"
  by (simp add: install_writes_def image_image nth_image)

lemma commit_writes_split:
  "commit_writes s n = log_writes s n @ (log_start s, header (of_nat n) (lh_block s) (blk s (log_start s))) # install_writes s n
     @ [(log_start s, header 0 (lh_block s) (header (of_nat n) (lh_block s) (blk s (log_start s))))]"
  by (simp add: commit_writes_def install_writes_def Let_def)

lemma writes_length [simp]: "length (log_writes s n) = n" "length (install_writes s n) = n"
  by (simp_all add: log_writes_def install_writes_def)

lemma crash_early:
  assumes s: "log_ready p s n" and k: "k \<le> n" and b: "b \<notin> log_area s \<or> b = log_start s"
  shows "apply_writes (take k (commit_writes s n)) d b = d b"
proof (rule apply_writes_other)
  have n: "n < 30" using s by (simp add: log_ready_def NBUF_LOGBLOCKS)
  have "take k (commit_writes s n) = take k (log_writes s n)" using k by (simp add: commit_writes_split)
  then have "fst ` set (take k (commit_writes s n)) \<subseteq> logblk s ` {..<n}"
    using set_take_subset [of k "log_writes s n"] writes_keys(1) [of s n] by auto
  moreover have "b \<noteq> logblk s j" if "j < n" for j
    using b that n logblk_start [of j s] by (auto simp: log_area_def NBUF_LOGBLOCKS)
  ultimately show "b \<notin> fst ` set (take k (commit_writes s n))" by fastforce
qed

lemma crash_late:
  assumes s: "log_ready p s n" and k: "n < k" "k \<le> 2 * n + 1"
  fixes d :: "u32 \<Rightarrow> block"
  defines "D \<equiv> apply_writes (take k (commit_writes s n)) d"
  shows "D (log_start s) = header (of_nat n) (lh_block s) (blk s (log_start s))"
    and "\<And>j. j < n \<Longrightarrow> D (logblk s j) = blk s (lh_block s ! j)"
    and "\<And>b. b \<notin> log_area s \<Longrightarrow> b \<notin> set (take n (lh_block s)) \<Longrightarrow> D b = d b"
proof -
  note f = log_ready_facts [OF s]
  have n: "n < 30" using s by (simp add: log_ready_def NBUF_LOGBLOCKS)
  let ?h = "header (of_nat n) (lh_block s) (blk s (log_start s))" and ?j = "k - n - 1"
  have tk: "take k (commit_writes s n) = log_writes s n @ (log_start s, ?h) # take ?j (install_writes s n)"
    using k by (simp add: commit_writes_split take_Cons')
  have keys: "fst ` set (take ?j (install_writes s n)) \<subseteq> set (take n (lh_block s))"
    using set_take_subset [of ?j "install_writes s n"] install_keys [OF f(2)] by auto
  have D: "D b = (if b \<in> fst ` set (take ?j (install_writes s n)) then blk s b
      else if b = log_start s then ?h else apply_writes (log_writes s n) d b)" for b
    unfolding D_def tk apply_writes_append by (simp add: install_writes_take)
  show "D (log_start s) = ?h" using f(7) keys by (auto simp: D)
  show "D (logblk s j) = blk s (lh_block s ! j)" if "j < n" for j
    using f(6) [OF that] keys logblk_start [of j s] log_writes_data [OF that, of s d] that n by (auto simp: D NBUF_LOGBLOCKS)
  show "D b = d b" if b: "b \<notin> log_area s" "b \<notin> set (take n (lh_block s))" for b
  proof -
    have "b \<noteq> logblk s j" if "j < n" for j using b(1) that n by (auto simp: log_area_def NBUF_LOGBLOCKS)
    then have "apply_writes (log_writes s n) d b = d b" by (intro apply_writes_other) (auto simp: writes_keys)
    then show ?thesis using b keys by (auto simp: D log_area_def)
  qed
qed

lemma crash_done:
  assumes s: "log_ready p s n"
  fixes d :: "u32 \<Rightarrow> block"
  defines "D \<equiv> apply_writes (commit_writes s n) d"
  shows "load32 (D (log_start s)) 0 = 0"
    and "\<And>b. b \<notin> log_area s \<Longrightarrow> D b = (if b \<in> set (take n (lh_block s)) then blk s b else d b)"
proof -
  note f = log_ready_facts [OF s]
  let ?h = "header (of_nat n) (lh_block s) (blk s (log_start s))"
  have split: "commit_writes s n = take (2 * n + 1) (commit_writes s n) @ [(log_start s, header 0 (lh_block s) ?h)]"
    by (simp add: commit_writes_split take_Cons')
  have D: "D = (apply_writes (take (2 * n + 1) (commit_writes s n)) d)(log_start s := header 0 (lh_block s) ?h)"
    unfolding D_def by (subst split) (simp only: apply_writes_simps)
  show "load32 (D (log_start s)) 0 = 0" by (simp add: D header_load)
  show "D b = (if b \<in> set (take n (lh_block s)) then blk s b else d b)" if b: "b \<notin> log_area s" for b
  proof (cases "b \<in> set (take n (lh_block s))")
    case True
    have "take (2 * n + 1) (commit_writes s n) = (log_writes s n @ [(log_start s, ?h)]) @ take n (install_writes s n)"
      by (simp add: commit_writes_split take_Cons')
    moreover have "b \<in> fst ` set (take n (install_writes s n))" using True install_keys [OF f(2)] by simp
    ultimately have "apply_writes (take (2 * n + 1) (commit_writes s n)) d b = blk s b"
      by (simp only: apply_writes_append install_writes_take) simp
    then show ?thesis using b True by (auto simp: D log_area_def)
  next
    case False
    then show ?thesis using crash_late(3) [OF s _ _ b, of "2 * n + 1"] b by (auto simp: D log_area_def)
  qed
qed

text \<open>C17: A commit is atomic: when the machine stops after any number \<open>k\<close> of the
  disk writes that \<open>commit\<close> does and the kernel boots on what is then on the disk,
  recovery returns with an empty log, and every block outside the log has the
  content it had on the disk before the transaction, or every block has the content
  the transaction gave it, according to whether the header had been written.\<close>

theorem commit_atomic:
  assumes "log_ready p s n" and "0 < n" and "load32 (disk s (log_start s)) 0 = 0"
    and "rebooted q s r" and "disk r = apply_writes (take k (commit_writes s n)) (disk s)"
  shows "(\<exists>u. commit s = Ret () u \<and> dhist u = dhist s @ commit_writes s n \<and> disk u = apply_writes (commit_writes s n) (disk s))
    \<and> (\<exists>t. recover_from_log r = Ret () t \<and> lh_n t = 0 \<and> load32 (disk t (log_start s)) 0 = 0
        \<and> (\<forall>b. b \<notin> log_area s \<longrightarrow> disk t b = (if k \<le> n then disk s b else blk s b)))"
proof
  show "\<exists>u. commit s = Ret () u \<and> dhist u = dhist s @ commit_writes s n \<and> disk u = apply_writes (commit_writes s n) (disk s)"
    using commit_ok [OF assms(1,2)] by auto
  let ?L = "set (take n (lh_block s))"
  have st: "b \<notin> log_area s \<Longrightarrow> b \<noteq> log_start s" for b by (auto simp: log_area_def)
  have un: "b \<notin> ?L \<Longrightarrow> disk s b = blk s b" for b
    using assms(1) bc.unheld [of p s ?L Map.empty b] by (simp add: log_ready_def)
  consider (early) "k \<le> n" | (late) "n < k" "k \<le> 2 * n + 1" | (fin) "2 * n + 2 \<le> k" by linarith
  then show "\<exists>t. recover_from_log r = Ret () t \<and> lh_n t = 0 \<and> load32 (disk t (log_start s)) 0 = 0
      \<and> (\<forall>b. b \<notin> log_area s \<longrightarrow> disk t b = (if k \<le> n then disk s b else blk s b))"
  proof cases
    case early
    have e: "b \<notin> log_area s \<or> b = log_start s \<Longrightarrow> disk r b = disk s b" for b
      unfolding assms(5) by (rule crash_early [OF assms(1) early])
    show ?thesis using recover_empty [OF assms(4)] e assms(3) st early by auto
  next
    case late
    note l = crash_late [OF assms(1) late, where d = "disk s", folded assms(5)]
    show ?thesis using recover_full [OF assms(4,1) l(1,2)] l(3) un st late(1) by auto
  next
    case fin
    then have "take k (commit_writes s n) = commit_writes s n" by (simp add: commit_writes_split)
    note d = crash_done [OF assms(1), where d = "disk s", folded assms(5) [unfolded this]]
    show ?thesis using recover_empty [OF assms(4) d(1)] d(2) un st fin by auto
  qed
qed

section \<open>Writing within a transaction\<close>

text \<open>A system call is running: \<open>n\<close> blocks are in the log, their buffers pinned, and \<open>h\<close> gives the locked buffers.\<close>

definition in_op :: "nat \<Rightarrow> 'z log_st_scheme \<Rightarrow> nat \<Rightarrow> (nat \<Rightarrow> u32 option) \<Rightarrow> bool" where
  "in_op p s n h \<longleftrightarrow> cache p s (set (take n (lh_block s))) h \<and> lh_n s = of_nat n \<and> n \<le> LOGBLOCKS
     \<and> length (lh_block s) = LOGBLOCKS \<and> distinct (take n (lh_block s)) \<and> 0 < sint (log_outstanding s)
     \<and> LogLock \<notin> set (locks s)"

definition log_frame :: "'z log_st_scheme \<Rightarrow> 'z log_st_scheme \<Rightarrow> bool" where
  "log_frame s t \<longleftrightarrow> t = s\<lparr>disk := disk t, dhist := dhist t, bufs := bufs t, slocks := slocks t, lh_n := lh_n t, lh_block := lh_block t\<rparr>"

lemma log_frame_refl: "log_frame s s"
  by (simp add: log_frame_def)

lemma log_frame_trans: "log_frame s t \<Longrightarrow> log_frame t u \<Longrightarrow> log_frame s u"
proof -
  assume t: "log_frame s t" and u: "log_frame t u"
  let ?upd = "\<lambda>x. x\<lparr>disk := disk u, dhist := dhist u, bufs := bufs u, slocks := slocks u, lh_n := lh_n u, lh_block := lh_block u\<rparr>"
  have "u = ?upd t" using u by (simp only: log_frame_def)
  also have "\<dots> = ?upd (s\<lparr>disk := disk t, dhist := dhist t, bufs := bufs t, slocks := slocks t, lh_n := lh_n t, lh_block := lh_block t\<rparr>)"
    using t unfolding log_frame_def by (rule arg_cong)
  finally show ?thesis by (simp add: log_frame_def)
qed

lemma bio_log_frame: "bio_frame s t \<Longrightarrow> log_frame s t"
proof -
  assume "bio_frame s t"
  then have t: "t = s\<lparr>disk := disk t, dhist := dhist t, bufs := bufs t, slocks := slocks t\<rparr>" by (simp add: bio_frame_def)
  from arg_cong [OF t, of lh_n] arg_cong [OF t, of lh_block] have "lh_n t = lh_n s" "lh_block t = lh_block s" by simp_all
  then show ?thesis using t by (simp add: log_frame_def)
qed

lemma log_frame_fields:
  assumes "log_frame s t"
  shows "log_start t = log_start s" "log_dev t = log_dev s" "log_outstanding t = log_outstanding s"
    "log_committing t = log_committing s" "locks t = locks s" "panicked t = panicked s" "curproc t = curproc s" "procs t = procs s"
    "uart_out t = uart_out s" "log_st.more t = log_st.more s"
proof -
  note e = assms [unfolded log_frame_def]
  show "log_start t = log_start s" "log_dev t = log_dev s" "log_outstanding t = log_outstanding s"
    "log_committing t = log_committing s" "locks t = locks s" "panicked t = panicked s" "curproc t = curproc s" "procs t = procs s"
    "uart_out t = uart_out s" "log_st.more t = log_st.more s"
    using arg_cong [OF e, of log_start] arg_cong [OF e, of log_dev] arg_cong [OF e, of log_outstanding]
      arg_cong [OF e, of log_committing] arg_cong [OF e, of locks] arg_cong [OF e, of panicked] arg_cong [OF e, of curproc]
      arg_cong [OF e, of procs] arg_cong [OF e, of uart_out] arg_cong [OF e, of log_st.more]
    by simp_all
qed

lemma lh_index_le: "lh_index b bs n \<le> n"
  using length_takeWhile_le [of _ "[0..<n]"] by (simp add: lh_index_def)

lemma lh_index_hit: "lh_index b bs n < n \<Longrightarrow> bs ! lh_index b bs n = b"
  using nth_length_takeWhile [of "\<lambda>i. bs ! i \<noteq> b" "[0..<n]"] by (simp add: lh_index_def)

lemma lh_index_miss: "n \<le> length bs \<Longrightarrow> lh_index b bs n = n \<longleftrightarrow> b \<notin> set (take n bs)"
proof -
  assume n: "n \<le> length bs"
  have "lh_index b bs n = n \<longleftrightarrow> (\<forall>i < n. bs ! i \<noteq> b)"
    unfolding lh_index_def using takeWhile_eq_all_conv [of "\<lambda>i. bs ! i \<noteq> b" "[0..<n]"]
    by (metis (no_types, lifting) atLeastLessThan_iff atLeastLessThan_upt diff_zero length_upt less_eq_nat.simps(1) list.size(3)
        same_length_different set_takeWhileD takeWhile_eq_take take_all_iff order_refl)
  then show ?thesis using n by (simp add: nth_image [symmetric] image_iff) (metis atLeastLessThan_iff zero_le)
qed

lemma cache_loglock [simp]: "cache p (s\<lparr>locks := LogLock # locks s\<rparr>) B h = cache p s B h"
  by (simp add: cache_def bio_inv_def bio_ctx_def no_plocks_def)

lemma unlock_frame:
  assumes "bio_frame (s\<lparr>locks := l # locks s\<rparr>) t"
  shows "bio_frame s (t\<lparr>locks := locks s\<rparr>)" "locks t = l # locks s"
proof -
  note e = assms [unfolded bio_frame_def]
  show "bio_frame s (t\<lparr>locks := locks s\<rparr>)" using arg_cong [OF e, of "\<lambda>u. u\<lparr>locks := locks s\<rparr>"] by (simp add: bio_frame_def)
  show "locks t = l # locks s" using arg_cong [OF e, of locks] by simp
qed

lemma sint_small: "n \<le> LOGBLOCKS \<Longrightarrow> sint (of_nat n :: u32) = int n"
proof -
  assume n: "n \<le> LOGBLOCKS"
  then have "unat (of_nat n :: u32) = n" by (simp add: unat_of_nat NBUF_LOGBLOCKS)
  then have "uint (of_nat n :: u32) = int n" by (simp add: uint_nat)
  then show ?thesis using n by (simp add: sint_u32 NBUF_LOGBLOCKS)
qed

lemma log_write_ok:
  assumes o: "in_op p s n h" and i: "h i = Some b" and n: "n < LOGBLOCKS"
  shows "\<exists>t m. log_write i s = Ret () t \<and> in_op p t m h \<and> set (take m (lh_block t)) = insert b (set (take n (lh_block s)))
    \<and> n \<le> m \<and> m \<le> Suc n \<and> blk t = blk s \<and> disk t = disk s \<and> dhist t = dhist s \<and> log_frame s t"
proof -
  let ?L = "set (take n (lh_block s))" and ?s = "s\<lparr>locks := LogLock # locks s\<rparr>"
  have f: "cache p s ?L h" "lh_n s = of_nat n" "length (lh_block s) = LOGBLOCKS" "distinct (take n (lh_block s))"
      "0 < sint (log_outstanding s)" "LogLock \<notin> set (locks s)" "sint (lh_n s) = int n"
    using o n by (auto simp: in_op_def sint_small)
  have no: "b_blockno (bufs s ! i) = b" using f(1) i by (auto simp: cache_def)
  let ?i = "lh_index b (lh_block s) n"
  have le: "?i \<le> n" by (rule lh_index_le)
  have len: "n \<le> length (lh_block s)" using f(3) n by simp
  show ?thesis
  proof (cases "?i = n")
    case False
    then have "?i < n" using le by simp
    then have "(lh_block s)[?i := b] = lh_block s" using lh_index_hit [of b "lh_block s" n] list_update_id by metis
    then have "log_write i s = Ret () s"
      unfolding log_write_def using f n no False le len \<open>?i < n\<close>
      by (subst critical_Ret [where t = ?s and x = "()"]) (simp_all add: lh_set_def Let_def kret_def)
    moreover have "b \<in> ?L" using False lh_index_miss [OF len, of b] by simp
    ultimately show ?thesis using o log_frame_refl [of s] by (intro exI [of _ s] exI [of _ n]) (simp add: insert_absorb)
  next
    case True
    then have b: "b \<notin> ?L" using lh_index_miss [OF len, of b] by simp
    let ?lh = "(lh_block s)[n := b]"
    let ?s1 = "s\<lparr>lh_block := ?lh\<rparr>"
    have "cache p (?s1\<lparr>locks := LogLock # locks ?s1\<rparr>) ?L h" using f(1) unfolding cache_loglock by simp
    from bc.pin_ok [OF this i b] obtain u where u: "bpin i (?s1\<lparr>locks := LogLock # locks ?s1\<rparr>) = Ret () u"
        "cache p u (insert b ?L) h" "blk u = blk (?s1\<lparr>locks := LogLock # locks ?s1\<rparr>)"
        "disk u = disk s" "dhist u = dhist s" "bio_frame (?s1\<lparr>locks := LogLock # locks ?s1\<rparr>) u"
      by (elim exE conjE) (rule that; simp)
    note fr = unlock_frame [OF u(6)]
    have "s\<lparr>locks := LogLock # locks s, lh_block := ?lh\<rparr> = ?s1\<lparr>locks := LogLock # locks ?s1\<rparr>" by simp
    then have u1: "bpin i (s\<lparr>locks := LogLock # locks s, lh_block := ?lh\<rparr>) = Ret () u" using u(1) by (simp only:)
    let ?t = "u\<lparr>locks := locks s, lh_n := lh_n s + 1\<rparr>"
    have nn: "bio_frame ?s1 (u\<lparr>locks := locks s\<rparr>)" using fr(1) by simp
    note g = io_frame_fields [OF bio_io_frame [OF nn]]
    have "log_write i s = Ret () ?t"
      unfolding log_write_def using f n no True len u1 fr(2) g
      by (subst critical_Ret [where t = "u\<lparr>lh_n := lh_n s + 1\<rparr>" and x = "()"])
        (simp_all add: lh_set_def Let_def kput_def)
    moreover have tk: "take (Suc n) ?lh = take n (lh_block s) @ [b]"
      using n f(3) by (simp add: take_Suc_conv_app_nth)
    moreover have "cache p ?t (insert b ?L) h"
    proof -
      have "u = u\<lparr>locks := LogLock # locks (u\<lparr>locks := locks s\<rparr>)\<rparr>" using fr(2) by simp
      then have "cache p (u\<lparr>locks := locks s\<rparr>) (insert b ?L) h"
        using u(2) cache_loglock [of p "u\<lparr>locks := locks s\<rparr>"] by simp
      then show ?thesis by (simp only: cache_lh)
    qed
    moreover have "log_frame s ?t"
    proof -
      have "u\<lparr>locks := locks s\<rparr> = s\<lparr>lh_block := ?lh, disk := disk u, dhist := dhist u, bufs := bufs u, slocks := slocks u\<rparr>"
        using nn by (simp add: bio_frame_def)
      from arg_cong [OF this, of "\<lambda>x. x\<lparr>lh_n := lh_n s + 1\<rparr>"] show ?thesis using g by (simp add: log_frame_def)
    qed
    moreover have "blk ?t = blk s" using u(3) by simp
    ultimately show ?thesis
      using f n g u(4,5) b by (intro exI [of _ ?t] exI [of _ "Suc n"]) (simp add: in_op_def add.commute)
  qed
qed

section \<open>An example\<close>

definition ex_log :: "(u32 \<Rightarrow> block) \<Rightarrow> log_st" where
  "ex_log d = bio_st.extend (ex_bio\<lparr>disk := d\<rparr>)
     \<lparr>log_start = 2, log_outstanding = 1, log_committing = False, log_dev = ROOTDEV, lh_n = 0,
      lh_block = replicate LOGBLOCKS 0\<rparr>"

lemma ex_log_init:
  "\<exists>t. binit (ex_log d) = Ret () t \<and> cache 0 (t\<lparr>curproc := Some 0\<rparr>) {} Map.empty \<and> disk t = d
     \<and> t = (ex_log d)\<lparr>bufs := bufs t, slocks := slocks t\<rparr>"
proof (rule binit_ok [of "ex_log d" 0])
  show "bio_ctx 0 ((ex_log d)\<lparr>curproc := Some 0\<rparr>)"
    by (simp add: bio_ctx_def ex_log_def ex_bio_def ex_procs_def zero_proc_def no_plocks_def bio_st.defs)
  show "b_dev (bufs (ex_log d) ! i) = 0 \<and> b_refcnt (bufs (ex_log d) ! i) = 0" if "i < NBUF" for i
    using that by (simp add: ex_log_def ex_bio_def zero_buf_def nth_Cons bio_st.defs split: nat.split)
  show "length (bufs (ex_log d)) = Suc NBUF" "NBUF \<le> length (slocks (ex_log d))" by (simp_all add: ex_log_def ex_bio_def bio_st.defs)
  fix t assume t: "binit (ex_log d) = Ret () t" "bio_inv 0 (t\<lparr>curproc := Some 0\<rparr>) {} {} (rev [0..<NBUF])"
    "t = (ex_log d)\<lparr>bufs := bufs t, slocks := slocks t\<rparr>"
  have "cache 0 (t\<lparr>curproc := Some 0\<rparr>) {} Map.empty"
    by (rule cacheI [where P = "{}" and xs = "rev [0..<NBUF]"]) (use t(2) in \<open>simp_all add: pblocks_def\<close>)
  moreover have "disk t = d" using arg_cong [OF t(3), of disk] by (simp add: ex_log_def bio_st.defs)
  ultimately show ?thesis using t by blast
qed

lemma ex_log_boot:
  obtains e :: log_st where "cache 0 e {} Map.empty" "disk e = d" "log_start e = 2" "log_dev e = ROOTDEV" "log_outstanding e = 1"
    "lh_n e = 0" "length (lh_block e) = LOGBLOCKS" "can_print e" "locks e = []"
proof -
  obtain t where t: "cache 0 (t\<lparr>curproc := Some 0\<rparr>) {} Map.empty" "disk t = d" "t = (ex_log d)\<lparr>bufs := bufs t, slocks := slocks t\<rparr>"
    using ex_log_init by blast
  have "log_start t = 2" "log_dev t = ROOTDEV" "log_outstanding t = 1" "lh_n t = 0" "length (lh_block t) = LOGBLOCKS" "locks t = []"
      "panicked t = False"
    using arg_cong [OF t(3), of log_start] arg_cong [OF t(3), of log_dev] arg_cong [OF t(3), of log_outstanding]
      arg_cong [OF t(3), of lh_n] arg_cong [OF t(3), of lh_block] arg_cong [OF t(3), of locks] arg_cong [OF t(3), of panicked]
    by (simp_all add: ex_log_def ex_bio_def bio_st.defs)
  then show ?thesis using that [of "t\<lparr>curproc := Some 0\<rparr>"] t(1,2) by (simp add: can_print_def)
qed

text \<open>A transaction that sets every byte of block 100 to 42.\<close>

lemma ex_log_ready:
  obtains s :: log_st where "log_ready 0 s 1" "disk s = (\<lambda>_ _. 0)" "log_start s = 2" "blk s 100 = (\<lambda>_. 42)"
proof -
  obtain e :: log_st where e: "cache 0 e {} Map.empty" "disk e = (\<lambda>_ _. 0)" "log_start e = 2" "log_dev e = ROOTDEV"
      "log_outstanding e = 1" "lh_n e = 0" "length (lh_block e) = LOGBLOCKS" "can_print e" "locks e = []"
    by (rule ex_log_boot)
  let ?b = "100 :: u32"
  obtain i t where t: "bread ROOTDEV ?b e = Ret i t" "cache 0 t {} [i \<mapsto> ?b]" "blk t = blk e" "disk t = disk e" "bio_frame e t"
    using bc.rd_ok [OF e(1), of ?b] by (auto simp: NBUF_LOGBLOCKS)
  have i: "[i \<mapsto> ?b] i = Some ?b" by simp
  from bc.put_ok [OF t(2) i, of "\<lambda>_. 42"] obtain u where u: "set_data i (\<lambda>_. 42) t = Ret () u" "cache 0 u {} [i \<mapsto> ?b]"
      "blk u = (blk t)(?b := \<lambda>_. 42)" "disk u = disk t" "bio_frame t u" by (elim exE conjE)
  have fu: "io_frame e u" using t(5) u(5) bio_frame_trans bio_io_frame by blast
  note f = io_frame_fields [OF fu]
  have "in_op 0 u 0 [i \<mapsto> ?b]" using u(2) f e by (simp add: in_op_def)
  from log_write_ok [OF this i] obtain v m where v: "in_op 0 v m [i \<mapsto> ?b]" "set (take m (lh_block v)) = {?b}" "m \<le> Suc 0"
      "blk v = blk u" "disk v = disk u" "log_frame u v"
    by (auto simp: NBUF_LOGBLOCKS simp del: fun_upd_apply)
  have "m \<noteq> 0" using v(2) by (cases m) auto
  then have m: "m = 1" using v(3) by simp
  have g: "log_start v = 2" "log_dev v = ROOTDEV" "panicked v = panicked e" "locks v = locks e"
    using log_frame_fields [OF v(6)] f e by simp_all
  have c: "cache 0 v {?b} [i \<mapsto> ?b]" using v(1,2) by (simp add: in_op_def)
  from bc.rel_ok [OF c i] obtain w where w: "brelse i v = Ret () w" "cache 0 w {?b} ([i \<mapsto> ?b](i := None))" "blk w = blk v"
      "disk w = disk v" "bio_frame v w" by (auto simp del: fun_upd_apply)
  note h = io_frame_fields [OF bio_io_frame [OF w(5)]]
  have "[i \<mapsto> ?b](i := None) = Map.empty" by auto
  moreover have "?b \<notin> log_area w" using h g by (auto simp: log_area_def logblk_def NBUF_LOGBLOCKS lessThan_nat_numeral lessThan_Suc)
  ultimately have "log_ready 0 w 1"
    using v(1,2) m w(2) h g e(8) by (simp add: log_ready_def in_op_def can_print_def NBUF_LOGBLOCKS)
  then show ?thesis using that [of w] w v u t e h g by simp
qed

theorem commit_atomic_witness:
  "\<exists>(s :: log_st) (r :: log_st) t. log_ready 0 s 1 \<and> disk s 100 = (\<lambda>_. 0)
     \<and> disk r = apply_writes (take 2 (commit_writes s 1)) (disk s) \<and> disk r 100 = (\<lambda>_. 0)
     \<and> recover_from_log r = Ret () t \<and> disk t 100 = (\<lambda>_. 42)"
proof -
  obtain s :: log_st where s: "log_ready 0 s 1" "disk s = (\<lambda>_ _. 0)" "log_start s = 2" "blk s 100 = (\<lambda>_. 42)"
    by (rule ex_log_ready)
  let ?d = "apply_writes (take 2 (commit_writes s 1)) (disk s)"
  obtain r :: log_st where r: "cache 0 r {} Map.empty" "disk r = ?d" "log_start r = 2" "log_dev r = ROOTDEV"
      "length (lh_block r) = LOGBLOCKS" "can_print r" by (rule ex_log_boot)
  have "rebooted 0 s r" using r s by (simp add: rebooted_def)
  moreover have "(100 :: u32) \<notin> log_area s"
    using s(3) by (auto simp: log_area_def logblk_def NBUF_LOGBLOCKS lessThan_nat_numeral lessThan_Suc)
  moreover have "load32 (disk s (log_start s)) 0 = 0" by (simp add: s(2) load32_def load16_def)
  ultimately obtain t where t: "recover_from_log r = Ret () t" "disk t 100 = (\<lambda>_. 42)"
    using commit_atomic [of 0 s 1 0 r 2] s r(2) by auto
  have "disk r 100 = (\<lambda>_. 0)"
    unfolding r(2) using s by (simp add: commit_writes_split log_writes_def logblk_def)
  then show ?thesis using s t r(2) by (intro exI [of _ s] exI [of _ r] exI [of _ t]) simp
qed

end
