(* ===== verification/Trans.thy ===== *)
theory Trans
  imports Log
begin

text \<open>
  The interface of the log as the file system uses it: inside a transaction the
  blocks of the disk can be read and rewritten, and nothing of it reaches the disk
  before the commit.  The locale \<open>transaction\<close> states the contract of \<open>bread\<close>,
  \<open>log_write\<close> and \<open>brelse\<close> in terms of blocks; its lemmas are the two idioms in
  which all of fs.c uses them, reading a block and rewriting a block.  It is
  interpreted on the operations of bio.c and log.c.
\<close>

section \<open>The contract\<close>

locale transaction =
  fixes rd :: "u32 \<Rightarrow> 's \<Rightarrow> (nat, 's) outcome"
    and get :: "nat \<Rightarrow> 's \<Rightarrow> (block, 's) outcome"
    and put :: "nat \<Rightarrow> block \<Rightarrow> 's \<Rightarrow> (unit, 's) outcome"
    and lw :: "nat \<Rightarrow> 's \<Rightarrow> (unit, 's) outcome"
    and rel :: "nat \<Rightarrow> 's \<Rightarrow> (unit, 's) outcome"
    and inv :: "'s \<Rightarrow> (nat \<Rightarrow> u32 option) \<Rightarrow> bool"
    and view :: "'s \<Rightarrow> u32 \<Rightarrow> block" and dsk :: "'s \<Rightarrow> u32 \<Rightarrow> block"
    and logd :: "'s \<Rightarrow> u32 set" and area :: "'s \<Rightarrow> u32 set"
    and frame :: "'s \<Rightarrow> 's \<Rightarrow> bool" and nbuf :: nat and nlog :: nat
  assumes frame_trans: "frame s t \<Longrightarrow> frame t u \<Longrightarrow> frame s u"
    and frame_area: "frame s t \<Longrightarrow> area t = area s \<and> dsk t = dsk s"
    and rd_ok: "inv s h \<Longrightarrow> b \<notin> ran h \<Longrightarrow> card (logd s \<union> ran h) < nbuf \<or> b \<in> logd s \<Longrightarrow>
      \<exists>i t. rd b s = Ret i t \<and> inv t (h(i \<mapsto> b)) \<and> i \<notin> dom h \<and> view t = view s \<and> logd t = logd s \<and> frame s t"
    and get_ok: "inv s h \<Longrightarrow> h i = Some b \<Longrightarrow> get i s = Ret (view s b) s"
    and put_ok: "inv s h \<Longrightarrow> h i = Some b \<Longrightarrow>
      \<exists>t. put i d s = Ret () t \<and> inv t h \<and> view t = (view s)(b := d) \<and> logd t = logd s \<and> frame s t"
    and lw_ok: "inv s h \<Longrightarrow> h i = Some b \<Longrightarrow> b \<notin> area s \<Longrightarrow> card (logd s) < nlog \<Longrightarrow>
      \<exists>t. lw i s = Ret () t \<and> inv t h \<and> view t = view s \<and> logd t = insert b (logd s) \<and> frame s t"
    and rel_ok: "inv s h \<Longrightarrow> h i = Some b \<Longrightarrow> b \<in> logd s \<or> view s b = dsk s b \<Longrightarrow>
      \<exists>t. rel i s = Ret () t \<and> inv t (h(i := None)) \<and> view t = view s \<and> logd t = logd s \<and> frame s t"
    and unheld: "inv s h \<Longrightarrow> b \<notin> logd s \<Longrightarrow> b \<notin> ran h \<Longrightarrow> view s b = dsk s b"
begin

text \<open>A block has been read; it can be given back at once or rewritten first.\<close>

lemma opened:
  assumes i: "inv s h" "b \<notin> ran h" "card (logd s \<union> ran h) < nbuf \<or> b \<in> logd s"
  obtains i t where "rd b s = Ret i t" "inv t (h(i \<mapsto> b))" "i \<notin> dom h" "get i t = Ret (view s b) t" "view t = view s"
    "logd t = logd s" "frame s t" "b \<in> logd s \<or> view s b = dsk s b" "(h(i \<mapsto> b)) i = Some b" "(h(i \<mapsto> b))(i := None) = h"
proof -
  obtain i t where t: "rd b s = Ret i t" "inv t (h(i \<mapsto> b))" "i \<notin> dom h" "view t = view s" "logd t = logd s" "frame s t"
    using rd_ok [OF assms] by (elim exE conjE)
  have "get i t = Ret (view s b) t" using get_ok [OF t(2), of i b] t(4) by simp
  moreover have "b \<in> logd s \<or> view s b = dsk s b" using unheld [OF i(1) _ i(2)] by blast
  moreover have "(h(i \<mapsto> b))(i := None) = h" using t(3) by (auto simp: fun_eq_iff)
  ultimately show ?thesis using that [OF t(1,2,3) _ t(4-6)] by simp
qed

lemma closed:
  assumes t: "inv t (h(i \<mapsto> b))" "i \<notin> dom h" and cl: "b \<in> logd t \<or> view t b = dsk t b"
  obtains u where "rel i t = Ret () u" "inv u h" "view u = view t" "logd u = logd t" "frame t u"
proof -
  have "(h(i \<mapsto> b))(i := None) = h" using t(2) by (auto simp: fun_eq_iff)
  moreover have "(h(i \<mapsto> b)) i = Some b" by simp
  ultimately show ?thesis using rel_ok [OF t(1) _ cl] that by metis
qed

lemma written:
  assumes t: "inv t (h(i \<mapsto> b))" "b \<notin> area t" "card (logd t) < nlog"
  obtains u v where "put i d t = Ret () u" "lw i u = Ret () v" "inv v (h(i \<mapsto> b))" "view v = (view t)(b := d)"
    "logd v = insert b (logd t)" "frame t v"
proof -
  have h: "(h(i \<mapsto> b)) i = Some b" by simp
  obtain u where u: "put i d t = Ret () u" "inv u (h(i \<mapsto> b))" "view u = (view t)(b := d)" "logd u = logd t" "frame t u"
    using put_ok [OF t(1) h, of d] by (elim exE conjE)
  have "b \<notin> area u" "card (logd u) < nlog" using t u frame_area by auto
  from lw_ok [OF u(2) h this] obtain v where v: "lw i u = Ret () v" "inv v (h(i \<mapsto> b))" "view v = view u"
      "logd v = insert b (logd u)" "frame u v" by (elim exE conjE)
  show ?thesis by (rule that [OF u(1) v(1,2)]) (use u v frame_trans in auto)
qed

text \<open>Reading: \<open>bp = bread(b); ... bp->data ...; brelse(bp)\<close>.\<close>

lemma reading:
  assumes i: "inv s h" "b \<notin> ran h" "card (logd s \<union> ran h) < nbuf \<or> b \<in> logd s"
  obtains i t u where "rd b s = Ret i t" "get i t = Ret (view s b) t" "frame s t" "rel i t = Ret () u" "inv u h" "view u = view s"
    "logd u = logd s" "frame s u"
proof (rule opened [OF assms])
  fix i t assume t: "rd b s = Ret i t" "inv t (h(i \<mapsto> b))" "i \<notin> dom h" "get i t = Ret (view s b) t" "view t = view s"
    "logd t = logd s" "frame s t" "b \<in> logd s \<or> view s b = dsk s b"
  have "b \<in> logd t \<or> view t b = dsk t b" using t frame_area by auto
  from closed [OF t(2,3) this] obtain u where "rel i t = Ret () u" "inv u h" "view u = view t" "logd u = logd t" "frame t u" .
  then show ?thesis using that [of i t u] t frame_trans by auto
qed

text \<open>Rewriting: \<open>bp = bread(b); ... bp->data = ...; log_write(bp); brelse(bp)\<close>.\<close>

lemma rewriting:
  assumes i: "inv s h" "b \<notin> ran h" "card (logd s \<union> ran h) < nbuf \<or> b \<in> logd s" and b: "b \<notin> area s" "card (logd s) < nlog"
  obtains i t u v w where "rd b s = Ret i t" "get i t = Ret (view s b) t" "frame s t" "put i (f (view s b)) t = Ret () u"
    "lw i u = Ret () v" "rel i v = Ret () w" "inv w h" "view w = (view s)(b := f (view s b))" "logd w = insert b (logd s)" "frame s w"
proof (rule opened [OF i])
  fix i t assume t: "rd b s = Ret i t" "inv t (h(i \<mapsto> b))" "i \<notin> dom h" "get i t = Ret (view s b) t" "view t = view s"
    "logd t = logd s" "frame s t" "b \<in> logd s \<or> view s b = dsk s b"
  have "b \<notin> area t" "card (logd t) < nlog" using b t frame_area by auto
  from written [OF t(2) this] obtain u v where v: "put i (f (view s b)) t = Ret () u" "lw i u = Ret () v" "inv v (h(i \<mapsto> b))"
      "view v = (view t)(b := f (view s b))" "logd v = insert b (logd t)" "frame t v" .
  then have "b \<in> logd v \<or> view v b = dsk v b" by simp
  from closed [OF v(3) t(3) this] obtain w where "rel i v = Ret () w" "inv w h" "view w = view v" "logd w = logd v" "frame v w" .
  then show ?thesis using that [of i t u v w] t v frame_trans by metis
qed

end

section \<open>The locks of the inodes\<close>

text \<open>The operations on buffers leave the sleep locks of the inodes alone.\<close>

lemma drop_update: "k < n \<Longrightarrow> drop n (xs[k := x]) = drop n xs"
  by (simp add: drop_update_swap [symmetric] drop_update_cancel)

lemma critical_slocks:
  "critical l m s = Ret x t \<Longrightarrow> \<exists>u. m (s\<lparr>locks := l # locks s\<rparr>) = Ret x u \<and> slocks t = slocks u"
  by (auto simp: critical_def kthen_Ret_iff kbind_Ret_iff kacquire_def krelease_def kret_def split: if_splits)

lemma acquiresleep_slocks: "acquiresleep k s = Ret () t \<Longrightarrow> \<exists>l. slocks t = (slocks s)[k := l]"
  by (auto simp: acquiresleep_def kthen_Ret_iff kbind_Ret_iff kacquire_def krelease_def kput_def myproc_def sleep_def sched_def
      split: if_splits option.splits)

lemma bread_slocks:
  assumes "bread d b s = Ret i t" and "i < NBUF"
  shows "drop NBUF (slocks t) = drop NBUF (slocks s)"
proof -
  obtain u where u: "bget d b s = Ret i u" "slocks t = slocks u"
    using assms(1) by (auto simp: bread_def kbind_Ret_iff kthen_Ret_iff disk_transfer_def kput_def kret_def Let_def split: if_splits)
  have "\<exists>l. slocks u = (slocks s)[i := l]"
    using u(1) by (auto simp: bget_def kbind_Ret_iff kthen_Ret_iff kacquire_def krelease_def kput_def kret_def
      split: if_splits option.splits dest!: acquiresleep_slocks)
  then show ?thesis using u(2) assms(2) by (auto simp: drop_update)
qed

lemma brelse_slocks:
  assumes "brelse i s = Ret () t" and "bio_ctx p s" and "i < NBUF"
  shows "drop NBUF (slocks t) = drop NBUF (slocks s)"
proof -
  let ?s = "upd_slock i (\<lambda>l. l\<lparr>sl_locked := False, sl_pid := 0\<rparr>) s"
  have "slocks t = slocks ?s"
    using assms(1) unfolding brelse_def
    by (auto simp: kbind_Ret_iff kthen_Ret_iff holdingsleep_eq [OF assms(2)] releasesleep_eq [OF assms(2)] kput_def kpanic_def
        link_head_def split: if_splits dest!: critical_slocks)
  then show ?thesis using assms(3) by (simp add: drop_update)
qed

lemma log_write_slocks: "log_write i s = Ret () t \<Longrightarrow> slocks t = slocks s"
  by (auto simp: log_write_def Let_def kbind_Ret_iff kthen_Ret_iff lh_set_def bpin_def kput_def kret_def
      split: if_splits dest!: critical_slocks)

section \<open>Transactions\<close>

text \<open>The blocks that the running transaction has written.\<close>

definition logset :: "'z log_st_scheme \<Rightarrow> u32 set" where
  "logset s = set (take (nat (sint (lh_n s))) (lh_block s))"

text \<open>
  Process \<open>p\<close> is inside a system call, holds no spin lock, and has locked the
  buffers that \<open>h\<close> maps to their blocks.
\<close>

definition op :: "nat \<Rightarrow> 'z log_st_scheme \<Rightarrow> (nat \<Rightarrow> u32 option) \<Rightarrow> bool" where
  "op p s h \<longleftrightarrow> (\<exists>n. in_op p s n h) \<and> logset s \<inter> log_area s = {} \<and> locks s = [] \<and> \<not> panicked s \<and> log_dev s = ROOTDEV"

text \<open>Nothing but the cache and the log has changed, and nothing has reached the disk.\<close>

definition same :: "'z log_st_scheme \<Rightarrow> 'z log_st_scheme \<Rightarrow> bool" where
  "same s t \<longleftrightarrow> log_frame s t \<and> disk t = disk s \<and> dhist t = dhist s \<and> drop NBUF (slocks t) = drop NBUF (slocks s)"

lemma same_refl [simp]: "same s s"
  by (simp add: same_def log_frame_refl)

lemma same_trans: "same s t \<Longrightarrow> same t u \<Longrightarrow> same s u"
  by (auto simp: same_def intro: log_frame_trans)

lemma same_area: "same s t \<Longrightarrow> log_area t = log_area s \<and> disk t = disk s"
  using log_frame_fields(1) [of s t] by (simp add: same_def log_area_def logblk_def)

lemma in_op_logset: "in_op p s n h \<Longrightarrow> set (take n (lh_block s)) = logset s \<and> card (logset s) = n"
  by (auto simp: in_op_def logset_def sint_small distinct_card)

lemma op_keep:
  assumes "op p s h" and "same s t" and "in_op p t n g" and "logset t \<inter> log_area s = {}"
  shows "op p t g"
  using assms same_area [OF assms(2)] log_frame_fields [of s t] by (auto simp: op_def same_def)

lemma op_bio:
  assumes o: "op p s h" and f: "bio_frame s t" "disk t = disk s" "dhist t = dhist s" "drop NBUF (slocks t) = drop NBUF (slocks s)"
    and c: "cache p t (logset s) g"
  shows "op p t g" "logset t = logset s" "same s t"
proof -
  note fr = io_frame_fields [OF bio_io_frame [OF f(1)]]
  obtain n where n: "in_op p s n h" using o by (auto simp: op_def)
  show l: "logset t = logset s" by (simp add: logset_def fr)
  show sm: "same s t" using f bio_log_frame by (simp add: same_def)
  have "in_op p t n g" using n c fr in_op_logset [OF n] by (simp add: in_op_def)
  then show "op p t g" using op_keep [OF o sm] l o by (simp add: op_def)
qed

lemma op_cache: "op p s h \<Longrightarrow> cache p s (logset s) h"
  using in_op_logset [of p s _ h] by (auto simp: op_def in_op_def)

lemma op_held: "op p s h \<Longrightarrow> h i = Some b \<Longrightarrow> i < NBUF \<and> bio_ctx p s"
  using op_cache [of p s h] by (auto simp: cache_def bio_inv_def users_ok_def)

lemma op_rd:
  assumes "op p s h" "b \<notin> ran h" "card (logset s \<union> ran h) < NBUF \<or> b \<in> logset s"
  shows "\<exists>i t. bread ROOTDEV b s = Ret i t \<and> op p t (h(i \<mapsto> b)) \<and> i \<notin> dom h \<and> blk t = blk s \<and> logset t = logset s \<and> same s t"
proof -
  obtain i t where t: "bread ROOTDEV b s = Ret i t" "cache p t (logset s) (h(i \<mapsto> b))" "i \<notin> dom h" "blk t = blk s"
      "disk t = disk s" "dhist t = dhist s" "bio_frame s t"
    using bc.rd_ok [OF op_cache [OF assms(1)] assms(2,3)] by (elim exE conjE)
  have "i < NBUF" using t(2) by (auto simp: cache_def bio_inv_def users_ok_def)
  from bread_slocks [OF t(1) this] show ?thesis using op_bio [OF assms(1) t(7,5,6) _ t(2)] t by blast
qed

lemma op_put:
  assumes "op p s h" "h i = Some b"
  shows "\<exists>t. set_data i d s = Ret () t \<and> op p t h \<and> blk t = (blk s)(b := d) \<and> logset t = logset s \<and> same s t"
proof -
  obtain t where t: "set_data i d s = Ret () t" "cache p t (logset s) h" "blk t = (blk s)(b := d)" "disk t = disk s"
      "dhist t = dhist s" "bio_frame s t"
    using bc.put_ok [OF op_cache [OF assms(1)] assms(2), of d] by (elim exE conjE)
  have "slocks t = slocks s" using t(1) by (auto simp: set_data_def kput_def)
  then show ?thesis using op_bio [OF assms(1) t(6,4,5) _ t(2)] t by auto
qed

lemma op_rel:
  assumes "op p s h" "h i = Some b" "b \<in> logset s \<or> blk s b = disk s b"
  shows "\<exists>t. brelse i s = Ret () t \<and> op p t (h(i := None)) \<and> blk t = blk s \<and> logset t = logset s \<and> same s t"
proof -
  obtain t where t: "brelse i s = Ret () t" "cache p t (logset s) (h(i := None))" "blk t = blk s" "disk t = disk s"
      "dhist t = dhist s" "bio_frame s t"
    using bc.rel_ok [OF op_cache [OF assms(1)] assms(2,3)] by (elim exE conjE)
  have "drop NBUF (slocks t) = drop NBUF (slocks s)" using brelse_slocks [OF t(1)] op_held [OF assms(1,2)] by blast
  then show ?thesis using op_bio [OF assms(1) t(6,4,5) _ t(2)] t by blast
qed

lemma op_lw:
  assumes o: "op p s h" "h i = Some b" and b: "b \<notin> log_area s" "card (logset s) < LOGBLOCKS"
  shows "\<exists>t. log_write i s = Ret () t \<and> op p t h \<and> blk t = blk s \<and> logset t = insert b (logset s) \<and> same s t"
proof -
  obtain n where n: "in_op p s n h" using o by (auto simp: op_def)
  note ns = in_op_logset [OF n]
  obtain t m where t: "log_write i s = Ret () t" "in_op p t m h" "set (take m (lh_block t)) = insert b (set (take n (lh_block s)))"
      "blk t = blk s" "disk t = disk s" "dhist t = dhist s" "log_frame s t"
    using log_write_ok [OF n o(2)] b ns by auto
  have l: "logset t = insert b (logset s)" using t(3) ns in_op_logset [OF t(2)] by simp
  have sm: "same s t" using t log_write_slocks [OF t(1)] by (simp add: same_def)
  have "logset t \<inter> log_area s = {}" using l b o by (auto simp: op_def)
  then show ?thesis using op_keep [OF o(1) sm t(2)] t l sm by blast
qed

interpretation tx: transaction "bread ROOTDEV" get_data set_data log_write brelse "op p" blk disk logset log_area same NBUF LOGBLOCKS
  for p :: nat
proof (unfold_locales, goal_cases)
  case (1 s t u) then show ?case by (rule same_trans)
next
  case (2 s t) then show ?case by (rule same_area)
next
  case (3 s h b) then show ?case by (rule op_rd)
next
  case (4 s h i b) then show ?case using bc.get_ok [OF op_cache] by blast
next
  case (5 s h i b d) then show ?case by (rule op_put)
next
  case (6 s h i b) then show ?case by (rule op_lw)
next
  case (7 s h i b) then show ?case by (rule op_rel)
next
  case (8 s h b) then show ?case using bc.unheld [OF op_cache] by blast
qed

end
