(* ===== verification/Fs.thy ===== *)
theory Fs
  imports Trans Vm
begin

text \<open>
  kernel/fs.c: block allocation, inodes and their contents, directories and
  paths, and the on-disk format of kernel/fs.h.  An inode pointer is an index
  into \<open>itable\<close>; where the source allows a null pointer it is an option.  The
  sleep lock of inode \<open>i\<close> is entry \<open>NBUF + i\<close> of \<open>slocks\<close>.  Structures on the
  disk are read and written at the byte offsets the compiler gives them.  Block
  numbers, file offsets and sizes of the loops are natural numbers; the guards of
  the source exclude a wrap-around before each loop.
\<close>

section \<open>Data\<close>

definition FSMAGIC :: u32 where "FSMAGIC = 0x10203040"
definition ROOTINO :: u32 where "ROOTINO = 1"
definition NDIRECT :: nat where "NDIRECT = 12"
definition NINDIRECT :: nat where "NINDIRECT = BSIZE div 4"
definition MAXFILE :: nat where "MAXFILE = NDIRECT + NINDIRECT"
definition DIRSIZ :: nat where "DIRSIZ = 14"

definition T_DIR :: u16 where "T_DIR = 1"
definition T_FILE :: u16 where "T_FILE = 2"
definition T_DEVICE :: u16 where "T_DEVICE = 3"

record dinode =
  d_type :: u16
  d_major :: u16
  d_minor :: u16
  d_nlink :: u16
  d_size :: u32
  d_addrs :: "u32 list"

record inode =
  i_dev :: u32
  i_inum :: u32
  i_ref :: u32
  i_valid :: bool
  i_type :: u16
  i_major :: u16
  i_minor :: u16
  i_nlink :: u16
  i_size :: u32
  i_addrs :: "u32 list"

record dirent =
  de_inum :: u16
  de_name :: bytes

record stat =
  st_dev :: u32
  st_ino :: u32
  st_type :: u16
  st_nlink :: u16
  st_size :: u64

record fs_st = log_st +
  fs_sb :: superblock
  itable :: "inode list"

definition upd_inode :: "nat \<Rightarrow> (inode \<Rightarrow> inode) \<Rightarrow> 'z fs_st_scheme \<Rightarrow> 'z fs_st_scheme" where
  "upd_inode i f s = s\<lparr>itable := (itable s)[i := f (itable s ! i)]\<rparr>"

definition DINODE_SIZE :: nat where "DINODE_SIZE = 2 + 2 + 2 + 2 + 4 + 4 * (NDIRECT + 1)"
definition DIRENT_SIZE :: nat where "DIRENT_SIZE = 2 + DIRSIZ"
definition IPB :: nat where "IPB = BSIZE div DINODE_SIZE"
definition BPB :: nat where "BPB = BSIZE * 8"

definition IBLOCK :: "u32 \<Rightarrow> superblock \<Rightarrow> u32" where
  "IBLOCK i sb = of_nat (unat i div IPB) + sb_inodestart sb"

definition BBLOCK :: "nat \<Rightarrow> superblock \<Rightarrow> u32" where
  "BBLOCK b sb = of_nat (b div BPB) + sb_bmapstart sb"

text \<open>Structures in the bytes of a block.\<close>

definition dec_super :: "block \<Rightarrow> superblock" where
  "dec_super d = \<lparr>sb_magic = load32 d 0, sb_size = load32 d 4, sb_nblocks = load32 d 8, sb_ninodes = load32 d 12,
     sb_nlog = load32 d 16, sb_logstart = load32 d 20, sb_inodestart = load32 d 24, sb_bmapstart = load32 d 28\<rparr>"

definition dinode_off :: "u32 \<Rightarrow> nat" where
  "dinode_off inum = DINODE_SIZE * (unat inum mod IPB)"

definition get_dinode :: "nat \<Rightarrow> block \<Rightarrow> dinode" where
  "get_dinode o' d = \<lparr>d_type = load16 d o', d_major = load16 d (o' + 2), d_minor = load16 d (o' + 4), d_nlink = load16 d (o' + 6),
     d_size = load32 d (o' + 8), d_addrs = map (\<lambda>k. load32 d (o' + 12 + 4 * k)) [0..<NDIRECT + 1]\<rparr>"

definition put_dinode :: "nat \<Rightarrow> dinode \<Rightarrow> block \<Rightarrow> block" where
  "put_dinode o' di d =
     fold (\<lambda>k d. store32 d (o' + 12 + 4 * k) (d_addrs di ! k)) [0..<NDIRECT + 1]
       (store32 (store16 (store16 (store16 (store16 d o' (d_type di)) (o' + 2) (d_major di)) (o' + 4) (d_minor di))
          (o' + 6) (d_nlink di)) (o' + 8) (d_size di))"

definition dec_dirent :: "bytes \<Rightarrow> dirent" where
  "dec_dirent bs = \<lparr>de_inum = load16 (\<lambda>i. bs ! i) 0, de_name = drop 2 bs\<rparr>"

definition enc_dirent :: "dirent \<Rightarrow> bytes" where
  "enc_dirent de = ucast (de_inum de) # ucast (drop_bit 8 (de_inum de)) # de_name de"

section \<open>Blocks\<close>

definition readsb :: "u32 \<Rightarrow> 'z fs_st_scheme \<Rightarrow> (unit, 'z fs_st_scheme) outcome" where
  "readsb dev = kbind (bread dev 1) (\<lambda>bp. kbind (get_data bp) (\<lambda>d.
     kthen (kput (\<lambda>s. s\<lparr>fs_sb := dec_super d\<rparr>)) (brelse bp)))"

definition zero_block :: "block \<Rightarrow> block" where
  "zero_block d = (\<lambda>i. if i < BSIZE then 0 else d i)"

definition bzero :: "u32 \<Rightarrow> u32 \<Rightarrow> 'z fs_st_scheme \<Rightarrow> (unit, 'z fs_st_scheme) outcome" where
  "bzero dev bno = kbind (bread dev bno) (\<lambda>bp.
     kthen (kbind (get_data bp) (\<lambda>d. set_data bp (zero_block d))) (kthen (log_write bp) (brelse bp)))"

text \<open>The bit of a bitmap block, and the inner loop of \<open>balloc\<close>: the first clear bit below a bound.\<close>

definition bit_mask :: "nat \<Rightarrow> u8" where
  "bit_mask bi = push_bit (bi mod 8) 1"

definition bit_set :: "block \<Rightarrow> nat \<Rightarrow> bool" where
  "bit_set d bi \<longleftrightarrow> d (bi div 8) AND bit_mask bi \<noteq> 0"

definition free_bit :: "block \<Rightarrow> nat \<Rightarrow> nat option" where
  "free_bit d n = find (\<lambda>bi. \<not> bit_set d bi) [0..<n]"

definition mark_bit :: "nat \<Rightarrow> block \<Rightarrow> block" where
  "mark_bit bi d = d(bi div 8 := d (bi div 8) OR bit_mask bi)"

definition clear_bit :: "nat \<Rightarrow> block \<Rightarrow> block" where
  "clear_bit bi d = d(bi div 8 := d (bi div 8) AND NOT (bit_mask bi))"

text \<open>The outer loop, over the values of \<open>b\<close>.\<close>

primrec balloc_loop :: "u32 \<Rightarrow> nat list \<Rightarrow> 'z fs_st_scheme \<Rightarrow> (u32, 'z fs_st_scheme) outcome" where
  "balloc_loop dev [] = kthen (printf (''balloc: out of blocks'' @ [NL]) []) (kret 0)"
| "balloc_loop dev (b # bs) = (\<lambda>s.
     kbind (bread dev (BBLOCK b (fs_sb s))) (\<lambda>bp. kbind (get_data bp) (\<lambda>d.
       case free_bit d (min BPB (unat (sb_size (fs_sb s)) - b)) of
         Some bi \<Rightarrow>
           kthen (set_data bp (mark_bit bi d)) (kthen (log_write bp) (kthen (brelse bp)
             (kthen (bzero dev (of_nat (b + bi))) (kret (of_nat (b + bi))))))
       | None \<Rightarrow> kthen (brelse bp) (balloc_loop dev bs))) s)"

definition bitmap_starts :: "nat \<Rightarrow> nat list" where
  "bitmap_starts n = map (\<lambda>k. k * BPB) [0..<(n + BPB - 1) div BPB]"

definition balloc :: "u32 \<Rightarrow> 'z fs_st_scheme \<Rightarrow> (u32, 'z fs_st_scheme) outcome" where
  "balloc dev s = balloc_loop dev (bitmap_starts (unat (sb_size (fs_sb s)))) s"

definition bfree :: "u32 \<Rightarrow> u32 \<Rightarrow> 'z fs_st_scheme \<Rightarrow> (unit, 'z fs_st_scheme) outcome" where
  "bfree dev b s =
     (let bi = unat b mod BPB in
      kbind (bread dev (BBLOCK (unat b) (fs_sb s))) (\<lambda>bp. kbind (get_data bp) (\<lambda>d.
        if \<not> bit_set d bi then kpanic ''freeing free block''
        else kthen (set_data bp (clear_bit bi d)) (kthen (log_write bp) (brelse bp)))) s)"

section \<open>Inodes\<close>

definition inode_lock :: "nat \<Rightarrow> nat" where
  "inode_lock i = NBUF + i"

definition iinit :: "'z fs_st_scheme \<Rightarrow> (unit, 'z fs_st_scheme) outcome" where
  "iinit = kfor (\<lambda>i. initsleeplock (inode_lock i)) [0..<NINODE]"

definition iupdate :: "nat \<Rightarrow> 'z fs_st_scheme \<Rightarrow> (unit, 'z fs_st_scheme) outcome" where
  "iupdate i s =
     (let ip = itable s ! i;
          di = \<lparr>d_type = i_type ip, d_major = i_major ip, d_minor = i_minor ip, d_nlink = i_nlink ip, d_size = i_size ip,
                d_addrs = i_addrs ip\<rparr> in
      kbind (bread (i_dev ip) (IBLOCK (i_inum ip) (fs_sb s))) (\<lambda>bp. kbind (get_data bp) (\<lambda>d.
        kthen (set_data bp (put_dinode (dinode_off (i_inum ip)) di d)) (kthen (log_write bp) (brelse bp)))) s)"

text \<open>The loop of \<open>iget\<close>: the entry of the inode, else the first empty entry.\<close>

definition iget_match :: "u32 \<Rightarrow> u32 \<Rightarrow> inode list \<Rightarrow> nat option" where
  "iget_match dev inum tab =
     find (\<lambda>i. 0 < sint (i_ref (tab ! i)) \<and> i_dev (tab ! i) = dev \<and> i_inum (tab ! i) = inum) [0..<length tab]"

definition iget_empty :: "inode list \<Rightarrow> nat option" where
  "iget_empty tab = find (\<lambda>i. i_ref (tab ! i) = 0) [0..<length tab]"

definition iget :: "u32 \<Rightarrow> u32 \<Rightarrow> 'z fs_st_scheme \<Rightarrow> (nat, 'z fs_st_scheme) outcome" where
  "iget dev inum = critical ItableLock (\<lambda>s.
     case iget_match dev inum (itable s) of
       Some i \<Rightarrow> Ret i (upd_inode i (\<lambda>ip. ip\<lparr>i_ref := i_ref ip + 1\<rparr>) s)
     | None \<Rightarrow>
         (case iget_empty (itable s) of
            None \<Rightarrow> Panic ''iget: no inodes''
          | Some i \<Rightarrow> Ret i (upd_inode i (\<lambda>ip. ip\<lparr>i_dev := dev, i_inum := inum, i_ref := 1, i_valid := False\<rparr>) s)))"

definition new_dinode :: "u16 \<Rightarrow> dinode" where
  "new_dinode ty = \<lparr>d_type = ty, d_major = 0, d_minor = 0, d_nlink = 0, d_size = 0, d_addrs = replicate (NDIRECT + 1) 0\<rparr>"

primrec ialloc_loop :: "u32 \<Rightarrow> u16 \<Rightarrow> nat list \<Rightarrow> 'z fs_st_scheme \<Rightarrow> (nat option, 'z fs_st_scheme) outcome" where
  "ialloc_loop dev ty [] = kthen (printf (''ialloc: no inodes'' @ [NL]) []) (kret None)"
| "ialloc_loop dev ty (inum # inums) = (\<lambda>s.
     kbind (bread dev (IBLOCK (of_nat inum) (fs_sb s))) (\<lambda>bp. kbind (get_data bp) (\<lambda>d.
       let o' = dinode_off (of_nat inum) in
       if d_type (get_dinode o' d) = 0
       then kthen (set_data bp (put_dinode o' (new_dinode ty) d)) (kthen (log_write bp) (kthen (brelse bp)
              (kbind (iget dev (of_nat inum)) (\<lambda>i. kret (Some i)))))
       else kthen (brelse bp) (ialloc_loop dev ty inums))) s)"

definition ialloc :: "u32 \<Rightarrow> u16 \<Rightarrow> 'z fs_st_scheme \<Rightarrow> (nat option, 'z fs_st_scheme) outcome" where
  "ialloc dev ty s = ialloc_loop dev ty [1..<unat (sb_ninodes (fs_sb s))] s"

definition idup :: "nat \<Rightarrow> 'z fs_st_scheme \<Rightarrow> (nat, 'z fs_st_scheme) outcome" where
  "idup i = critical ItableLock (kthen (kput (upd_inode i (\<lambda>ip. ip\<lparr>i_ref := i_ref ip + 1\<rparr>))) (kret i))"

definition ilock :: "nat option \<Rightarrow> 'z fs_st_scheme \<Rightarrow> (unit, 'z fs_st_scheme) outcome" where
  "ilock p = (case p of None \<Rightarrow> kpanic ''ilock'' | Some i \<Rightarrow> \<lambda>s.
     if sint (i_ref (itable s ! i)) < 1 then Panic ''ilock''
     else kthen (acquiresleep (inode_lock i)) (\<lambda>s.
       let ip = itable s ! i in
       if i_valid ip then Ret () s
       else kbind (bread (i_dev ip) (IBLOCK (i_inum ip) (fs_sb s))) (\<lambda>bp. kbind (get_data bp) (\<lambda>d.
              let di = get_dinode (dinode_off (i_inum ip)) d in
              kthen (kput (upd_inode i (\<lambda>ip. ip\<lparr>i_type := d_type di, i_major := d_major di, i_minor := d_minor di,
                       i_nlink := d_nlink di, i_size := d_size di, i_addrs := d_addrs di\<rparr>)))
                (kthen (brelse bp)
                  (kthen (kput (upd_inode i (\<lambda>ip. ip\<lparr>i_valid := True\<rparr>)))
                    (if d_type di = 0 then kpanic ''ilock: no type'' else kret ()))))) s) s)"

definition iunlock :: "nat option \<Rightarrow> 'z fs_st_scheme \<Rightarrow> (unit, 'z fs_st_scheme) outcome" where
  "iunlock p = (case p of None \<Rightarrow> kpanic ''iunlock'' | Some i \<Rightarrow>
     kbind (holdingsleep (inode_lock i)) (\<lambda>h s.
       if \<not> h \<or> sint (i_ref (itable s ! i)) < 1 then Panic ''iunlock''
       else releasesleep (inode_lock i) s))"

section \<open>Contents of inodes\<close>

definition set_addr :: "nat \<Rightarrow> nat \<Rightarrow> u32 \<Rightarrow> 'z fs_st_scheme \<Rightarrow> (unit, 'z fs_st_scheme) outcome" where
  "set_addr i k a = kput (upd_inode i (\<lambda>ip. ip\<lparr>i_addrs := (i_addrs ip)[k := a]\<rparr>))"

text \<open>\<open>if((addr = ip->addrs[k]) == 0)\<close> allocate: the address, or 0 when the disk is full.\<close>

definition direct_addr :: "nat \<Rightarrow> nat \<Rightarrow> 'z fs_st_scheme \<Rightarrow> (u32, 'z fs_st_scheme) outcome" where
  "direct_addr i k s =
     (let ip = itable s ! i; addr = i_addrs ip ! k in
      if addr = 0
      then kbind (balloc (i_dev ip)) (\<lambda>addr. if addr = 0 then kret 0 else kthen (set_addr i k addr) (kret addr)) s
      else Ret addr s)"

definition bmap :: "nat \<Rightarrow> nat \<Rightarrow> 'z fs_st_scheme \<Rightarrow> (u32, 'z fs_st_scheme) outcome" where
  "bmap i bn =
     (if bn < NDIRECT then direct_addr i bn
      else let k = bn - NDIRECT in
        if k < NINDIRECT
        then kbind (direct_addr i NDIRECT) (\<lambda>addr s.
          if addr = 0 then Ret 0 s
          else let dev = i_dev (itable s ! i) in
            kbind (bread dev addr) (\<lambda>bp. kbind (get_data bp) (\<lambda>d.
              let a = load32 d (4 * k) in
              if a = 0
              then kbind (balloc dev) (\<lambda>a.
                     kthen (if a \<noteq> 0 then kthen (kbind (get_data bp) (\<lambda>d. set_data bp (store32 d (4 * k) a))) (log_write bp)
                            else kret ())
                       (kthen (brelse bp) (kret a)))
              else kthen (brelse bp) (kret a))) s)
        else kpanic ''bmap: out of range'')"

definition itrunc_direct :: "nat \<Rightarrow> nat \<Rightarrow> 'z fs_st_scheme \<Rightarrow> (unit, 'z fs_st_scheme) outcome" where
  "itrunc_direct i k s =
     (let ip = itable s ! i; addr = i_addrs ip ! k in
      if addr \<noteq> 0 then kthen (bfree (i_dev ip) addr) (set_addr i k 0) s else Ret () s)"

definition itrunc_indirect :: "nat \<Rightarrow> 'z fs_st_scheme \<Rightarrow> (unit, 'z fs_st_scheme) outcome" where
  "itrunc_indirect i s =
     (let ip = itable s ! i; dev = i_dev ip; addr = i_addrs ip ! NDIRECT in
      if addr \<noteq> 0
      then kthen (kbind (bread dev addr) (\<lambda>bp.
             kthen (kfor (\<lambda>j. kbind (get_data bp) (\<lambda>d.
                      let a = load32 d (4 * j) in if a \<noteq> 0 then bfree dev a else kret ())) [0..<NINDIRECT])
               (brelse bp)))
             (kthen (bfree dev addr) (set_addr i NDIRECT 0)) s
      else Ret () s)"

definition itrunc :: "nat \<Rightarrow> 'z fs_st_scheme \<Rightarrow> (unit, 'z fs_st_scheme) outcome" where
  "itrunc i =
     kthen (kfor (itrunc_direct i) [0..<NDIRECT])
       (kthen (itrunc_indirect i)
          (kthen (kput (upd_inode i (\<lambda>ip. ip\<lparr>i_size := 0\<rparr>))) (iupdate i)))"

definition iput :: "nat \<Rightarrow> 'z fs_st_scheme \<Rightarrow> (unit, 'z fs_st_scheme) outcome" where
  "iput i =
     kthen (kacquire ItableLock) (kthen (\<lambda>s.
       let ip = itable s ! i in
       if i_ref ip = 1 \<and> i_valid ip \<and> i_nlink ip = 0
       then kthen (acquiresleep (inode_lock i)) (kthen (krelease ItableLock)
              (kthen (itrunc i) (kthen (kput (upd_inode i (\<lambda>ip. ip\<lparr>i_type := 0\<rparr>)))
                (kthen (iupdate i) (kthen (kput (upd_inode i (\<lambda>ip. ip\<lparr>i_valid := False\<rparr>)))
                  (kthen (releasesleep (inode_lock i)) (kacquire ItableLock))))))) s
       else Ret () s)
     (kthen (kput (upd_inode i (\<lambda>ip. ip\<lparr>i_ref := i_ref ip - 1\<rparr>))) (krelease ItableLock)))"

definition iunlockput :: "nat \<Rightarrow> 'z fs_st_scheme \<Rightarrow> (unit, 'z fs_st_scheme) outcome" where
  "iunlockput i = kthen (iunlock (Some i)) (iput i)"

definition ireclaim_one :: "u32 \<Rightarrow> nat \<Rightarrow> 'z fs_st_scheme \<Rightarrow> (unit, 'z fs_st_scheme) outcome" where
  "ireclaim_one dev inum s =
     kbind (bread dev (IBLOCK (of_nat inum) (fs_sb s))) (\<lambda>bp. kbind (get_data bp) (\<lambda>d.
       let di = get_dinode (dinode_off (of_nat inum)) d in
       if d_type di \<noteq> 0 \<and> d_nlink di = 0
       then kthen (printf (''ireclaim: orphaned inode %d'' @ [NL]) [PNum (of_nat inum)])
              (kbind (iget dev (of_nat inum)) (\<lambda>i.
                 kthen (brelse bp)
                   (kthen begin_op (kthen (ilock (Some i)) (kthen (iunlock (Some i)) (kthen (iput i) end_op))))))
       else brelse bp)) s"

definition ireclaim :: "u32 \<Rightarrow> 'z fs_st_scheme \<Rightarrow> (unit, 'z fs_st_scheme) outcome" where
  "ireclaim dev s = kfor (ireclaim_one dev) [1..<unat (sb_ninodes (fs_sb s))] s"

definition fsinit :: "u32 \<Rightarrow> 'z fs_st_scheme \<Rightarrow> (unit, 'z fs_st_scheme) outcome" where
  "fsinit dev = kthen (readsb dev) (\<lambda>s.
     if sb_magic (fs_sb s) \<noteq> FSMAGIC then Panic ''invalid file system''
     else kthen (initlog dev (fs_sb s)) (ireclaim dev) s)"

definition stati :: "nat \<Rightarrow> 'z fs_st_scheme \<Rightarrow> (stat, 'z fs_st_scheme) outcome" where
  "stati i = kget (\<lambda>s. let ip = itable s ! i in
     \<lparr>st_dev = i_dev ip, st_ino = i_inum ip, st_type = i_type ip, st_nlink = i_nlink ip, st_size = ucast (i_size ip)\<rparr>)"

text \<open>
  The loops of \<open>readi\<close> and \<open>writei\<close>.  The parameter \<open>cp\<close> moves the bytes: it is
  given the number of bytes already transferred and those to store, or how many
  to fetch.  A destination or source that is a local variable of the caller is the
  list of its bytes.
\<close>

function readi_loop ::
  "(nat \<Rightarrow> bytes \<Rightarrow> 'z fs_st_scheme \<Rightarrow> (int, 'z fs_st_scheme) outcome) \<Rightarrow> nat \<Rightarrow> nat \<Rightarrow> nat \<Rightarrow> nat \<Rightarrow> bytes
   \<Rightarrow> 'z fs_st_scheme \<Rightarrow> (u32 \<times> bytes, 'z fs_st_scheme) outcome" where
  "readi_loop cp i off n tot acc =
     (if tot < n
      then let m = min (n - tot) (BSIZE - off mod BSIZE) in
        kbind (bmap i (off div BSIZE)) (\<lambda>addr s.
          if addr = 0 then Ret (of_nat tot, acc) s
          else kbind (bread (i_dev (itable s ! i)) addr) (\<lambda>bp. kbind (get_data bp) (\<lambda>d.
                 let bs = map (\<lambda>k. d (off mod BSIZE + k)) [0..<m] in
                 kbind (cp tot bs) (\<lambda>r.
                   if r = - 1 then kthen (brelse bp) (kret (- 1, acc))
                   else kthen (brelse bp) (readi_loop cp i (off + m) n (tot + m) (acc @ bs))))) s)
      else kret (of_nat tot, acc))"
  by pat_completeness auto
termination
  by (relation "measure (\<lambda>(cp, i, off, n, tot, acc). n - tot)") (auto simp: BSIZE_def)

definition readi_with ::
  "(nat \<Rightarrow> bytes \<Rightarrow> 'z fs_st_scheme \<Rightarrow> (int, 'z fs_st_scheme) outcome) \<Rightarrow> nat \<Rightarrow> u32 \<Rightarrow> u32
   \<Rightarrow> 'z fs_st_scheme \<Rightarrow> (int \<times> bytes, 'z fs_st_scheme) outcome" where
  "readi_with cp i off n s =
     (let sz = i_size (itable s ! i) in
      if off > sz \<or> off + n < off then Ret (0, []) s
      else let n' = (if off + n > sz then sz - off else n) in
        kbind (readi_loop cp i (unat off) (unat n') 0 []) (\<lambda>(tot, bs). kret (sint tot, bs)) s)"

definition readi :: "nat \<Rightarrow> bool \<Rightarrow> u64 \<Rightarrow> u32 \<Rightarrow> u32 \<Rightarrow> 'z fs_st_scheme \<Rightarrow> (int, 'z fs_st_scheme) outcome" where
  "readi i user_dst dst off n =
     kbind (readi_with (\<lambda>tot bs. either_copyout user_dst (dst + of_nat tot) bs) i off n) (\<lambda>(r, bs). kret r)"

definition readi_local :: "nat \<Rightarrow> u32 \<Rightarrow> u32 \<Rightarrow> 'z fs_st_scheme \<Rightarrow> (int \<times> bytes, 'z fs_st_scheme) outcome" where
  "readi_local = readi_with (\<lambda>tot bs. kret 0)"

definition splice :: "nat \<Rightarrow> bytes \<Rightarrow> block \<Rightarrow> block" where
  "splice o' bs d = (\<lambda>x. if o' \<le> x \<and> x < o' + length bs then bs ! (x - o') else d x)"

function writei_loop ::
  "(nat \<Rightarrow> nat \<Rightarrow> 'z fs_st_scheme \<Rightarrow> (int \<times> bytes, 'z fs_st_scheme) outcome) \<Rightarrow> nat \<Rightarrow> nat \<Rightarrow> nat \<Rightarrow> nat
   \<Rightarrow> 'z fs_st_scheme \<Rightarrow> (nat \<times> nat, 'z fs_st_scheme) outcome" where
  "writei_loop cp i off n tot =
     (if tot < n
      then let m = min (n - tot) (BSIZE - off mod BSIZE) in
        kbind (bmap i (off div BSIZE)) (\<lambda>addr s.
          if addr = 0 then Ret (off, tot) s
          else kbind (bread (i_dev (itable s ! i)) addr) (\<lambda>bp. kbind (cp tot m) (\<lambda>(r, bs).
                 kthen (kbind (get_data bp) (\<lambda>d. set_data bp (splice (off mod BSIZE) bs d)))
                   (if r = - 1 then kthen (brelse bp) (kret (off, tot))
                    else kthen (log_write bp) (kthen (brelse bp) (writei_loop cp i (off + m) n (tot + m)))))) s)
      else kret (off, tot))"
  by pat_completeness auto
termination
  by (relation "measure (\<lambda>(cp, i, off, n, tot). n - tot)") (auto simp: BSIZE_def)

declare readi_loop.simps [simp del] writei_loop.simps [simp del]

definition writei_with ::
  "(nat \<Rightarrow> nat \<Rightarrow> 'z fs_st_scheme \<Rightarrow> (int \<times> bytes, 'z fs_st_scheme) outcome) \<Rightarrow> nat \<Rightarrow> u32 \<Rightarrow> u32
   \<Rightarrow> 'z fs_st_scheme \<Rightarrow> (int, 'z fs_st_scheme) outcome" where
  "writei_with cp i off n s =
     (if off > i_size (itable s ! i) \<or> off + n < off then Ret (- 1) s
      else if unat (off + n) > MAXFILE * BSIZE then Ret (- 1) s
      else kbind (writei_loop cp i (unat off) (unat n) 0) (\<lambda>(off', tot).
        kthen (kput (upd_inode i (\<lambda>ip. if off' > unat (i_size ip) then ip\<lparr>i_size := of_nat off'\<rparr> else ip)))
          (kthen (iupdate i) (kret (int tot)))) s)"

definition writei :: "nat \<Rightarrow> bool \<Rightarrow> u64 \<Rightarrow> u32 \<Rightarrow> u32 \<Rightarrow> 'z fs_st_scheme \<Rightarrow> (int, 'z fs_st_scheme) outcome" where
  "writei i user_src src = writei_with (\<lambda>tot m. either_copyin user_src (src + of_nat tot) m) i"

definition writei_local :: "nat \<Rightarrow> bytes \<Rightarrow> u32 \<Rightarrow> 'z fs_st_scheme \<Rightarrow> (int, 'z fs_st_scheme) outcome" where
  "writei_local i bs off = writei_with (\<lambda>tot m. kret (0, take m (drop tot bs))) i off (of_nat (length bs))"

section \<open>Directories\<close>

definition namecmp :: "bytes \<Rightarrow> bytes \<Rightarrow> int" where
  "namecmp s t = strncmp_list (cstr_of s) (cstr_of t) DIRSIZ"

definition dir_offsets :: "u32 \<Rightarrow> nat list" where
  "dir_offsets sz = map (\<lambda>k. DIRENT_SIZE * k) [0..<(unat sz + DIRENT_SIZE - 1) div DIRENT_SIZE]"

primrec dirlookup_loop :: "nat \<Rightarrow> bytes \<Rightarrow> nat list \<Rightarrow> 'z fs_st_scheme \<Rightarrow> ((nat \<times> nat) option, 'z fs_st_scheme) outcome" where
  "dirlookup_loop i name [] = kret None"
| "dirlookup_loop i name (off # offs) =
     kbind (readi_local i (of_nat off) (of_nat DIRENT_SIZE)) (\<lambda>(r, bs).
       let de = dec_dirent bs in
       if r \<noteq> int DIRENT_SIZE then kpanic ''dirlookup read''
       else if de_inum de = 0 then dirlookup_loop i name offs
       else if namecmp name (de_name de) = 0
       then (\<lambda>s. kbind (iget (i_dev (itable s ! i)) (ucast (de_inum de))) (\<lambda>ip. kret (Some (ip, off))) s)
       else dirlookup_loop i name offs)"

text \<open>The entry's inode and its offset, which the source stores at \<open>poff\<close> when that is not null.\<close>

definition dirlookup :: "nat \<Rightarrow> bytes \<Rightarrow> 'z fs_st_scheme \<Rightarrow> ((nat \<times> nat) option, 'z fs_st_scheme) outcome" where
  "dirlookup i name s =
     (if i_type (itable s ! i) \<noteq> T_DIR then Panic ''dirlookup not DIR''
      else dirlookup_loop i name (dir_offsets (i_size (itable s ! i))) s)"

text \<open>The offset at which the second loop of \<open>dirlink\<close> stops.\<close>

primrec dirlink_slot :: "nat \<Rightarrow> nat list \<Rightarrow> nat \<Rightarrow> 'z fs_st_scheme \<Rightarrow> (nat, 'z fs_st_scheme) outcome" where
  "dirlink_slot i [] e = kret e"
| "dirlink_slot i (off # offs) e =
     kbind (readi_local i (of_nat off) (of_nat DIRENT_SIZE)) (\<lambda>(r, bs).
       if r \<noteq> int DIRENT_SIZE then kpanic ''dirlink read''
       else if de_inum (dec_dirent bs) = 0 then kret off
       else dirlink_slot i offs e)"

text \<open>\<open>strncpy(de.name, name, DIRSIZ)\<close>.\<close>

definition dir_name :: "bytes \<Rightarrow> bytes" where
  "dir_name name = take DIRSIZ (cstr_of name @ replicate DIRSIZ 0)"

definition dirlink :: "nat \<Rightarrow> bytes \<Rightarrow> u32 \<Rightarrow> 'z fs_st_scheme \<Rightarrow> (int, 'z fs_st_scheme) outcome" where
  "dirlink i name inum = kbind (dirlookup i name) (\<lambda>r.
     case r of
       Some (ip, _) \<Rightarrow> kthen (iput ip) (kret (- 1))
     | None \<Rightarrow> (\<lambda>s.
         let offs = dir_offsets (i_size (itable s ! i)) in
         kbind (dirlink_slot i offs (DIRENT_SIZE * length offs)) (\<lambda>off.
           kbind (writei_local i (enc_dirent \<lparr>de_inum = ucast inum, de_name = dir_name name\<rparr>) (of_nat off)) (\<lambda>w.
             kret (if w \<noteq> int DIRENT_SIZE then - 1 else 0))) s))"

section \<open>Paths\<close>

definition SLASH :: u8 where "SLASH = 0x2F"

text \<open>The element (truncated to the size of \<open>name\<close>) and the rest of the path.\<close>

definition skipelem :: "bytes \<Rightarrow> (bytes \<times> bytes) option" where
  "skipelem path =
     (let p = dropWhile (\<lambda>c. c = SLASH) path in
      if p = [] then None
      else let elem = takeWhile (\<lambda>c. c \<noteq> SLASH) p in
        Some (if length elem \<ge> DIRSIZ then take DIRSIZ elem else elem,
              dropWhile (\<lambda>c. c = SLASH) (drop (length elem) p)))"

lemma skipelem_shorter:
  assumes "skipelem path = Some (name, rest)"
  shows "length rest < length path"
proof -
  define p where "p = dropWhile (\<lambda>c. c = SLASH) path"
  define e where "e = takeWhile (\<lambda>c. c \<noteq> SLASH) p"
  have p: "p \<noteq> []" "rest = dropWhile (\<lambda>c. c = SLASH) (drop (length e) p)"
    using assms by (auto simp: skipelem_def Let_def p_def e_def split: if_splits)
  have "hd p \<noteq> SLASH" using hd_dropWhile [of "\<lambda>c. c = SLASH" path] p(1) by (simp add: p_def)
  then have "0 < length e" using p(1) by (cases p) (auto simp: e_def)
  moreover have "length p \<le> length path" by (simp add: p_def length_dropWhile_le)
  moreover have "length rest \<le> length p - length e" unfolding p(2) using length_dropWhile_le [of _ "drop (length e) p"] by simp
  moreover have "0 < length p" using p(1) by simp
  ultimately show ?thesis by linarith
qed

text \<open>The loop of \<open>namex\<close>: the inode, if any, and the last element that was copied into \<open>name\<close>.\<close>

function namex_loop :: "bytes \<Rightarrow> bool \<Rightarrow> nat \<Rightarrow> bytes \<Rightarrow> 'z fs_st_scheme \<Rightarrow> (nat option \<times> bytes, 'z fs_st_scheme) outcome" where
  "namex_loop path nameiparent i name =
     (case skipelem path of
        None \<Rightarrow> if nameiparent then kthen (iput i) (kret (None, name)) else kret (Some i, name)
      | Some (name', rest) \<Rightarrow>
          kthen (ilock (Some i)) (\<lambda>s.
            if i_type (itable s ! i) \<noteq> T_DIR then kthen (iunlockput i) (kret (None, name')) s
            else if nameiparent \<and> rest = [] then kthen (iunlock (Some i)) (kret (Some i, name')) s
            else kbind (dirlookup i name') (\<lambda>r.
              case r of
                None \<Rightarrow> kthen (iunlockput i) (kret (None, name'))
              | Some (next', _) \<Rightarrow> kthen (iunlockput i) (namex_loop rest nameiparent next' name')) s))"
  by pat_completeness auto
termination
  by (relation "measure (\<lambda>(path, np, i, name). length path)") (auto dest: skipelem_shorter)

declare namex_loop.simps [simp del]

text \<open>The name of the static buffer is empty before the first element is copied.\<close>

definition namex :: "bytes \<Rightarrow> bool \<Rightarrow> 'z fs_st_scheme \<Rightarrow> (nat option \<times> bytes, 'z fs_st_scheme) outcome" where
  "namex path nameiparent =
     kbind (if path \<noteq> [] \<and> hd path = SLASH then iget ROOTDEV ROOTINO
            else kbind myproc (\<lambda>p s. case p_cwd (procs s ! p) of None \<Rightarrow> Panic ''null pointer'' | Some i \<Rightarrow> idup i s))
       (\<lambda>i. namex_loop path nameiparent i [])"

definition namei :: "bytes \<Rightarrow> 'z fs_st_scheme \<Rightarrow> (nat option, 'z fs_st_scheme) outcome" where
  "namei path = kbind (namex path False) (\<lambda>(ip, name). kret ip)"

definition nameiparent :: "bytes \<Rightarrow> 'z fs_st_scheme \<Rightarrow> (nat option \<times> bytes, 'z fs_st_scheme) outcome" where
  "nameiparent path = namex path True"

end
