(* ===== verification/Balloc.thy ===== *)
theory Balloc
  imports Fs
begin

text \<open>
  The free map of kernel/fs.c.  \<open>used s b\<close> reads the bit of block \<open>b\<close>; the theory
  shows that \<open>balloc\<close> hands out the least free block, zeroed, and changes nothing
  else, that it returns 0 exactly when every block is in use, and that \<open>bfree\<close>
  undoes it.
\<close>

section \<open>Room\<close>

text \<open>There is room for \<open>k\<close> more blocks in the log and one more buffer in the cache.\<close>

definition room :: "'z log_st_scheme \<Rightarrow> (nat \<Rightarrow> u32 option) \<Rightarrow> nat \<Rightarrow> bool" where
  "room s h k \<longleftrightarrow> finite (logset s \<union> ran h) \<and> card (logset s \<union> ran h) + k < NBUF"

lemma room_less: "room s h k \<Longrightarrow> j \<le> k \<Longrightarrow> room s h j"
  by (simp add: room_def)

lemma room_same: "logset t = logset s \<Longrightarrow> room t h k = room s h k"
  by (simp add: room_def)

lemma room_read: "room s h k \<Longrightarrow> card (logset s \<union> ran h) < NBUF"
  by (simp add: room_def)

lemma room_log: "room s h k \<Longrightarrow> card (logset s) < LOGBLOCKS"
  using card_mono [of "logset s \<union> ran h" "logset s"] by (auto simp: room_def NBUF_LOGBLOCKS)

lemma room_hold:
  assumes "room s h (Suc k)" "logset t = logset s" "i \<notin> dom h"
  shows "room t (h(i \<mapsto> b)) k"
proof -
  have "ran (h(i \<mapsto> b)) = insert b (ran h)" using assms(3) by (intro ran_map_upd) auto
  then show ?thesis using assms by (auto simp: room_def card_insert_if)
qed

lemma room_write: "room s h (Suc k) \<Longrightarrow> logset t = insert b (logset s) \<Longrightarrow> room t h k"
  by (auto simp: room_def card_insert_if)

lemma read_ok:
  assumes "op p s h" "b \<notin> ran h" "room s h k"
  obtains i t u where "bread ROOTDEV b s = Ret i t" "get_data i t = Ret (blk s b) t" "same s t" "brelse i t = Ret () u"
    "op p u h" "blk u = blk s" "logset u = logset s" "same s u" "room u h k"
proof (rule tx.reading [OF assms(1,2)])
  show "card (logset s \<union> ran h) < NBUF \<or> b \<in> logset s" using room_read [OF assms(3)] by simp
  fix i t u
  assume a: "bread ROOTDEV b s = Ret i t" "get_data i t = Ret (blk s b) t" "same s t" "brelse i t = Ret () u" "op p u h"
    "blk u = blk s" "logset u = logset s" "same s u"
  show thesis by (rule that [OF a]) (use assms(3) room_same [OF a(7)] in simp)
qed

lemma rewrite_ok:
  assumes "op p s h" "b \<notin> ran h" "b \<notin> log_area s" "room s h (Suc k)"
  obtains i t u v w where "bread ROOTDEV b s = Ret i t" "get_data i t = Ret (blk s b) t" "same s t"
    "set_data i (f (blk s b)) t = Ret () u" "log_write i u = Ret () v" "brelse i v = Ret () w"
    "op p w h" "blk w = (blk s)(b := f (blk s b))" "logset w = insert b (logset s)" "same s w" "room w h k"
proof (rule tx.rewriting [OF assms(1,2) _ assms(3) room_log [OF assms(4)], where f = f])
  show "card (logset s \<union> ran h) < NBUF \<or> b \<in> logset s" using room_read [OF assms(4)] by simp
  fix i t u v w
  assume a: "bread ROOTDEV b s = Ret i t" "get_data i t = Ret (blk s b) t" "same s t" "set_data i (f (blk s b)) t = Ret () u"
    "log_write i u = Ret () v" "brelse i v = Ret () w" "op p w h" "blk w = (blk s)(b := f (blk s b))"
    "logset w = insert b (logset s)" "same s w"
  then show thesis using that room_write [OF assms(4) a(9)] by blast
qed

section \<open>Bits\<close>

lemma bit_set_iff: "bit_set d bi \<longleftrightarrow> bit (d (bi div 8)) (bi mod 8)"
  by (simp add: bit_set_def bit_mask_def bit_iff_and_push_bit_not_eq_0)

lemma div_mod_8: "bi = bj \<longleftrightarrow> bi div 8 = bj div 8 \<and> bi mod 8 = bj mod (8 :: nat)"
  by (metis div_mult_mod_eq)

lemma bit_set_mark: "bit_set (mark_bit bi d) bj \<longleftrightarrow> bi = bj \<or> bit_set d bj"
  by (auto simp: bit_set_iff mark_bit_def bit_mask_def div_mod_8 [of bi bj] bit_simps)

lemma bit_set_clear: "bit_set (clear_bit bi d) bj \<longleftrightarrow> bi \<noteq> bj \<and> bit_set d bj"
  by (auto simp: bit_set_iff clear_bit_def bit_mask_def div_mod_8 [of bi bj] bit_simps)

lemma clear_mark: "\<not> bit_set d bi \<Longrightarrow> clear_bit bi (mark_bit bi d) = d"
  by (auto simp: fun_eq_iff clear_bit_def mark_bit_def bit_set_iff bit_mask_def bit_simps intro!: bit_word_eqI)

section \<open>The free map\<close>

definition used_in :: "(u32 \<Rightarrow> block) \<Rightarrow> superblock \<Rightarrow> nat \<Rightarrow> bool" where
  "used_in v sb b \<longleftrightarrow> bit_set (v (BBLOCK b sb)) (b mod BPB)"

abbreviation used :: "'z fs_st_scheme \<Rightarrow> nat \<Rightarrow> bool" where
  "used s \<equiv> used_in (blk s) (fs_sb s)"

definition fs_size :: "'z fs_st_scheme \<Rightarrow> nat" where
  "fs_size s = unat (sb_size (fs_sb s))"

definition bitmap_blocks :: "superblock \<Rightarrow> u32 set" where
  "bitmap_blocks sb = (\<lambda>b. BBLOCK b sb) ` {..<unat (sb_size sb)}"

text \<open>
  The layout that mkfs gives the disk: the log and the free map are marked as used,
  do not overlap, and the free map does not wrap around.
\<close>

definition layout_ok :: "'z fs_st_scheme \<Rightarrow> bool" where
  "layout_ok s \<longleftrightarrow> bitmap_blocks (fs_sb s) \<inter> log_area s = {}
     \<and> (\<forall>b \<in> bitmap_blocks (fs_sb s) \<union> log_area s. unat b < fs_size s \<and> used s (unat b))
     \<and> (fs_size s + BPB - 1) div BPB + unat (sb_bmapstart (fs_sb s)) \<le> 2 ^ 32"

lemma same_fs: "same s t \<Longrightarrow> fs_sb t = fs_sb s \<and> itable t = itable s"
proof -
  assume "same s t"
  then have e: "t = s\<lparr>disk := disk t, dhist := dhist t, bufs := bufs t, slocks := slocks t, lh_n := lh_n t, lh_block := lh_block t\<rparr>"
    unfolding same_def log_frame_def by (rule conjunct1)
  show ?thesis using arg_cong [OF e, of fs_sb] arg_cong [OF e, of itable] by simp
qed

lemma unat_u32: "unat (x :: u32) < 4294967296"
  using unsigned_less [of x, where ?'a = nat] by simp

lemma BPB_pos [simp]: "0 < BPB"
  by (simp add: BPB_def BSIZE_def)

lemma BBLOCK_in_block: "b mod BPB = 0 \<Longrightarrow> bi < BPB \<Longrightarrow> BBLOCK (b + bi) sb = BBLOCK b sb"
  by (auto simp: BBLOCK_def div_add1_eq)

lemma used_in_block: "b mod BPB = 0 \<Longrightarrow> bi < BPB \<Longrightarrow> used_in v sb (b + bi) = bit_set (v (BBLOCK b sb)) bi"
  by (simp add: used_in_def BBLOCK_in_block mod_add_left_eq [of b, symmetric])

lemma BBLOCK_eq:
  assumes "a < fs_size s" "b < fs_size s" "layout_ok s"
  shows "BBLOCK a (fs_sb s) = BBLOCK b (fs_sb s) \<longleftrightarrow> a div BPB = b div BPB"
proof -
  have lt: "x div BPB < 2 ^ 32" if "x < fs_size s" for x
  proof -
    have "x div BPB \<le> x" by simp
    also have "x < 2 ^ 32" using that unat_u32 [of "sb_size (fs_sb s)"] by (simp add: fs_size_def)
    finally show ?thesis .
  qed
  have "(of_nat (a div BPB) :: u32) = of_nat (b div BPB) \<longleftrightarrow> a div BPB = b div BPB"
    using lt [OF assms(1)] lt [OF assms(2)] by (simp add: word_of_nat_eq_iff take_bit_nat_eq_self)
  then show ?thesis by (simp add: BBLOCK_def)
qed

text \<open>The map after one of its blocks has changed.\<close>

lemma used_change:
  assumes "a < fs_size s" "b < fs_size s" "layout_ok s" "\<And>x. x \<in> bitmap_blocks (fs_sb s) \<Longrightarrow> x \<noteq> BBLOCK b (fs_sb s) \<Longrightarrow> v x = w x"
  shows "used_in v (fs_sb s) a \<longleftrightarrow>
    (if a div BPB = b div BPB then bit_set (v (BBLOCK b (fs_sb s))) (a mod BPB) else used_in w (fs_sb s) a)"
proof (cases "a div BPB = b div BPB")
  case True
  then show ?thesis by (simp add: used_in_def BBLOCK_def)
next
  case False
  then have "BBLOCK a (fs_sb s) \<noteq> BBLOCK b (fs_sb s)" using BBLOCK_eq [OF assms(1-3)] by simp
  moreover have "BBLOCK a (fs_sb s) \<in> bitmap_blocks (fs_sb s)" using assms(1) by (auto simp: bitmap_blocks_def fs_size_def)
  ultimately show ?thesis using assms(4) False by (auto simp: used_in_def)
qed

lemma same_block: "a div BPB = b div BPB \<Longrightarrow> b mod BPB = a mod BPB \<longleftrightarrow> a = b"
  by (metis div_mult_mod_eq)

lemma used_mark:
  assumes "a < fs_size s" "b < fs_size s" "layout_ok s" "\<And>x. x \<in> bitmap_blocks (fs_sb s) \<Longrightarrow> x \<noteq> BBLOCK b (fs_sb s) \<Longrightarrow> v x = w x"
    and "v (BBLOCK b (fs_sb s)) = mark_bit (b mod BPB) (w (BBLOCK b (fs_sb s)))"
  shows "used_in v (fs_sb s) a \<longleftrightarrow> a = b \<or> used_in w (fs_sb s) a"
  using used_change [OF assms(1-3), of v w] assms(4,5) same_block [of a b] by (auto simp: bit_set_mark used_in_def BBLOCK_def)

lemma used_clear:
  assumes "a < fs_size s" "b < fs_size s" "layout_ok s" "\<And>x. x \<in> bitmap_blocks (fs_sb s) \<Longrightarrow> x \<noteq> BBLOCK b (fs_sb s) \<Longrightarrow> v x = w x"
    and "v (BBLOCK b (fs_sb s)) = clear_bit (b mod BPB) (w (BBLOCK b (fs_sb s)))"
  shows "used_in v (fs_sb s) a \<longleftrightarrow> a \<noteq> b \<and> used_in w (fs_sb s) a"
  using used_change [OF assms(1-3), of v w] assms(4,5) same_block [of a b] by (auto simp: bit_set_clear used_in_def BBLOCK_def)

section \<open>Searching\<close>

lemma find_append: "find P (xs @ ys) = (case find P xs of None \<Rightarrow> find P ys | Some x \<Rightarrow> Some x)"
  by (induction xs) auto

lemma find_map: "find P (map f xs) = map_option f (find (P \<circ> f) xs)"
  by (induction xs) auto

lemma find_cong: "(\<And>x. x \<in> set xs \<Longrightarrow> P x = Q x) \<Longrightarrow> find P xs = find Q xs"
  by (induction xs) auto

text \<open>The block numbers that \<open>balloc\<close> looks at for the bitmap blocks that start at \<open>bs\<close>.\<close>

definition candidates :: "nat \<Rightarrow> nat list \<Rightarrow> nat list" where
  "candidates n bs = concat (map (\<lambda>b. map (\<lambda>bi. b + bi) [0..<min BPB (n - b)]) bs)"

lemma candidates_all: "candidates n (bitmap_starts n) = [0..<n]"
proof -
  have "candidates n (map (\<lambda>k. k * BPB) [0..<m]) = [0..<min n (m * BPB)]" for m
  proof (induction m)
    case (Suc m)
    have sh: "map (\<lambda>bi. a + bi) [0..<k] = [a..<a + k]" for a k :: nat
      using map_add_upt [of a k] by (simp add: add.commute)
    have "candidates n (map (\<lambda>k. k * BPB) [0..<Suc m]) = [0..<min n (m * BPB)] @ [m * BPB..<m * BPB + min BPB (n - m * BPB)]"
      using Suc by (simp add: candidates_def sh)
    also have "\<dots> = [0..<min n (Suc m * BPB)]"
    proof (cases "m * BPB \<le> n")
      case True
      then have "min n (m * BPB) = m * BPB" "m * BPB + min BPB (n - m * BPB) = min n (Suc m * BPB)" by auto
      then show ?thesis using True upt_add_eq_append [of 0 "m * BPB" "min BPB (n - m * BPB)"] by simp
    qed (simp add: min_def)
    finally show ?case .
  qed (simp add: candidates_def)
  moreover have "n \<le> (n + BPB - 1) div BPB * BPB"
  proof -
    have "n + BPB - 1 < (n + BPB - 1) div BPB * BPB + BPB"
      using div_mult_mod_eq [of "n + BPB - 1" BPB] mod_less_divisor [OF BPB_pos, of "n + BPB - 1"] by linarith
    then show ?thesis using BPB_pos by linarith
  qed
  ultimately show ?thesis by (simp add: bitmap_starts_def min_def)
qed

lemma find_candidates:
  assumes "b mod BPB = 0" "set bs \<subseteq> {b. b mod BPB = 0}"
  shows "find (\<lambda>a. \<not> used_in v sb a) (candidates n (b # bs)) =
    (case free_bit (v (BBLOCK b sb)) (min BPB (n - b)) of
       Some bi \<Rightarrow> Some (b + bi) | None \<Rightarrow> find (\<lambda>a. \<not> used_in v sb a) (candidates n bs))"
proof -
  have "find (\<lambda>a. \<not> used_in v sb a) (map (\<lambda>bi. b + bi) [0..<min BPB (n - b)])
      = map_option (\<lambda>bi. b + bi) (free_bit (v (BBLOCK b sb)) (min BPB (n - b)))"
    unfolding find_map free_bit_def using used_in_block [OF assms(1)] by (auto intro!: arg_cong [where f = "map_option _"] find_cong)
  then show ?thesis by (simp add: candidates_def find_append split: option.split)
qed

section \<open>Allocating and freeing\<close>

lemma bzero_ok:
  assumes "op p s h" "b \<notin> ran h" "b \<notin> log_area s" "room s h (Suc k)"
  obtains w where "bzero ROOTDEV b s = Ret () w" "op p w h" "blk w = (blk s)(b := zero_block (blk s b))"
    "logset w = insert b (logset s)" "same s w" "room w h k"
proof (rule rewrite_ok [OF assms, where f = zero_block])
  fix i t u v w
  assume "bread ROOTDEV b s = Ret i t" "get_data i t = Ret (blk s b) t" "set_data i (zero_block (blk s b)) t = Ret () u"
    "log_write i u = Ret () v" "brelse i v = Ret () w"
    and w: "op p w h" "blk w = (blk s)(b := zero_block (blk s b))" "logset w = insert b (logset s)" "same s w" "room w h k"
  then have "bzero ROOTDEV b s = Ret () w" by (simp add: bzero_def)
  then show thesis using w by (rule that)
qed

text \<open>The blocks after \<open>balloc\<close> has returned \<open>b\<close>.\<close>

definition balloc_view :: "nat \<Rightarrow> 'z fs_st_scheme \<Rightarrow> u32 \<Rightarrow> block" where
  "balloc_view b s = (let m = BBLOCK b (fs_sb s) in
     (blk s)(m := mark_bit (b mod BPB) (blk s m), of_nat b := zero_block (blk s (of_nat b))))"

text \<open>A state in which \<open>balloc\<close> may be called.\<close>

definition balloc_ready :: "nat \<Rightarrow> 'z fs_st_scheme \<Rightarrow> (nat \<Rightarrow> u32 option) \<Rightarrow> bool" where
  "balloc_ready p s h \<longleftrightarrow> op p s h \<and> layout_ok s \<and> ran h \<inter> bitmap_blocks (fs_sb s) = {} \<and> (\<forall>b \<in> ran h. unat b < fs_size s \<and> used s (unat b))"

lemma layout_same: "same s t \<Longrightarrow> blk t = blk s \<Longrightarrow> layout_ok t = layout_ok s"
  using same_fs [of s t] same_area [of s t] by (simp add: layout_ok_def fs_size_def)

lemma ready_same: "balloc_ready p s h \<Longrightarrow> op p t h \<Longrightarrow> same s t \<Longrightarrow> blk t = blk s \<Longrightarrow> balloc_ready p t h"
  using layout_same [of s t] same_fs [of s t] by (simp add: balloc_ready_def fs_size_def)

lemma ready_more:
  assumes "balloc_ready p s h" "op p t h" "same s t" "\<And>a. a < fs_size s \<Longrightarrow> used s a \<Longrightarrow> used t a"
  shows "balloc_ready p t h"
  using assms same_fs [OF assms(3)] same_area [OF assms(3)]
  unfolding balloc_ready_def layout_ok_def fs_size_def by fastforce

lemma free_block:
  assumes "balloc_ready p s h" "b < fs_size s" "\<not> used s b"
  shows "of_nat b \<notin> ran h" "of_nat b \<notin> log_area s" "(of_nat b :: u32) \<notin> bitmap_blocks (fs_sb s)" "unat (of_nat b :: u32) = b"
proof -
  have "b < 2 ^ 32" using assms(2) unat_u32 [of "sb_size (fs_sb s)"] by (simp add: fs_size_def)
  then show n: "unat (of_nat b :: u32) = b" by (simp add: unat_of_nat)
  have "used s (unat a)" if "a \<in> ran h \<union> log_area s \<union> bitmap_blocks (fs_sb s)" for a
    using assms(1) that unfolding balloc_ready_def layout_ok_def by blast
  from this [of "of_nat b"] show "of_nat b \<notin> ran h" "of_nat b \<notin> log_area s" "(of_nat b :: u32) \<notin> bitmap_blocks (fs_sb s)"
    using assms(3) n by auto
qed

lemma bitmap_block:
  assumes "balloc_ready p s h" "b < fs_size s"
  shows "BBLOCK b (fs_sb s) \<notin> ran h" "BBLOCK b (fs_sb s) \<notin> log_area s" "BBLOCK b (fs_sb s) \<in> bitmap_blocks (fs_sb s)"
  using assms by (auto simp: balloc_ready_def layout_ok_def bitmap_blocks_def fs_size_def)

lemma free_bit_bound: "free_bit d n = Some bi \<Longrightarrow> bi < n \<and> \<not> bit_set d bi"
  by (auto simp: free_bit_def find_Some_iff)

lemma balloc_loop_Some:
  assumes "balloc_ready p s h" "room s h 2" "set bs \<subseteq> {b. b mod BPB = 0 \<and> b < fs_size s}"
    and "find (\<lambda>a. \<not> used s a) (candidates (fs_size s) bs) = Some b"
  shows "\<exists>t. balloc_loop ROOTDEV bs s = Ret (of_nat b) t \<and> op p t h \<and> blk t = balloc_view b s
    \<and> logset t = {of_nat b, BBLOCK b (fs_sb s)} \<union> logset s \<and> same s t \<and> room t h 0"
  using assms
proof (induction bs arbitrary: s)
  case Nil
  then show ?case by (simp add: candidates_def)
next
  case (Cons c cs)
  let ?m = "BBLOCK c (fs_sb s)" and ?n = "min BPB (fs_size s - c)"
  have c: "c mod BPB = 0" "c < fs_size s" and cs: "set cs \<subseteq> {b. b mod BPB = 0}" using Cons.prems(3) by auto
  have o: "op p s h" using Cons.prems(1) by (simp add: balloc_ready_def)
  note m = bitmap_block [OF Cons.prems(1) c(2)]
  note fc = find_candidates [OF c(1) cs, of "blk s" "fs_sb s" "fs_size s"]
  show ?case
  proof (cases "free_bit (blk s ?m) ?n")
    case None
    obtain i t u where u: "bread ROOTDEV ?m s = Ret i t" "get_data i t = Ret (blk s ?m) t" "same s t" "brelse i t = Ret () u"
        "op p u h" "blk u = blk s" "logset u = logset s" "same s u" "room u h 2"
      by (rule read_ok [OF o m(1) Cons.prems(2)])
    have fu: "fs_sb u = fs_sb s" "fs_size u = fs_size s" using same_fs [OF u(8)] by (simp_all add: fs_size_def)
    have "find (\<lambda>a. \<not> used u a) (candidates (fs_size u) cs) = Some b" using Cons.prems(4) fc None fu u(6) by simp
    from Cons.IH [OF ready_same [OF Cons.prems(1) u(5,8,6)] u(9) _ this] Cons.prems(3) fu obtain w where
      w: "balloc_loop ROOTDEV cs u = Ret (of_nat b) w" "op p w h" "blk w = balloc_view b u"
        "logset w = {of_nat b, BBLOCK b (fs_sb s)} \<union> logset s" "same u w" "room w h 0" using u(7) by auto
    have "balloc_loop ROOTDEV (c # cs) s = Ret (of_nat b) w"
      using u(1,2,4) w(1) None by (simp add: fs_size_def)
    moreover have "balloc_view b u = balloc_view b s" using fu u(6) by (simp add: balloc_view_def)
    ultimately show ?thesis using w same_trans [OF u(8) w(5)] by auto
  next
    case (Some bi)
    then have b: "b = c + bi" and bi: "bi < ?n" "\<not> bit_set (blk s ?m) bi"
      using Cons.prems(4) fc free_bit_bound [OF Some] by auto
    have bb: "BBLOCK b (fs_sb s) = ?m" "b mod BPB = bi" "b < fs_size s" "\<not> used s b"
      using bi c b BBLOCK_in_block [OF c(1), of bi] used_in_block [OF c(1), of bi] by (auto simp: mod_add_left_eq [of c, symmetric])
    note fb = free_block [OF Cons.prems(1) bb(3,4)]
    have r2: "room s h (Suc (Suc 0))" using Cons.prems(2) by (simp add: numeral_2_eq_2)
    obtain i t u v w where w: "bread ROOTDEV ?m s = Ret i t" "get_data i t = Ret (blk s ?m) t" "same s t"
        "set_data i (mark_bit bi (blk s ?m)) t = Ret () u" "log_write i u = Ret () v" "brelse i v = Ret () w" "op p w h"
        "blk w = (blk s)(?m := mark_bit bi (blk s ?m))" "logset w = insert ?m (logset s)" "same s w" "room w h (Suc 0)"
      by (rule rewrite_ok [OF o m(1,2) r2, where f = "mark_bit bi"])
    have "of_nat b \<notin> log_area w" using fb(2) same_area [OF w(10)] by simp
    from bzero_ok [OF w(7) fb(1) this w(11)] obtain x where x: "bzero ROOTDEV (of_nat b) w = Ret () x" "op p x h"
        "blk x = (blk w)(of_nat b := zero_block (blk w (of_nat b)))" "logset x = insert (of_nat b) (logset w)" "same w x" "room x h 0" .
    have ne: "of_nat b \<noteq> ?m" using fb(3) m(3) by auto
    have "balloc_loop ROOTDEV (c # cs) s = Ret (of_nat b) x"
      using w(1,2,4,5,6) x(1) Some b by (simp add: fs_size_def kret_def)
    moreover have "blk x = balloc_view b s" using x(3) w(8) ne bb by (simp add: balloc_view_def Let_def)
    ultimately show ?thesis using x w bb same_trans [OF w(10) x(5)] by auto
  qed
qed

lemma op_uart [simp]: "op p (s\<lparr>uart_out := x\<rparr>) h = op p s h"
  by (simp add: op_def in_op_def logset_def log_area_def logblk_def)

definition no_blocks_msg :: bytes where
  "no_blocks_msg = cstring (''balloc: out of blocks'' @ [NL])"

lemma balloc_loop_None:
  assumes "balloc_ready p s h" "room s h 0" "set bs \<subseteq> {b. b mod BPB = 0 \<and> b < fs_size s}"
    and "find (\<lambda>a. \<not> used s a) (candidates (fs_size s) bs) = None"
  shows "\<exists>t. balloc_loop ROOTDEV bs s = Ret 0 (t\<lparr>uart_out := uart_out s @ no_blocks_msg\<rparr>) \<and> op p t h \<and> blk t = blk s
    \<and> logset t = logset s \<and> same s t"
  using assms
proof (induction bs arbitrary: s)
  case Nil
  then have "op p s h" by (simp add: balloc_ready_def)
  then have "printf (''balloc: out of blocks'' @ [NL]) [] s = Ret () (s\<lparr>uart_out := uart_out s @ no_blocks_msg\<rparr>)"
    unfolding no_blocks_msg_def by (intro printf_plain) (auto simp: op_def NL_def can_print_def)
  then show ?case using \<open>op p s h\<close> by (intro exI [of _ s]) (simp add: kret_def)
next
  case (Cons c cs)
  let ?m = "BBLOCK c (fs_sb s)"
  have c: "c mod BPB = 0" "c < fs_size s" and cs: "set cs \<subseteq> {b. b mod BPB = 0}" using Cons.prems(3) by auto
  have o: "op p s h" using Cons.prems(1) by (simp add: balloc_ready_def)
  note m = bitmap_block [OF Cons.prems(1) c(2)]
  note fc = find_candidates [OF c(1) cs, of "blk s" "fs_sb s" "fs_size s"]
  have none: "free_bit (blk s ?m) (min BPB (fs_size s - c)) = None" "find (\<lambda>a. \<not> used s a) (candidates (fs_size s) cs) = None"
    using Cons.prems(4) fc by (auto split: option.splits)
  obtain i t u where u: "bread ROOTDEV ?m s = Ret i t" "get_data i t = Ret (blk s ?m) t" "same s t" "brelse i t = Ret () u"
      "op p u h" "blk u = blk s" "logset u = logset s" "same s u" "room u h 0"
    by (rule read_ok [OF o m(1) Cons.prems(2)])
  have fu: "fs_sb u = fs_sb s" "fs_size u = fs_size s" using same_fs [OF u(8)] by (simp_all add: fs_size_def)
  have uo: "uart_out u = uart_out s" using u(8) log_frame_fields by (auto simp: same_def)
  have "find (\<lambda>a. \<not> used u a) (candidates (fs_size u) cs) = None" using none fu u(6) by simp
  from Cons.IH [OF ready_same [OF Cons.prems(1) u(5,8,6)] u(9) _ this] Cons.prems(3) fu obtain w where
    w: "balloc_loop ROOTDEV cs u = Ret 0 (w\<lparr>uart_out := uart_out s @ no_blocks_msg\<rparr>)" "op p w h" "blk w = blk u"
      "logset w = logset u" "same u w" using uo by auto
  have "balloc_loop ROOTDEV (c # cs) s = Ret 0 (w\<lparr>uart_out := uart_out s @ no_blocks_msg\<rparr>)"
    using u(1,2,4) w(1) none by (simp add: fs_size_def)
  then show ?case using w u same_trans [OF u(8) w(5)] by auto
qed

lemma bitmap_starts_ok: "set (bitmap_starts n) \<subseteq> {b. b mod BPB = 0 \<and> b < n}"
proof -
  have "k * BPB < n" if "k < (n + BPB - 1) div BPB" for k
  proof -
    have "Suc k * BPB \<le> n + BPB - 1" using that by (metis Suc_leI div_times_less_eq_dividend le_trans mult_le_mono1)
    then show ?thesis using BPB_pos unfolding mult_Suc by linarith
  qed
  then show ?thesis by (auto simp: bitmap_starts_def)
qed

text \<open>What \<open>balloc\<close> does to the free map.\<close>

lemma balloc_used:
  assumes "balloc_ready p s h" "b < fs_size s" "\<not> used s b" "a < fs_size s"
  shows "used_in (balloc_view b s) (fs_sb s) a \<longleftrightarrow> a = b \<or> used s a"
proof (rule used_mark [OF assms(4,2)])
  note f = free_block [OF assms(1-3)] and m = bitmap_block [OF assms(1,2)]
  show "layout_ok s" using assms(1) by (simp add: balloc_ready_def)
  show "balloc_view b s x = blk s x" if "x \<in> bitmap_blocks (fs_sb s)" "x \<noteq> BBLOCK b (fs_sb s)" for x
    using that f(3) by (auto simp: balloc_view_def Let_def)
  show "balloc_view b s (BBLOCK b (fs_sb s)) = mark_bit (b mod BPB) (blk s (BBLOCK b (fs_sb s)))"
    using f(3) m(3) by (auto simp: balloc_view_def Let_def)
qed

lemma bfree_ok:
  assumes r: "balloc_ready p s h" "room s h (Suc k)" and b: "unat b < fs_size s" "used s (unat b)"
  shows "\<exists>t. bfree ROOTDEV b s = Ret () t \<and> op p t h
    \<and> blk t = (blk s)(BBLOCK (unat b) (fs_sb s) := clear_bit (unat b mod BPB) (blk s (BBLOCK (unat b) (fs_sb s))))
    \<and> logset t = insert (BBLOCK (unat b) (fs_sb s)) (logset s) \<and> same s t \<and> room t h k"
proof -
  let ?m = "BBLOCK (unat b) (fs_sb s)" and ?bi = "unat b mod BPB"
  note m = bitmap_block [OF r(1) b(1)]
  have o: "op p s h" using r(1) by (simp add: balloc_ready_def)
  obtain i t u v w where w: "bread ROOTDEV ?m s = Ret i t" "get_data i t = Ret (blk s ?m) t" "same s t"
      "set_data i (clear_bit ?bi (blk s ?m)) t = Ret () u" "log_write i u = Ret () v" "brelse i v = Ret () w" "op p w h"
      "blk w = (blk s)(?m := clear_bit ?bi (blk s ?m))" "logset w = insert ?m (logset s)" "same s w" "room w h k"
    by (rule rewrite_ok [OF o m(1,2) r(2), where f = "clear_bit ?bi"])
  have "bfree ROOTDEV b s = Ret () w"
    using w(1,2,4,5,6) b(2) by (simp add: bfree_def Let_def used_in_def)
  then show ?thesis using w by blast
qed

text \<open>Freeing a block that is free stops the machine.\<close>

lemma bfree_free:
  assumes r: "balloc_ready p s h" "room s h 0" and b: "unat b < fs_size s" "\<not> used s (unat b)"
  shows "bfree ROOTDEV b s = Panic ''freeing free block''"
proof -
  let ?m = "BBLOCK (unat b) (fs_sb s)"
  have o: "op p s h" using r(1) by (simp add: balloc_ready_def)
  obtain i t u where "bread ROOTDEV ?m s = Ret i t" "get_data i t = Ret (blk s ?m) t"
    by (rule read_ok [OF o bitmap_block(1) [OF r(1) b(1)] r(2)])
  then show ?thesis using b(2) by (simp add: bfree_def Let_def used_in_def kpanic_def)
qed

lemma balloc_ok:
  assumes "balloc_ready p s h" "room s h 2" and b: "find (\<lambda>b. \<not> used s b) [0..<fs_size s] = Some b"
  shows "\<exists>t. balloc ROOTDEV s = Ret (of_nat b) t \<and> op p t h \<and> blk t = balloc_view b s
    \<and> logset t = {of_nat b, BBLOCK b (fs_sb s)} \<union> logset s \<and> same s t \<and> room t h 0"
  using balloc_loop_Some [OF assms(1,2) bitmap_starts_ok] b unfolding balloc_def candidates_all by (simp add: fs_size_def)

text \<open>C26: \<open>balloc\<close> returns the least block whose bit is clear, below the size of the
  file system; it sets that bit and no other, zeroes the block, changes no other block
  of the disk and writes nothing through; \<open>bfree\<close> then restores the free map.  When
  every block is in use it returns 0 and prints its message.\<close>

theorem balloc_correct:
  assumes "balloc_ready p s h" and "room s h 3"
  shows "case find (\<lambda>b. \<not> used s b) [0..<fs_size s] of
      Some b \<Rightarrow> b < fs_size s \<and> (\<forall>a < b. used s a) \<and>
        (\<exists>t. balloc ROOTDEV s = Ret (of_nat b) t \<and> op p t h
           \<and> (\<forall>a < fs_size s. used t a \<longleftrightarrow> a = b \<or> used s a) \<and> (\<forall>i < BSIZE. blk t (of_nat b) i = 0)
           \<and> (\<forall>c. c \<notin> bitmap_blocks (fs_sb s) \<longrightarrow> c \<noteq> of_nat b \<longrightarrow> blk t c = blk s c) \<and> disk t = disk s
           \<and> (\<exists>u. bfree ROOTDEV (of_nat b) t = Ret () u \<and> op p u h \<and> (\<forall>a < fs_size s. used u a = used s a)))
    | None \<Rightarrow> (\<forall>a < fs_size s. used s a) \<and>
        (\<exists>t. balloc ROOTDEV s = Ret 0 t \<and> op p t h \<and> blk t = blk s \<and> uart_out t = uart_out s @ no_blocks_msg)"
proof (cases "find (\<lambda>b. \<not> used s b) [0..<fs_size s]")
  case None
  have "room s h 0" using assms(2) room_less by blast
  from balloc_loop_None [OF assms(1) this bitmap_starts_ok] None obtain t where
    t: "balloc ROOTDEV s = Ret 0 (t\<lparr>uart_out := uart_out s @ no_blocks_msg\<rparr>)" "op p t h" "blk t = blk s"
    by (auto simp: balloc_def candidates_all fs_size_def)
  have "used s a" if "a < fs_size s" for a using None that by (auto simp: find_None_iff)
  then show ?thesis using None t by auto
next
  case (Some b)
  have b: "b < fs_size s" "\<not> used s b" "\<And>a. a < b \<Longrightarrow> used s a"
    using Some by (auto simp: find_Some_iff)
  note f = free_block [OF assms(1) b(1,2)] and m = bitmap_block [OF assms(1) b(1)]
  have r2: "room s h 2" using assms(2) room_less [of s h 3 2] by simp
  obtain t where t: "balloc ROOTDEV s = Ret (of_nat b) t" "op p t h" "blk t = balloc_view b s"
      "logset t = {of_nat b, BBLOCK b (fs_sb s)} \<union> logset s" "same s t"
    using balloc_ok [OF assms(1) r2 Some] by blast
  have rt: "room t h (Suc 0)"
  proof -
    have "logset t \<union> ran h = insert (of_nat b) (insert (BBLOCK b (fs_sb s)) (logset s \<union> ran h))" using t(4) by auto
    then show ?thesis using assms(2) by (auto simp: room_def card_insert_if)
  qed
  have ft: "fs_sb t = fs_sb s" "fs_size t = fs_size s" using same_fs [OF t(5)] by (simp_all add: fs_size_def)
  have ut: "used t a \<longleftrightarrow> a = b \<or> used s a" if "a < fs_size s" for a
    using balloc_used [OF assms(1) b(1,2) that] t(3) ft by simp
  have ready: "balloc_ready p t h" by (rule ready_more [OF assms(1) t(2,5)]) (simp add: ut)
  have b': "unat (of_nat b :: u32) = b" by (rule f(4))
  let ?m = "BBLOCK b (fs_sb s)"
  obtain u where u: "bfree ROOTDEV (of_nat b) t = Ret () u" "op p u h" "blk u = (blk t)(?m := clear_bit (b mod BPB) (blk t ?m))" "same t u"
    using bfree_ok [OF ready rt, of "of_nat b"] b(1) ut [OF b(1)] ft b' by auto
  have "used u a = used s a" if a: "a < fs_size s" for a
  proof -
    have "used_in (blk u) (fs_sb s) a \<longleftrightarrow> a \<noteq> b \<and> used t a"
      using used_clear [OF a b(1), of "blk u" "blk t"] u(3) ft assms(1) by (simp add: balloc_ready_def)
    then show ?thesis using ut [OF a] b(2) same_fs [OF u(4)] ft by auto
  qed
  moreover have "blk t (of_nat b) i = 0" if "i < BSIZE" for i
    using that by (simp add: t(3) balloc_view_def zero_block_def Let_def)
  moreover have "blk t c = blk s c" if "c \<notin> bitmap_blocks (fs_sb s)" "c \<noteq> of_nat b" for c
    using that m(3) by (auto simp: t(3) balloc_view_def Let_def)
  moreover have "disk t = disk s" using t(5) by (simp add: same_def)
  ultimately show ?thesis using Some b t(1,2) ut u(1,2) by simp
qed

section \<open>A small file system\<close>

text \<open>
  64 blocks: the log at 2, the inodes at 33, the free map at 46, and 48 blocks in use.
\<close>

definition ex_sb :: superblock where
  "ex_sb = \<lparr>sb_magic = FSMAGIC, sb_size = 64, sb_nblocks = 17, sb_ninodes = 200, sb_nlog = 31, sb_logstart = 2,
     sb_inodestart = 33, sb_bmapstart = 46\<rparr>"

definition ex_inode :: inode where
  "ex_inode = \<lparr>i_dev = 0, i_inum = 0, i_ref = 0, i_valid = False, i_type = 0, i_major = 0, i_minor = 0, i_nlink = 0, i_size = 0,
     i_addrs = replicate (NDIRECT + 1) 0\<rparr>"

definition ex_fs :: "(u32 \<Rightarrow> block) \<Rightarrow> fs_st" where
  "ex_fs d = log_st.extend (ex_log d) \<lparr>fs_sb = ex_sb, itable = replicate NINODE ex_inode\<rparr>"

lemma slocks_cache:
  assumes "cache p s B h" "NBUF \<le> length sl" "\<And>i. i < NBUF \<Longrightarrow> sl ! i = slocks s ! i"
  shows "cache p (s\<lparr>slocks := sl\<rparr>) B h"
proof -
  obtain P xs where inv: "bio_inv p s P (dom h) xs" and B: "pblocks (bufs s) P = B"
    and hb: "\<forall>i b. h i = Some b \<longrightarrow> b_blockno (bufs s ! i) = b" using assms(1) by (auto simp: cache_def)
  have "slocks_ok pid (slocks s) H \<Longrightarrow> slocks_ok pid sl H" for pid H using assms(2,3) by (auto simp: slocks_ok_def)
  then have "bio_inv p (s\<lparr>slocks := sl\<rparr>) P (dom h) xs" using inv by (simp add: bio_inv_def)
  then show ?thesis by (rule cacheI) (use B hb in simp_all)
qed

lemma slocks_blk [simp]: "blk (s\<lparr>slocks := sl\<rparr>) = blk s" "blk (s\<lparr>curproc := c\<rparr>) = blk s"
  by (simp_all add: blk_def fun_eq_iff split: option.split)

lemma iinit_ok:
  assumes "NBUF + NINODE \<le> length (slocks s)"
  shows "iinit s = Ret () (s\<lparr>slocks := take NBUF (slocks s) @ replicate NINODE \<lparr>sl_locked = False, sl_pid = 0\<rparr>
    @ drop (NBUF + NINODE) (slocks s)\<rparr>)"
proof -
  let ?u = "\<lparr>sl_locked = False, sl_pid = 0\<rparr>"
  have "NBUF + n \<le> length (slocks s) \<Longrightarrow> kfor (\<lambda>i. initsleeplock (inode_lock i)) [0..<n] s
      = Ret () (s\<lparr>slocks := take NBUF (slocks s) @ replicate n ?u @ drop (NBUF + n) (slocks s)\<rparr>)" for n
  proof (induction n)
    case (Suc n)
    have d: "drop (NBUF + n) (slocks s) = slocks s ! (NBUF + n) # drop (Suc (NBUF + n)) (slocks s)"
      using Suc.prems by (simp add: Cons_nth_drop_Suc)
    have u: "l\<lparr>sl_locked := False, sl_pid := 0\<rparr> = ?u" for l :: sleeplock by simp
    have "(take NBUF (slocks s) @ replicate n ?u @ drop (NBUF + n) (slocks s))[NBUF + n := ?u]
        = take NBUF (slocks s) @ replicate (Suc n) ?u @ drop (NBUF + Suc n) (slocks s)"
      unfolding d using Suc.prems by (simp add: list_update_append min_def replicate_app_Cons_same)
    then show ?case using Suc.IH Suc.prems
      by (simp add: kfor_append initsleeplock_def inode_lock_def kput_def upd_slock_def u)
  qed simp
  then show ?thesis using assms by (simp add: iinit_def)
qed

text \<open>The file system after \<open>binit\<close> and \<open>iinit\<close>, with a transaction begun by process 0.\<close>

lemma ex_fs_boot:
  obtains e :: fs_st where "op 0 e Map.empty" "disk e = d" "blk e = d" "logset e = {}" "fs_sb e = ex_sb"
    "itable e = replicate NINODE ex_inode" "drop NBUF (slocks e) = replicate NINODE \<lparr>sl_locked = False, sl_pid = 0\<rparr>"
    "log_start e = 2" "procs e = ex_procs"
proof (rule binit_ok [of "ex_fs d" 0])
  note defs = ex_fs_def ex_log_def ex_bio_def bio_st.defs log_st.defs
  show "bio_ctx 0 ((ex_fs d)\<lparr>curproc := Some 0\<rparr>)"
    by (simp add: bio_ctx_def defs ex_procs_def zero_proc_def no_plocks_def)
  show "b_dev (bufs (ex_fs d) ! i) = 0 \<and> b_refcnt (bufs (ex_fs d) ! i) = 0" if "i < NBUF" for i
    using that by (simp add: defs zero_buf_def nth_Cons split: nat.split)
  show "length (bufs (ex_fs d)) = Suc NBUF" "NBUF \<le> length (slocks (ex_fs d))" by (simp_all add: defs)
  fix t assume t: "binit (ex_fs d) = Ret () t" "bio_inv 0 (t\<lparr>curproc := Some 0\<rparr>) {} {} (rev [0..<NBUF])"
    "t = (ex_fs d)\<lparr>bufs := bufs t, slocks := slocks t\<rparr>"
  let ?sl = "take NBUF (slocks t) @ replicate NINODE \<lparr>sl_locked = False, sl_pid = 0\<rparr>"
  let ?e = "t\<lparr>curproc := Some 0, slocks := ?sl\<rparr>"
  have n: "NBUF \<le> length (slocks t)" using t(2) by (simp add: bio_inv_def slocks_ok_def)
  have "cache 0 (t\<lparr>curproc := Some 0\<rparr>) {} Map.empty"
    by (rule cacheI [where P = "{}" and xs = "rev [0..<NBUF]"]) (use t(2) in \<open>simp_all add: pblocks_def\<close>)
  then have c: "cache 0 ?e {} Map.empty" by (rule slocks_cache) (use n in \<open>simp_all add: nth_append\<close>)
  have f: "disk t = d" "fs_sb t = ex_sb" "itable t = replicate NINODE ex_inode" "log_start t = 2" "log_dev t = ROOTDEV"
      "log_outstanding t = 1" "lh_n t = 0" "lh_block t = replicate LOGBLOCKS 0" "locks t = []" "panicked t = False" "procs t = ex_procs"
    using arg_cong [OF t(3), of disk] arg_cong [OF t(3), of fs_sb] arg_cong [OF t(3), of itable] arg_cong [OF t(3), of log_start]
      arg_cong [OF t(3), of log_dev] arg_cong [OF t(3), of log_outstanding] arg_cong [OF t(3), of lh_n] arg_cong [OF t(3), of lh_block]
      arg_cong [OF t(3), of locks] arg_cong [OF t(3), of panicked] arg_cong [OF t(3), of procs] by (simp_all add: defs)
  have l: "logset ?e = {}" using f by (simp add: logset_def)
  have "in_op 0 ?e 0 Map.empty" using c f by (simp add: in_op_def)
  then have "op 0 ?e Map.empty" using f l by (auto simp: op_def)
  moreover have "blk ?e = d" using bc.unheld [OF c] f by (simp add: fun_eq_iff)
  ultimately show thesis using that [of ?e] f l n by simp
qed

definition ex_disk :: "u32 \<Rightarrow> block" where
  "ex_disk b i = (if b = 46 then (if i < 6 then 255 else 0) else 7)"

lemma ex_disk_used:
  assumes "fs_sb e = ex_sb" "b < 64"
  shows "used_in ex_disk (fs_sb e) b \<longleftrightarrow> b < 48"
proof -
  have "bit (255 :: u8) n" if "n < 8" for n
    using that bit_mask_iff [of 8 n, where ?'a = u8] by (simp add: mask_eq_exp_minus_1)
  then have "bit (255 :: u8) (b mod 8)" by simp
  moreover have "b div 8 < 6 \<longleftrightarrow> b < 48" by (simp add: div_less_iff_less_mult)
  ultimately show ?thesis
    using assms by (simp add: used_in_def BBLOCK_def BPB_def BSIZE_def bit_set_iff ex_disk_def ex_sb_def)
qed

lemma ex_log_area: "log_start e = 2 \<Longrightarrow> log_area e = of_nat ` {2..<33}"
proof -
  assume "log_start e = 2"
  then have "log_area e = insert 2 ((\<lambda>k. 2 + of_nat k + 1) ` {..<30})"
    by (simp add: log_area_def logblk_def NBUF_LOGBLOCKS)
  also have "(\<lambda>k. 2 + of_nat k + 1 :: u32) ` {..<30} = of_nat ` ((\<lambda>k. k + 3) ` {..<30})" by (simp add: image_image add.commute)
  also have "(\<lambda>k. k + 3) ` {..<30 :: nat} = {3..<33}" using image_add_atLeastLessThan' [of 3 0 30] by (simp add: lessThan_atLeast0 add.commute)
  also have "insert 2 (of_nat ` {3..<33 :: nat}) = (of_nat ` insert 2 {3..<33 :: nat} :: u32 set)" by simp
  also have "insert 2 {3..<33 :: nat} = {2..<33}" by auto
  finally show ?thesis .
qed

lemma ex_layout:
  assumes "fs_sb e = ex_sb" "log_start e = 2" "\<And>b. b < 48 \<Longrightarrow> used e b"
  shows "layout_ok e"
proof -
  have "BBLOCK b (fs_sb e) = 46" if "b < 64" for b
    using assms(1) that by (simp add: BBLOCK_def ex_sb_def BPB_def BSIZE_def)
  then have "bitmap_blocks (fs_sb e) = (\<lambda>_. 46) ` {..<64 :: nat}"
    unfolding bitmap_blocks_def using assms(1) by (intro image_cong) (simp_all add: ex_sb_def)
  then have bb: "bitmap_blocks (fs_sb e) = {46}" by (simp add: image_constant_conv lessThan_empty_iff)
  have la: "\<exists>k. 2 \<le> k \<and> k < 33 \<and> unat b = k" if "b \<in> log_area e" for b
    using that ex_log_area [OF assms(2)] by (auto simp: unat_of_nat)
  have sz: "fs_size e = 64" using assms(1) by (simp add: fs_size_def ex_sb_def)
  have "46 \<notin> log_area e" using la [of 46] by auto
  moreover have "unat b < fs_size e \<and> used e (unat b)" if "b \<in> log_area e" for b
    using la [OF that] assms(3) sz by auto
  moreover have "unat (46 :: u32) < fs_size e \<and> used e (unat (46 :: u32))" using assms(3) sz by simp
  moreover have "(fs_size e + BPB - 1) div BPB + unat (sb_bmapstart (fs_sb e)) \<le> 2 ^ 32"
    using assms(1) sz by (simp add: ex_sb_def BPB_def BSIZE_def)
  ultimately show ?thesis unfolding layout_ok_def bb by blast
qed

theorem balloc_correct_witness:
  "\<exists>(e :: fs_st) t. balloc_ready 0 e Map.empty \<and> room e Map.empty 3 \<and> blk e 48 5 = 7
     \<and> balloc ROOTDEV e = Ret 48 t \<and> used t 48 \<and> blk t 48 5 = 0"
proof -
  obtain e :: fs_st where e: "op 0 e Map.empty" "blk e = ex_disk" "logset e = {}" "fs_sb e = ex_sb" "log_start e = 2"
    by (rule ex_fs_boot)
  have u: "used e b \<longleftrightarrow> b < 48" if "b < 64" for b using ex_disk_used [OF e(4) that] e(2) by simp
  have r: "balloc_ready 0 e Map.empty" "room e Map.empty 3"
    using e ex_layout [OF e(4,5)] u by (simp_all add: balloc_ready_def room_def NBUF_LOGBLOCKS)
  have sz: "fs_size e = 64" using e(4) by (simp add: fs_size_def ex_sb_def)
  have "find (\<lambda>b. \<not> used e b) [0..<fs_size e] = Some 48"
    unfolding find_Some_iff sz by (rule exI [of _ 48]) (simp add: u)
  from balloc_correct [OF r, unfolded this option.case] obtain t where
    "balloc ROOTDEV e = Ret (of_nat 48) t" "\<forall>a < 64. used t a \<longleftrightarrow> a = 48 \<or> used e a" "\<forall>i < BSIZE. blk t (of_nat 48) i = 0"
    unfolding sz by blast
  then show ?thesis using r e(2) by (intro exI [of _ e] exI [of _ t]) (simp add: ex_disk_def BSIZE_def)
qed

end
