(* ===== verification/File.thy ===== *)
theory File
  imports Fs Peterson
begin

text \<open>
  kernel/file.c and the operations of kernel/pipe.c as one process executes them.
  A \<open>struct file\<close> pointer is an index into \<open>ftable\<close>; \<open>pipes\<close> gives the
  \<open>struct pipe\<close> at an address that \<open>pipealloc\<close> has taken from the page allocator.
  The device table is the one that \<open>consoleinit\<close> leaves.  Waiting for the other
  end of a pipe is \<open>yield\<close>, after which the loop goes on with the arguments it has
  reached.
\<close>

section \<open>Data\<close>

datatype ftype = FD_NONE | FD_PIPE | FD_INODE | FD_DEVICE

record kfile =
  f_type :: ftype
  f_ref :: u32
  f_readable :: bool
  f_writable :: bool
  f_pipe :: u64
  f_ip :: "nat option"
  f_off :: u32
  f_major :: u16

record file_st = fs_st +
  ftable :: "kfile list"
  pipes :: "u64 \<Rightarrow> pipe"

definition upd_file :: "nat \<Rightarrow> (kfile \<Rightarrow> kfile) \<Rightarrow> 'z file_st_scheme \<Rightarrow> 'z file_st_scheme" where
  "upd_file i g s = s\<lparr>ftable := (ftable s)[i := g (ftable s ! i)]\<rparr>"

definition upd_pipe :: "u64 \<Rightarrow> (pipe \<Rightarrow> pipe) \<Rightarrow> 'z file_st_scheme \<Rightarrow> 'z file_st_scheme" where
  "upd_pipe pi g s = s\<lparr>pipes := (pipes s)(pi := g (pipes s pi))\<rparr>"

text \<open>An inode pointer that is dereferenced.\<close>

definition deref :: "nat option \<Rightarrow> 's \<Rightarrow> (nat, 's) outcome" where
  "deref p = (case p of None \<Rightarrow> kpanic ''null pointer'' | Some i \<Rightarrow> kret i)"

section \<open>Pipes\<close>

definition pipeclose :: "u64 \<Rightarrow> bool \<Rightarrow> 'z file_st_scheme \<Rightarrow> (unit, 'z file_st_scheme) outcome" where
  "pipeclose pi writable =
     kthen (kacquire (PipeLock pi))
       (kthen (if writable
               then kthen (kput (upd_pipe pi (\<lambda>q. q\<lparr>writeopen := False\<rparr>))) (wakeup (Some (ChPipeRead pi)))
               else kthen (kput (upd_pipe pi (\<lambda>q. q\<lparr>readopen := False\<rparr>))) (wakeup (Some (ChPipeWrite pi))))
          (\<lambda>s. if \<not> readopen (pipes s pi) \<and> \<not> writeopen (pipes s pi)
               then kthen (krelease (PipeLock pi)) (kfree pi) s
               else krelease (PipeLock pi) s))"

definition peterson_enter :: "u64 \<Rightarrow> nat \<Rightarrow> 'z file_st_scheme \<Rightarrow> (unit, 'z file_st_scheme) outcome" where
  "peterson_enter pi me =
     kthen (kput (upd_pipe pi (peterson_request me)))
       (\<lambda>s. if peterson_wait me (pipes s pi) then yield s else Ret () s)"

primrec pipewrite_loop :: "nat \<Rightarrow> u64 \<Rightarrow> u64 \<Rightarrow> nat \<Rightarrow> nat \<Rightarrow> 'z file_st_scheme \<Rightarrow> (int, 'z file_st_scheme) outcome" where
  "pipewrite_loop pr pi addr i 0 = kret (int i)"
| "pipewrite_loop pr pi addr i (Suc k) = (\<lambda>s.
     if \<not> readopen (pipes s pi) then Ret (- 1) s
     else kbind (killed pr) (\<lambda>kl. if kl \<noteq> 0 then kret (- 1) else (\<lambda>s.
       kbind (copyin (p_pagetable (procs s ! pr)) (addr + of_nat i) 1) (\<lambda>(r, ch).
         if r = - 1 then kret (int i)
         else kthen (peterson_enter pi 0) (\<lambda>s.
           if \<not> readopen (pipes s pi) then Ret (- 1) (upd_pipe pi (peterson_exit 0) s)
           else if pipe_full (pipes s pi)
           then kthen (kput (upd_pipe pi (peterson_exit 0))) (kthen yield (kret 0)) s
           else kthen (kput (upd_pipe pi (\<lambda>q. (put_byte (nwrite q) (hd ch) q)\<lparr>nwrite := nwrite q + 1\<rparr>)))
                  (kthen (kput (upd_pipe pi (peterson_exit 0))) (pipewrite_loop pr pi addr (Suc i) k)) s)) s)) s)"

definition pipewrite :: "u64 \<Rightarrow> u64 \<Rightarrow> int \<Rightarrow> 'z file_st_scheme \<Rightarrow> (int, 'z file_st_scheme) outcome" where
  "pipewrite pi addr n = kbind myproc (\<lambda>pr. pipewrite_loop pr pi addr 0 (nat n))"

primrec piperead_loop :: "nat \<Rightarrow> u64 \<Rightarrow> u64 \<Rightarrow> nat \<Rightarrow> nat \<Rightarrow> 'z file_st_scheme \<Rightarrow> (int, 'z file_st_scheme) outcome" where
  "piperead_loop pr pi addr i 0 = kret (int i)"
| "piperead_loop pr pi addr i (Suc k) =
     kbind (killed pr) (\<lambda>kl. if kl \<noteq> 0 then kret (- 1)
       else kthen (peterson_enter pi 1) (\<lambda>s.
         if pipe_empty (pipes s pi)
         then if \<not> writeopen (pipes s pi) then Ret (int i) (upd_pipe pi (peterson_exit 1) s)
              else kthen (kput (upd_pipe pi (peterson_exit 1))) (kthen yield (kret 0)) s
         else let ch = get_byte (nread (pipes s pi)) (pipes s pi) in
           kthen (kput (upd_pipe pi (\<lambda>q. q\<lparr>nread := nread q + 1\<rparr>)))
             (kthen (kput (upd_pipe pi (peterson_exit 1))) (\<lambda>s.
                kbind (copyout (p_pagetable (procs s ! pr)) (addr + of_nat i) [ch]) (\<lambda>r.
                  if r = - 1 then kret (if i = 0 then - 1 else int i)
                  else piperead_loop pr pi addr (Suc i) k) s)) s))"

definition piperead :: "u64 \<Rightarrow> u64 \<Rightarrow> int \<Rightarrow> 'z file_st_scheme \<Rightarrow> (int, 'z file_st_scheme) outcome" where
  "piperead pi addr n = kbind myproc (\<lambda>pr. piperead_loop pr pi addr 0 (nat n))"

section \<open>Files\<close>

definition filealloc :: "'z file_st_scheme \<Rightarrow> (nat option, 'z file_st_scheme) outcome" where
  "filealloc = critical FtableLock (\<lambda>s.
     case find (\<lambda>i. f_ref (ftable s ! i) = 0) [0..<length (ftable s)] of
       None \<Rightarrow> Ret None s
     | Some i \<Rightarrow> Ret (Some i) (upd_file i (\<lambda>f. f\<lparr>f_ref := 1\<rparr>) s))"

definition filedup :: "nat \<Rightarrow> 'z file_st_scheme \<Rightarrow> (nat, 'z file_st_scheme) outcome" where
  "filedup i = critical FtableLock (\<lambda>s.
     if sint (f_ref (ftable s ! i)) < 1 then Panic ''filedup''
     else Ret i (upd_file i (\<lambda>f. f\<lparr>f_ref := f_ref f + 1\<rparr>) s))"

definition fileclose :: "nat \<Rightarrow> 'z file_st_scheme \<Rightarrow> (unit, 'z file_st_scheme) outcome" where
  "fileclose i = kbind (critical FtableLock (\<lambda>s.
       if sint (f_ref (ftable s ! i)) < 1 then Panic ''fileclose''
       else let s1 = upd_file i (\<lambda>f. f\<lparr>f_ref := f_ref f - 1\<rparr>) s in
         if 0 < sint (f_ref (ftable s1 ! i)) then Ret None s1
         else Ret (Some (ftable s1 ! i)) (upd_file i (\<lambda>f. f\<lparr>f_ref := 0, f_type := FD_NONE\<rparr>) s1)))
     (\<lambda>r. case r of
        None \<Rightarrow> kret ()
      | Some ff \<Rightarrow>
          if f_type ff = FD_PIPE then pipeclose (f_pipe ff) (f_writable ff)
          else if f_type ff = FD_INODE \<or> f_type ff = FD_DEVICE
          then kthen begin_op (kthen (kbind (deref (f_ip ff)) iput) end_op)
          else kret ())"

text \<open>The bytes of a \<open>struct stat\<close>; \<open>pad\<close> is what the stack held in its padding.\<close>

definition stat_bytes :: "bytes \<Rightarrow> stat \<Rightarrow> bytes" where
  "stat_bytes pad st =
     map (store64 (store16 (store16 (store32 (store32 (\<lambda>i :: nat. pad ! (i - 12)) 0 (st_dev st)) 4 (st_ino st)) 8 (st_type st))
       10 (st_nlink st)) 16 (st_size st)) [0..<24]"

definition filestat :: "bytes \<Rightarrow> nat \<Rightarrow> u64 \<Rightarrow> 'z file_st_scheme \<Rightarrow> (int, 'z file_st_scheme) outcome" where
  "filestat pad i addr = kbind myproc (\<lambda>p s.
     let f = ftable s ! i in
     if f_type f = FD_INODE \<or> f_type f = FD_DEVICE
     then kthen (ilock (f_ip f)) (kbind (deref (f_ip f)) (\<lambda>ip. kbind (stati ip) (\<lambda>st.
            kthen (iunlock (f_ip f)) (\<lambda>s.
              kbind (copyout (p_pagetable (procs s ! p)) addr (stat_bytes pad st)) (\<lambda>r. kret (if r < 0 then - 1 else 0)) s)))) s
     else Ret (- 1) s)"

text \<open>\<open>devsw[major].read\<close> and \<open>devsw[major].write\<close>; only the console is in the table.\<close>

definition CONSOLE :: nat where "CONSOLE = 1"

definition devsw_read :: "u16 \<Rightarrow> (bool \<Rightarrow> u64 \<Rightarrow> int \<Rightarrow> 'z file_st_scheme \<Rightarrow> (int, 'z file_st_scheme) outcome) option" where
  "devsw_read major = (if sint major < 0 \<or> NDEV \<le> sint major then None
     else if sint major = int CONSOLE then Some consoleread else None)"

definition devsw_write :: "u16 \<Rightarrow> (bool \<Rightarrow> u64 \<Rightarrow> int \<Rightarrow> 'z file_st_scheme \<Rightarrow> (int, 'z file_st_scheme) outcome) option" where
  "devsw_write major = (if sint major < 0 \<or> NDEV \<le> sint major then None
     else if sint major = int CONSOLE then Some consolewrite else None)"

definition advance :: "nat \<Rightarrow> int \<Rightarrow> 'z file_st_scheme \<Rightarrow> (unit, 'z file_st_scheme) outcome" where
  "advance i r = (if 0 < r then kput (upd_file i (\<lambda>f. f\<lparr>f_off := f_off f + of_int r\<rparr>)) else kret ())"

definition fileread :: "nat \<Rightarrow> u64 \<Rightarrow> int \<Rightarrow> 'z file_st_scheme \<Rightarrow> (int, 'z file_st_scheme) outcome" where
  "fileread i addr n s =
     (let f = ftable s ! i in
      if \<not> f_readable f then Ret (- 1) s
      else case f_type f of
        FD_PIPE \<Rightarrow> piperead (f_pipe f) addr n s
      | FD_DEVICE \<Rightarrow> (case devsw_read (f_major f) of None \<Rightarrow> Ret (- 1) s | Some rd \<Rightarrow> rd True addr n s)
      | FD_INODE \<Rightarrow>
          kthen (ilock (f_ip f)) (kbind (deref (f_ip f)) (\<lambda>ip s.
            kbind (readi ip True addr (f_off (ftable s ! i)) (of_int n)) (\<lambda>r.
              kthen (advance i r) (kthen (iunlock (f_ip f)) (kret r))) s)) s
      | FD_NONE \<Rightarrow> Panic ''fileread'')"

definition WRITE_MAX :: nat where "WRITE_MAX = ((MAXOPBLOCKS - 1 - 1 - 2) div 2) * BSIZE"

lemma WRITE_MAX_pos: "0 < WRITE_MAX"
  by (simp add: WRITE_MAX_def MAXOPBLOCKS_def BSIZE_def)

function filewrite_loop :: "nat \<Rightarrow> nat option \<Rightarrow> u64 \<Rightarrow> nat \<Rightarrow> nat \<Rightarrow> 'z file_st_scheme \<Rightarrow> (nat, 'z file_st_scheme) outcome" where
  "filewrite_loop i fip addr n k =
     (if k < n
      then let n1 = min (n - k) WRITE_MAX in
        kthen begin_op (kthen (ilock fip) (kbind (deref fip) (\<lambda>ip s.
          kbind (writei ip True (addr + of_nat k) (f_off (ftable s ! i)) (of_nat n1)) (\<lambda>r.
            kthen (advance i r) (kthen (iunlock fip) (kthen end_op
              (if r \<noteq> int n1 then kret k else filewrite_loop i fip addr n (k + n1))))) s)))
      else kret k)"
  by pat_completeness auto
termination
  by (relation "measure (\<lambda>(i, fip, addr, n, k). n - k)") (use WRITE_MAX_pos in \<open>auto simp: min_def\<close>)

declare filewrite_loop.simps [simp del]

definition filewrite :: "nat \<Rightarrow> u64 \<Rightarrow> int \<Rightarrow> 'z file_st_scheme \<Rightarrow> (int, 'z file_st_scheme) outcome" where
  "filewrite i addr n s =
     (let f = ftable s ! i in
      if \<not> f_writable f then Ret (- 1) s
      else case f_type f of
        FD_PIPE \<Rightarrow> pipewrite (f_pipe f) addr n s
      | FD_DEVICE \<Rightarrow> (case devsw_write (f_major f) of None \<Rightarrow> Ret (- 1) s | Some wr \<Rightarrow> wr True addr n s)
      | FD_INODE \<Rightarrow> kbind (filewrite_loop i (f_ip f) addr (nat n) 0) (\<lambda>k. kret (if int k = n then n else - 1)) s
      | FD_NONE \<Rightarrow> Panic ''filewrite'')"

section \<open>Making a pipe\<close>

definition close_opt :: "nat option \<Rightarrow> 'z file_st_scheme \<Rightarrow> (unit, 'z file_st_scheme) outcome" where
  "close_opt f = (case f of None \<Rightarrow> kret () | Some i \<Rightarrow> fileclose i)"

text \<open>The label \<open>bad\<close>; the page is never allocated there, since no step after \<open>kalloc\<close> fails.\<close>

definition pipe_bad :: "nat option \<Rightarrow> nat option \<Rightarrow> 'z file_st_scheme \<Rightarrow> ((nat \<times> nat) option, 'z file_st_scheme) outcome" where
  "pipe_bad f0 f1 = kthen (close_opt f0) (kthen (close_opt f1) (kret None))"

definition pipe_end :: "nat \<Rightarrow> bool \<Rightarrow> u64 \<Rightarrow> 'z file_st_scheme \<Rightarrow> (unit, 'z file_st_scheme) outcome" where
  "pipe_end i wr pi = kput (upd_file i (\<lambda>f. f\<lparr>f_type := FD_PIPE, f_readable := \<not> wr, f_writable := wr, f_pipe := pi\<rparr>))"

text \<open>The two files, or \<open>None\<close> for -1.  The bytes of \<open>data\<close>, at offset 24 of the page, are not initialised.\<close>

definition pipealloc :: "'z file_st_scheme \<Rightarrow> ((nat \<times> nat) option, 'z file_st_scheme) outcome" where
  "pipealloc = kbind filealloc (\<lambda>f0.
     case f0 of None \<Rightarrow> pipe_bad None None | Some i0 \<Rightarrow>
       kbind filealloc (\<lambda>f1. case f1 of None \<Rightarrow> pipe_bad f0 None | Some i1 \<Rightarrow>
         kbind kalloc (\<lambda>pi.
           if pi = 0 then pipe_bad f0 f1
           else kthen (kput (\<lambda>s. upd_pipe pi (\<lambda>_. pipe_init (get_bytes (pi + 24) PIPESIZE (pmem s))) s))
                  (kthen (pipe_end i0 False pi) (kthen (pipe_end i1 True pi) (kret (Some (i0, i1))))))))"

end
