(* ===== verification/Life.thy ===== *)
theory Life
  imports File Sched
begin

text \<open>
  The life of a process: the parts of kernel/proc.c that need page tables, files
  and inodes.  \<open>ksyms\<close> holds the addresses that the linker gives to the symbols
  the C code takes the address of, and \<open>forkret_first\<close> is the static variable
  \<open>first\<close> of \<open>forkret\<close>.
\<close>

section \<open>Data\<close>

record symbols =
  sym_trampoline :: u64
  sym_uservec :: u64
  sym_userret :: u64
  sym_kernelvec :: u64
  sym_usertrap :: u64
  sym_forkret :: u64
  sym_etext :: u64

record life_st = file_st +
  ksyms :: symbols
  forkret_first :: bool
  kernel_pagetable :: u64

text \<open>The size of a trapframe and the offsets of the registers the kernel accesses.\<close>

definition TF_SIZE :: nat where "TF_SIZE = 288"
definition TF_EPC :: u64 where "TF_EPC = 24"
definition TF_SP :: u64 where "TF_SP = 48"
definition TF_A0 :: u64 where "TF_A0 = 112"
definition TF_A1 :: u64 where "TF_A1 = 120"
definition TF_A7 :: u64 where "TF_A7 = 168"

definition set_tf :: "nat \<Rightarrow> u64 \<Rightarrow> u64 \<Rightarrow> 'z proc_st_scheme \<Rightarrow> (unit, 'z proc_st_scheme) outcome" where
  "set_tf p off v = kput (\<lambda>s. s\<lparr>pmem := store64 (pmem s) (p_trapframe (procs s ! p) + off) v\<rparr>)"

definition get_tf :: "nat \<Rightarrow> u64 \<Rightarrow> 'z proc_st_scheme \<Rightarrow> (u64, 'z proc_st_scheme) outcome" where
  "get_tf p off = kget (\<lambda>s. load64 (pmem s) (p_trapframe (procs s ! p) + off))"

section \<open>Page tables of processes\<close>

definition proc_mapstacks :: "u64 \<Rightarrow> 'z proc_st_scheme \<Rightarrow> (unit, 'z proc_st_scheme) outcome" where
  "proc_mapstacks kpgtbl = kfor (\<lambda>i. kbind kalloc (\<lambda>pa.
     if pa = 0 then kpanic ''kalloc''
     else kvmmap kpgtbl (KSTACK i) pa PGSIZE (PTE_R OR PTE_W))) [0..<NPROC]"

text \<open>The page table of the kernel, which maps memory and devices to themselves.\<close>

definition kvmmake :: "'z life_st_scheme \<Rightarrow> (u64, 'z life_st_scheme) outcome" where
  "kvmmake s = (let etext = sym_etext (ksyms s) in
     kbind kalloc (\<lambda>kpgtbl.
       kthen (kput (\<lambda>s. s\<lparr>pmem := memset (pmem s) kpgtbl 0 (ucast PGSIZE)\<rparr>))
         (kthen (kvmmap kpgtbl UART0 UART0 PGSIZE (PTE_R OR PTE_W))
           (kthen (kvmmap kpgtbl VIRTIO0 VIRTIO0 PGSIZE (PTE_R OR PTE_W))
             (kthen (kvmmap kpgtbl PLIC PLIC 0x4000000 (PTE_R OR PTE_W))
               (kthen (kvmmap kpgtbl KERNBASE KERNBASE (etext - KERNBASE) (PTE_R OR PTE_X))
                 (kthen (kvmmap kpgtbl etext etext (PHYSTOP - etext) (PTE_R OR PTE_W))
                   (kthen (kvmmap kpgtbl TRAMPOLINE (sym_trampoline (ksyms s)) PGSIZE (PTE_R OR PTE_X))
                     (kthen (proc_mapstacks kpgtbl) (kret kpgtbl))))))))) s)"

definition kvminit :: "'z life_st_scheme \<Rightarrow> (unit, 'z life_st_scheme) outcome" where
  "kvminit = kbind kvmmake (\<lambda>pt. kput (\<lambda>s. s\<lparr>kernel_pagetable := pt\<rparr>))"

definition proc_pagetable :: "nat \<Rightarrow> 'z life_st_scheme \<Rightarrow> (u64, 'z life_st_scheme) outcome" where
  "proc_pagetable p = kbind uvmcreate (\<lambda>pagetable s.
     if pagetable = 0 then Ret 0 s
     else kbind (mappages pagetable TRAMPOLINE PGSIZE (sym_trampoline (ksyms s)) (PTE_R OR PTE_X)) (\<lambda>r s.
       if r < 0 then kthen (uvmfree pagetable 0) (kret 0) s
       else kbind (mappages pagetable TRAPFRAME PGSIZE (p_trapframe (procs s ! p)) (PTE_R OR PTE_W)) (\<lambda>r.
         if r < 0 then kthen (uvmunmap pagetable TRAMPOLINE 1 False) (kthen (uvmfree pagetable 0) (kret 0))
         else kret pagetable) s) s)"

definition proc_freepagetable :: "u64 \<Rightarrow> u64 \<Rightarrow> 'z kmem_st_scheme \<Rightarrow> (unit, 'z kmem_st_scheme) outcome" where
  "proc_freepagetable pagetable sz =
     kthen (uvmunmap pagetable TRAMPOLINE 1 False)
       (kthen (uvmunmap pagetable TRAPFRAME 1 False) (uvmfree pagetable sz))"

section \<open>Allocating and freeing processes\<close>

definition freeproc :: "nat \<Rightarrow> 'z proc_st_scheme \<Rightarrow> (unit, 'z proc_st_scheme) outcome" where
  "freeproc i =
     kthen (\<lambda>s. if p_trapframe (procs s ! i) \<noteq> 0 then kfree (p_trapframe (procs s ! i)) s else Ret () s)
       (kthen (kput (upd_proc i (\<lambda>p. p\<lparr>p_trapframe := 0\<rparr>)))
          (kthen (\<lambda>s. if p_pagetable (procs s ! i) \<noteq> 0
                      then proc_freepagetable (p_pagetable (procs s ! i)) (p_sz (procs s ! i)) s else Ret () s)
             (kput (upd_proc i clear_proc))))"

text \<open>The search for a slot, which is returned with its lock held.\<close>

primrec allocproc_find :: "nat list \<Rightarrow> 'z proc_st_scheme \<Rightarrow> (nat option, 'z proc_st_scheme) outcome" where
  "allocproc_find [] = kret None"
| "allocproc_find (i # is) = kthen (kacquire (ProcLock i)) (\<lambda>s.
     if p_state (procs s ! i) = UNUSED then Ret (Some i) s
     else kthen (krelease (ProcLock i)) (allocproc_find is) s)"

definition alloc_failed :: "nat \<Rightarrow> 'z proc_st_scheme \<Rightarrow> (nat option, 'z proc_st_scheme) outcome" where
  "alloc_failed i = kthen (freeproc i) (kthen (krelease (ProcLock i)) (kret None))"

definition allocproc :: "'z life_st_scheme \<Rightarrow> (nat option, 'z life_st_scheme) outcome" where
  "allocproc s = kbind (allocproc_find [0..<length (procs s)]) (\<lambda>r.
     case r of None \<Rightarrow> kret None | Some i \<Rightarrow>
       kbind allocpid (\<lambda>pid.
         kthen (kput (upd_proc i (found_proc pid)))
           (kbind kalloc (\<lambda>tf.
              kthen (kput (upd_proc i (\<lambda>p. p\<lparr>p_trapframe := tf\<rparr>)))
                (if tf = 0 then alloc_failed i
                 else kbind (proc_pagetable i) (\<lambda>pt.
                   kthen (kput (upd_proc i (\<lambda>p. p\<lparr>p_pagetable := pt\<rparr>)))
                     (if pt = 0 then alloc_failed i
                      else kthen (kput (\<lambda>s. upd_proc i (\<lambda>p. p\<lparr>p_context := \<lparr>c_ra = sym_forkret (ksyms s),
                                    c_sp = p_kstack p + PGSIZE, c_s = replicate 12 0\<rparr>\<rparr>) s))
                             (kret (Some i)))))))) ) s"

definition userinit :: "'z life_st_scheme \<Rightarrow> (unit, 'z life_st_scheme) outcome" where
  "userinit = kbind allocproc (\<lambda>r.
     kthen (kput (\<lambda>s. s\<lparr>initproc := r\<rparr>))
       (case r of None \<Rightarrow> kpanic ''null pointer'' | Some p \<Rightarrow>
          kbind (namei [SLASH]) (\<lambda>ip.
            kthen (kput (upd_proc p (\<lambda>q. q\<lparr>p_cwd := ip\<rparr>)))
              (kthen (kput (upd_proc p (\<lambda>q. q\<lparr>p_state := RUNNABLE\<rparr>))) (krelease (ProcLock p))))))"

definition growproc :: "u32 \<Rightarrow> 'z proc_st_scheme \<Rightarrow> (int, 'z proc_st_scheme) outcome" where
  "growproc n = kbind myproc (\<lambda>p s.
     let q = procs s ! p; sz = p_sz q; newsz = sz + scast n;
         set_sz = (\<lambda>sz. kthen (kput (upd_proc p (\<lambda>q. q\<lparr>p_sz := sz\<rparr>))) (kret 0)) in
     if 0 < sint n
     then if newsz > TRAPFRAME then Ret (- 1) s
          else kbind (uvmalloc (p_pagetable q) sz newsz PTE_W) (\<lambda>sz. if sz = 0 then kret (- 1) else set_sz sz) s
     else if sint n < 0 then kbind (uvmdealloc (p_pagetable q) sz newsz) set_sz s
     else set_sz sz s)"

section \<open>fork, exit and wait\<close>

text \<open>\<open>safestrcpy(np->name, p->name, sizeof(p->name))\<close> on arrays of 16 bytes.\<close>

definition copy_name :: "bytes \<Rightarrow> bytes \<Rightarrow> bytes" where
  "copy_name old new = (let n = take 15 (cstr_of new) @ [0] in n @ drop (length n) old)"

definition fork_files :: "nat \<Rightarrow> nat \<Rightarrow> 'z life_st_scheme \<Rightarrow> (unit, 'z life_st_scheme) outcome" where
  "fork_files p np = kfor (\<lambda>i s.
     case p_ofile (procs s ! p) ! i of
       None \<Rightarrow> Ret () s
     | Some f \<Rightarrow> kbind (filedup f) (\<lambda>f. kput (upd_proc np (\<lambda>q. q\<lparr>p_ofile := (p_ofile q)[i := Some f]\<rparr>))) s) [0..<NOFILE]"

definition kfork :: "'z life_st_scheme \<Rightarrow> (int, 'z life_st_scheme) outcome" where
  "kfork = kbind myproc (\<lambda>p. kbind allocproc (\<lambda>r.
     case r of None \<Rightarrow> kret (- 1) | Some np \<Rightarrow> (\<lambda>s.
       kbind (uvmcopy (p_pagetable (procs s ! p)) (p_pagetable (procs s ! np)) (p_sz (procs s ! p))) (\<lambda>r.
         if r < 0 then kthen (freeproc np) (kthen (krelease (ProcLock np)) (kret (- 1)))
         else kthen (kput (\<lambda>s. upd_proc np (\<lambda>q. q\<lparr>p_sz := p_sz (procs s ! p)\<rparr>) s))
           (kthen (kput (\<lambda>s. s\<lparr>pmem := memmove (pmem s) (p_trapframe (procs s ! np)) (p_trapframe (procs s ! p)) (of_nat TF_SIZE)\<rparr>))
             (kthen (set_tf np TF_A0 0)
               (kthen (fork_files p np)
                 (kthen (\<lambda>s. kbind (kbind (deref (p_cwd (procs s ! p))) idup)
                               (\<lambda>ip. kput (upd_proc np (\<lambda>q. q\<lparr>p_cwd := Some ip\<rparr>))) s)
                   (kthen (kput (\<lambda>s. upd_proc np (\<lambda>q. q\<lparr>p_name := copy_name (p_name q) (p_name (procs s ! p))\<rparr>) s))
                     (\<lambda>s. let pid = p_pid (procs s ! np) in
                       kthen (krelease (ProcLock np))
                         (kthen (critical WaitLock (kput (upd_proc np (\<lambda>q. q\<lparr>p_parent := Some p\<rparr>))))
                           (kthen (critical (ProcLock np) (kput (upd_proc np (\<lambda>q. q\<lparr>p_state := RUNNABLE\<rparr>))))
                             (kret (sint pid)))) s))))))) s)))"

definition exit_files :: "nat \<Rightarrow> 'z life_st_scheme \<Rightarrow> (unit, 'z life_st_scheme) outcome" where
  "exit_files p = kfor (\<lambda>fd s.
     case p_ofile (procs s ! p) ! fd of
       None \<Rightarrow> Ret () s
     | Some f \<Rightarrow> kthen (fileclose f) (kput (upd_proc p (\<lambda>q. q\<lparr>p_ofile := (p_ofile q)[fd := None]\<rparr>))) s) [0..<NOFILE]"

text \<open>The second half of \<open>kexit\<close>, from \<open>acquire(&wait_lock)\<close> on.\<close>

definition exit_zombie :: "nat \<Rightarrow> u32 \<Rightarrow> 'z proc_st_scheme \<Rightarrow> ('a, 'z proc_st_scheme) outcome" where
  "exit_zombie p status =
     kthen (kacquire WaitLock)
       (kthen (reparent p)
         (kthen (\<lambda>s. wakeup (map_option ChProc (p_parent (procs s ! p))) s)
           (kthen (kacquire (ProcLock p))
             (kthen (kput (upd_proc p (\<lambda>q. q\<lparr>p_xstate := status\<rparr>)))
               (kthen (kput (upd_proc p (\<lambda>q. q\<lparr>p_state := ZOMBIE\<rparr>)))
                 (kthen (krelease WaitLock) (kthen sched (kpanic ''zombie exit''))))))))"

definition kexit :: "u32 \<Rightarrow> 'z life_st_scheme \<Rightarrow> ('a, 'z life_st_scheme) outcome" where
  "kexit status = kbind myproc (\<lambda>p s.
     if Some p = initproc s then Panic ''init exiting''
     else kthen (exit_files p)
       (kthen begin_op
         (kthen (\<lambda>s. kbind (deref (p_cwd (procs s ! p))) iput s)
           (kthen end_op
             (kthen (kput (upd_proc p (\<lambda>q. q\<lparr>p_cwd := None\<rparr>))) (exit_zombie p status))))) s)"

text \<open>
  One scan of the table by \<open>kwait\<close>: the result to return, with both locks
  released, or whether there are children.
\<close>

definition le32 :: "u32 \<Rightarrow> bytes" where
  "le32 x = map (store32 (\<lambda>_ :: nat. 0) 0 x) [0..<4]"

primrec kwait_scan :: "nat \<Rightarrow> u64 \<Rightarrow> nat list \<Rightarrow> bool \<Rightarrow> 'z proc_st_scheme \<Rightarrow> (int + bool, 'z proc_st_scheme) outcome" where
  "kwait_scan p addr [] havekids = kret (Inr havekids)"
| "kwait_scan p addr (kid # kids) havekids = (\<lambda>s.
     if p_parent (procs s ! kid) \<noteq> Some p then kwait_scan p addr kids havekids s
     else kthen (kacquire (ProcLock kid)) (\<lambda>s.
       let q = procs s ! kid in
       if p_state q = ZOMBIE
       then kthen (printf (''schedstats: pid=%d waiting_tick=%d'' @ [NL]) [PNum (scast (p_pid q)), PNum (scast (p_waiting_tick q))])
              (kbind (if addr \<noteq> 0 then (\<lambda>s. copyout (p_pagetable (procs s ! p)) addr (le32 (p_xstate q)) s) else kret 0) (\<lambda>r.
                if r < 0 then kthen (krelease (ProcLock kid)) (kthen (krelease WaitLock) (kret (Inl (- 1))))
                else kthen (freeproc kid) (kthen (krelease (ProcLock kid)) (kthen (krelease WaitLock)
                  (kret (Inl (sint (p_pid q)))))))) s
       else kthen (krelease (ProcLock kid)) (kwait_scan p addr kids True) s) s)"

definition kwait :: "u64 \<Rightarrow> 'z proc_st_scheme \<Rightarrow> (int, 'z proc_st_scheme) outcome" where
  "kwait addr = kbind myproc (\<lambda>p. kthen (kacquire WaitLock) (\<lambda>s.
     kbind (kwait_scan p addr [0..<length (procs s)] False) (\<lambda>r.
       case r of
         Inl v \<Rightarrow> kret v
       | Inr havekids \<Rightarrow>
           kbind (if \<not> havekids then kret True else kbind (killed p) (\<lambda>k. kret (k \<noteq> 0))) (\<lambda>stop.
             if stop then kthen (krelease WaitLock) (kret (- 1))
             else kthen (sleep (ChProc p) WaitLock) (kret 0))) s))"

end
