(* ===== verification/Exec.thy ===== *)
theory Exec
  imports Life
begin

text \<open>
  kernel/exec.c: loading an ELF file and building the stack of a new program, and
  the start of a process in \<open>forkret\<close>.  Of the two ELF headers the fields that
  \<open>kexec\<close> reads are decoded from their bytes.  The strings of \<open>argv\<close> are the
  elements of a list, which ends where the source has a null pointer.
\<close>

section \<open>ELF\<close>

definition ELF_MAGIC :: u32 where "ELF_MAGIC = 0x464C457F"
definition ELF_PROG_LOAD :: u32 where "ELF_PROG_LOAD = 1"
definition ELFHDR_SIZE :: nat where "ELFHDR_SIZE = 64"
definition PROGHDR_SIZE :: nat where "PROGHDR_SIZE = 56"

record elfhdr =
  e_magic :: u32
  e_entry :: u64
  e_phoff :: u64
  e_phnum :: u16

record proghdr =
  ph_type :: u32
  ph_flags :: u32
  ph_off :: u64
  ph_vaddr :: u64
  ph_filesz :: u64
  ph_memsz :: u64

definition dec_elf :: "bytes \<Rightarrow> elfhdr" where
  "dec_elf bs = (let m = (\<lambda>i :: nat. bs ! i) in
     \<lparr>e_magic = load32 m 0, e_entry = load64 m 24, e_phoff = load64 m 32, e_phnum = load16 m 56\<rparr>)"

definition dec_ph :: "bytes \<Rightarrow> proghdr" where
  "dec_ph bs = (let m = (\<lambda>i :: nat. bs ! i) in
     \<lparr>ph_type = load32 m 0, ph_flags = load32 m 4, ph_off = load64 m 8, ph_vaddr = load64 m 16,
      ph_filesz = load64 m 32, ph_memsz = load64 m 40\<rparr>)"

definition flags2perm :: "u32 \<Rightarrow> u64" where
  "flags2perm flags =
     (let perm = (if flags AND 1 \<noteq> 0 then PTE_X else 0)
      in if flags AND 2 \<noteq> 0 then perm OR PTE_W else perm)"

section \<open>Loading\<close>

definition page_offsets :: "u32 \<Rightarrow> nat list" where
  "page_offsets sz = map (\<lambda>k. k * 4096) [0..<(unat sz + 4095) div 4096]"

primrec loadseg_loop :: "u64 \<Rightarrow> u64 \<Rightarrow> nat \<Rightarrow> u32 \<Rightarrow> u32 \<Rightarrow> nat list \<Rightarrow> 'z fs_st_scheme \<Rightarrow> (int, 'z fs_st_scheme) outcome" where
  "loadseg_loop pagetable va ip offset sz [] = kret 0"
| "loadseg_loop pagetable va ip offset sz (i # is) =
     kbind (walkaddr pagetable (va + of_nat i)) (\<lambda>pa.
       if pa = 0 then kpanic ''loadseg: address should exist''
       else let n = min (unat sz - i) 4096 in
         kbind (readi ip False pa (offset + of_nat i) (of_nat n)) (\<lambda>r.
           if r \<noteq> int n then kret (- 1) else loadseg_loop pagetable va ip offset sz is))"

definition loadseg :: "u64 \<Rightarrow> u64 \<Rightarrow> nat \<Rightarrow> u32 \<Rightarrow> u32 \<Rightarrow> 'z fs_st_scheme \<Rightarrow> (int, 'z fs_st_scheme) outcome" where
  "loadseg pagetable va ip offset sz = loadseg_loop pagetable va ip offset sz (page_offsets sz)"

text \<open>
  The loop over the program headers with \<open>n\<close> of them left: whether it ended
  without \<open>goto bad\<close>, and the value of \<open>sz\<close>.
\<close>

primrec load_segments :: "u64 \<Rightarrow> nat \<Rightarrow> nat \<Rightarrow> u32 \<Rightarrow> u64 \<Rightarrow> 'z fs_st_scheme \<Rightarrow> (bool \<times> u64, 'z fs_st_scheme) outcome" where
  "load_segments pagetable ip 0 off sz = kret (True, sz)"
| "load_segments pagetable ip (Suc n) off sz =
     kbind (readi_local ip off (of_nat PROGHDR_SIZE)) (\<lambda>(r, bs).
       let ph = dec_ph bs; next' = load_segments pagetable ip n (off + of_nat PROGHDR_SIZE) in
       if r \<noteq> int PROGHDR_SIZE then kret (False, sz)
       else if ph_type ph \<noteq> ELF_PROG_LOAD then next' sz
       else if ph_memsz ph < ph_filesz ph then kret (False, sz)
       else if ph_vaddr ph + ph_memsz ph < ph_vaddr ph then kret (False, sz)
       else if ph_vaddr ph mod PGSIZE \<noteq> 0 then kret (False, sz)
       else kbind (uvmalloc pagetable sz (ph_vaddr ph + ph_memsz ph) (flags2perm (ph_flags ph))) (\<lambda>sz1.
         if sz1 = 0 then kret (False, sz)
         else kbind (loadseg pagetable (ph_vaddr ph) ip (ucast (ph_off ph)) (ucast (ph_filesz ph))) (\<lambda>r.
           if r < 0 then kret (False, sz1) else next' sz1)))"

section \<open>The stack\<close>

definition align16 :: "u64 \<Rightarrow> u64" where
  "align16 sp = sp - sp mod 16"

definition le64 :: "u64 \<Rightarrow> bytes" where
  "le64 x = map (store64 (\<lambda>_ :: nat. 0) 0 x) [0..<8]"

text \<open>Copy the strings; the stack pointer and the contents of \<open>ustack\<close> so far, or \<open>None\<close> for \<open>goto bad\<close>.\<close>

primrec push_args :: "u64 \<Rightarrow> u64 \<Rightarrow> bytes list \<Rightarrow> u64 \<Rightarrow> u64 list \<Rightarrow> 'z proc_st_scheme \<Rightarrow> ((u64 \<times> u64 list) option, 'z proc_st_scheme) outcome" where
  "push_args pagetable stackbase [] sp ustack = kret (Some (sp, ustack))"
| "push_args pagetable stackbase (a # as) sp ustack =
     (if length ustack \<ge> MAXARG then kret None
      else let sp' = align16 (sp - of_nat (length a + 1)) in
        if sp' < stackbase then kret None
        else kbind (copyout pagetable sp' (a @ [0])) (\<lambda>r.
          if r < 0 then kret None else push_args pagetable stackbase as sp' (ustack @ [sp'])))"

definition push_ustack :: "u64 \<Rightarrow> u64 \<Rightarrow> u64 \<Rightarrow> u64 list \<Rightarrow> 'z proc_st_scheme \<Rightarrow> (u64 option, 'z proc_st_scheme) outcome" where
  "push_ustack pagetable stackbase sp ustack =
     (let sp' = align16 (sp - of_nat (8 * (length ustack + 1))) in
      if sp' < stackbase then kret None
      else kbind (copyout pagetable sp' (concat (map le64 (ustack @ [0])))) (\<lambda>r.
        kret (if r < 0 then None else Some sp')))"

text \<open>What follows the last slash of the path.\<close>

definition last_elem :: "bytes \<Rightarrow> bytes" where
  "last_elem path = rev (takeWhile (\<lambda>c. c \<noteq> SLASH) (rev path))"

section \<open>exec\<close>

definition exec_bad :: "u64 \<Rightarrow> u64 \<Rightarrow> nat option \<Rightarrow> 'z fs_st_scheme \<Rightarrow> (int, 'z fs_st_scheme) outcome" where
  "exec_bad pagetable sz ip =
     kthen (if pagetable \<noteq> 0 then proc_freepagetable pagetable sz else kret ())
       (kthen (case ip of None \<Rightarrow> kret () | Some i \<Rightarrow> kthen (iunlockput i) end_op) (kret (- 1)))"

text \<open>The part of \<open>kexec\<close> after \<open>ip = 0\<close>.\<close>

definition exec_commit :: "nat \<Rightarrow> bytes \<Rightarrow> u64 \<Rightarrow> u64 \<Rightarrow> u64 \<Rightarrow> u64 \<Rightarrow> nat \<Rightarrow> 'z life_st_scheme \<Rightarrow> (int, 'z life_st_scheme) outcome" where
  "exec_commit p path pagetable sz entry sp argc =
     kthen (set_tf p TF_A1 sp)
       (kthen (kput (upd_proc p (\<lambda>q. q\<lparr>p_name := copy_name (p_name q) (last_elem path)\<rparr>))) (\<lambda>s.
          let oldpagetable = p_pagetable (procs s ! p); oldsz = p_sz (procs s ! p) in
          kthen (kput (upd_proc p (\<lambda>q. q\<lparr>p_pagetable := pagetable, p_sz := sz\<rparr>)))
            (kthen (set_tf p TF_EPC entry)
              (kthen (set_tf p TF_SP sp)
                (kthen (proc_freepagetable oldpagetable oldsz) (kret (int argc))))) s))"

definition exec_stack :: "nat \<Rightarrow> bytes \<Rightarrow> bytes list \<Rightarrow> u64 \<Rightarrow> u64 \<Rightarrow> u64 \<Rightarrow> 'z life_st_scheme \<Rightarrow> (int, 'z life_st_scheme) outcome" where
  "exec_stack p path argv pagetable sz0 entry =
     (let sz = PGROUNDUP sz0 in
      kbind (uvmalloc pagetable sz (sz + (USERSTACK + 1) * PGSIZE) PTE_W) (\<lambda>sz1.
        if sz1 = 0 then exec_bad pagetable sz None
        else kthen (uvmclear pagetable (sz1 - (USERSTACK + 1) * PGSIZE))
          (let stackbase = sz1 - USERSTACK * PGSIZE in
           kbind (push_args pagetable stackbase argv sz1 []) (\<lambda>r.
             case r of None \<Rightarrow> exec_bad pagetable sz1 None
             | Some (sp, ustack) \<Rightarrow> kbind (push_ustack pagetable stackbase sp ustack) (\<lambda>r.
                 case r of None \<Rightarrow> exec_bad pagetable sz1 None
                 | Some sp \<Rightarrow> exec_commit p path pagetable sz1 entry sp (length ustack))))))"

definition kexec :: "bytes \<Rightarrow> bytes list \<Rightarrow> 'z life_st_scheme \<Rightarrow> (int, 'z life_st_scheme) outcome" where
  "kexec path argv = kbind myproc (\<lambda>p. kthen begin_op (kbind (namei path) (\<lambda>r.
     case r of None \<Rightarrow> kthen end_op (kret (- 1)) | Some ip \<Rightarrow>
       kthen (ilock (Some ip)) (kbind (readi_local ip 0 (of_nat ELFHDR_SIZE)) (\<lambda>(r, bs).
         let elf = dec_elf bs in
         if r \<noteq> int ELFHDR_SIZE then exec_bad 0 0 (Some ip)
         else if e_magic elf \<noteq> ELF_MAGIC then exec_bad 0 0 (Some ip)
         else kbind (proc_pagetable p) (\<lambda>pagetable.
           if pagetable = 0 then exec_bad 0 0 (Some ip)
           else kbind (load_segments pagetable ip (unat (e_phnum elf)) (ucast (e_phoff elf)) 0) (\<lambda>(ok, sz).
             if \<not> ok then exec_bad pagetable sz (Some ip)
             else kthen (iunlockput ip) (kthen end_op
               (exec_stack p path argv pagetable sz (e_entry elf))))))))))"

section \<open>The first switch to a process\<close>

definition init_path :: bytes where
  "init_path = cstring ''/init''"

text \<open>\<open>forkret\<close> up to \<open>prepare_return\<close>.\<close>

definition forkret_start :: "'z life_st_scheme \<Rightarrow> (unit, 'z life_st_scheme) outcome" where
  "forkret_start = kbind myproc (\<lambda>p.
     kthen (krelease (ProcLock p)) (\<lambda>s.
       if forkret_first s
       then kthen (fsinit ROOTDEV)
              (kthen (kput (\<lambda>s. s\<lparr>forkret_first := False\<rparr>))
                (kbind (kexec init_path [init_path]) (\<lambda>r.
                  kthen (set_tf p TF_A0 (of_int r))
                    (kbind (get_tf p TF_A0) (\<lambda>a0. if a0 = - 1 then kpanic ''exec'' else kret ()))))) s
       else Ret () s))"

end
