(* ===== verification/Sysfile.thy ===== *)
theory Sysfile
  imports Exec
begin

text \<open>
  The system calls: the arguments (kernel/syscall.c), the calls on files and
  directories (kernel/sysfile.c), the calls on processes (kernel/sysproc.c) and
  the dispatch.  A handler returns the 64-bit word that \<open>syscall\<close> stores in
  \<open>a0\<close>.  A string argument is the list of its bytes without the terminating zero.
\<close>

section \<open>Arguments\<close>

definition fetchaddr :: "u64 \<Rightarrow> 'z proc_st_scheme \<Rightarrow> (u64 option, 'z proc_st_scheme) outcome" where
  "fetchaddr addr = kbind myproc (\<lambda>p s.
     if addr \<ge> p_sz (procs s ! p) \<or> addr + 8 > p_sz (procs s ! p) then Ret None s
     else kbind (copyin (p_pagetable (procs s ! p)) addr 8) (\<lambda>(r, bs).
            kret (if r \<noteq> 0 then None else Some (load64 (\<lambda>i :: nat. bs ! i) 0))) s)"

text \<open>The result and the bytes that have been stored in \<open>buf\<close>.\<close>

definition fetchstr :: "u64 \<Rightarrow> nat \<Rightarrow> 'z proc_st_scheme \<Rightarrow> (int \<times> bytes, 'z proc_st_scheme) outcome" where
  "fetchstr addr mx = kbind myproc (\<lambda>p s.
     kbind (copyinstr (p_pagetable (procs s ! p)) addr mx) (\<lambda>(r, bs).
       kret (if r < 0 then - 1 else int (length (cstr_of bs)), bs)) s)"

text \<open>The string, or \<open>None\<close> for a negative result.\<close>

definition argstr :: "nat \<Rightarrow> nat \<Rightarrow> 'z proc_st_scheme \<Rightarrow> (bytes option, 'z proc_st_scheme) outcome" where
  "argstr n mx = kbind (argaddr n) (\<lambda>addr. kbind (fetchstr addr mx) (\<lambda>(r, bs).
     kret (if r < 0 then None else Some (cstr_of bs))))"

definition argfd :: "nat \<Rightarrow> 'z proc_st_scheme \<Rightarrow> ((nat \<times> nat) option, 'z proc_st_scheme) outcome" where
  "argfd n = kbind (argint n) (\<lambda>w.
     let fd = sint w in
     if fd < 0 \<or> fd \<ge> int NOFILE then kret None
     else kbind myproc (\<lambda>p. kget (\<lambda>s. map_option (\<lambda>f. (nat fd, f)) (p_ofile (procs s ! p) ! nat fd))))"

definition fdalloc :: "nat \<Rightarrow> 'z proc_st_scheme \<Rightarrow> (nat option, 'z proc_st_scheme) outcome" where
  "fdalloc f = kbind myproc (\<lambda>p s.
     case find (\<lambda>fd. p_ofile (procs s ! p) ! fd = None) [0..<NOFILE] of
       None \<Rightarrow> Ret None s
     | Some fd \<Rightarrow> Ret (Some fd) (upd_proc p (\<lambda>q. q\<lparr>p_ofile := (p_ofile q)[fd := Some f]\<rparr>) s))"

definition clear_fd :: "nat \<Rightarrow> 'z proc_st_scheme \<Rightarrow> (unit, 'z proc_st_scheme) outcome" where
  "clear_fd fd = kbind myproc (\<lambda>p. kput (upd_proc p (\<lambda>q. q\<lparr>p_ofile := (p_ofile q)[fd := None]\<rparr>)))"

section \<open>Calls on descriptors\<close>

definition sys_dup :: "'z life_st_scheme \<Rightarrow> (u64, 'z life_st_scheme) outcome" where
  "sys_dup = kbind (argfd 0) (\<lambda>r. case r of None \<Rightarrow> kret (- 1) | Some (_, f) \<Rightarrow>
     kbind (fdalloc f) (\<lambda>r. case r of None \<Rightarrow> kret (- 1) | Some fd \<Rightarrow>
       kthen (filedup f) (kret (of_nat fd))))"

definition sys_read :: "'z life_st_scheme \<Rightarrow> (u64, 'z life_st_scheme) outcome" where
  "sys_read = kbind (argaddr 1) (\<lambda>p. kbind (argint 2) (\<lambda>n. kbind (argfd 0) (\<lambda>r.
     case r of None \<Rightarrow> kret (- 1) | Some (_, f) \<Rightarrow> kbind (fileread f p (sint n)) (\<lambda>r. kret (of_int r)))))"

definition sys_write :: "'z life_st_scheme \<Rightarrow> (u64, 'z life_st_scheme) outcome" where
  "sys_write = kbind (argaddr 1) (\<lambda>p. kbind (argint 2) (\<lambda>n. kbind (argfd 0) (\<lambda>r.
     case r of None \<Rightarrow> kret (- 1) | Some (_, f) \<Rightarrow> kbind (filewrite f p (sint n)) (\<lambda>r. kret (of_int r)))))"

definition sys_close :: "'z life_st_scheme \<Rightarrow> (u64, 'z life_st_scheme) outcome" where
  "sys_close = kbind (argfd 0) (\<lambda>r. case r of None \<Rightarrow> kret (- 1) | Some (fd, f) \<Rightarrow>
     kthen (clear_fd fd) (kthen (fileclose f) (kret 0)))"

definition sys_fstat :: "bytes \<Rightarrow> 'z life_st_scheme \<Rightarrow> (u64, 'z life_st_scheme) outcome" where
  "sys_fstat pad = kbind (argaddr 1) (\<lambda>st. kbind (argfd 0) (\<lambda>r.
     case r of None \<Rightarrow> kret (- 1) | Some (_, f) \<Rightarrow> kbind (filestat pad f st) (\<lambda>r. kret (of_int r))))"

section \<open>Links\<close>

definition set_nlink :: "nat \<Rightarrow> (u16 \<Rightarrow> u16) \<Rightarrow> 'z fs_st_scheme \<Rightarrow> (unit, 'z fs_st_scheme) outcome" where
  "set_nlink i g = kthen (kput (upd_inode i (\<lambda>ip. ip\<lparr>i_nlink := g (i_nlink ip)\<rparr>))) (iupdate i)"

definition fail_op :: "'z fs_st_scheme \<Rightarrow> (u64, 'z fs_st_scheme) outcome" where
  "fail_op = kthen end_op (kret (- 1))"

definition link_bad :: "nat \<Rightarrow> 'z fs_st_scheme \<Rightarrow> (u64, 'z fs_st_scheme) outcome" where
  "link_bad ip = kthen (ilock (Some ip)) (kthen (set_nlink ip (\<lambda>n. n - 1)) (kthen (iunlockput ip) fail_op))"

definition sys_link :: "'z life_st_scheme \<Rightarrow> (u64, 'z life_st_scheme) outcome" where
  "sys_link = kbind (argstr 0 MAXPATH) (\<lambda>r. case r of None \<Rightarrow> kret (- 1) | Some old \<Rightarrow>
     kbind (argstr 1 MAXPATH) (\<lambda>r. case r of None \<Rightarrow> kret (- 1) | Some new \<Rightarrow>
     kthen begin_op (kbind (namei old) (\<lambda>r. case r of None \<Rightarrow> fail_op | Some ip \<Rightarrow>
       kthen (ilock (Some ip)) (\<lambda>s.
         if i_type (itable s ! ip) = T_DIR then kthen (iunlockput ip) fail_op s
         else kthen (set_nlink ip (\<lambda>n. n + 1)) (kthen (iunlock (Some ip))
           (kbind (nameiparent new) (\<lambda>(r, name). case r of None \<Rightarrow> link_bad ip | Some dp \<Rightarrow>
             kthen (ilock (Some dp)) (\<lambda>s.
               kbind (if i_dev (itable s ! dp) \<noteq> i_dev (itable s ! ip) then kret (- 1)
                      else dirlink dp name (i_inum (itable s ! ip))) (\<lambda>r.
                 if r < 0 then kthen (iunlockput dp) (link_bad ip)
                 else kthen (iunlockput dp) (kthen (iput ip) (kthen end_op (kret 0)))) s)))) s)))))"

primrec isdirempty_loop :: "nat \<Rightarrow> nat list \<Rightarrow> 'z fs_st_scheme \<Rightarrow> (bool, 'z fs_st_scheme) outcome" where
  "isdirempty_loop dp [] = kret True"
| "isdirempty_loop dp (off # offs) =
     kbind (readi_local dp (of_nat off) (of_nat DIRENT_SIZE)) (\<lambda>(r, bs).
       if r \<noteq> int DIRENT_SIZE then kpanic ''isdirempty: readi''
       else if de_inum (dec_dirent bs) \<noteq> 0 then kret False
       else isdirempty_loop dp offs)"

definition isdirempty :: "nat \<Rightarrow> 'z fs_st_scheme \<Rightarrow> (bool, 'z fs_st_scheme) outcome" where
  "isdirempty dp s = isdirempty_loop dp (drop 2 (dir_offsets (i_size (itable s ! dp)))) s"

definition unlink_bad :: "nat \<Rightarrow> 'z fs_st_scheme \<Rightarrow> (u64, 'z fs_st_scheme) outcome" where
  "unlink_bad dp = kthen (iunlockput dp) fail_op"

text \<open>The part of \<open>sys_unlink\<close> that removes the entry at \<open>off\<close> of \<open>dp\<close>, whose inode is \<open>ip\<close>.\<close>

definition unlink_entry :: "nat \<Rightarrow> nat \<Rightarrow> nat \<Rightarrow> 'z fs_st_scheme \<Rightarrow> (u64, 'z fs_st_scheme) outcome" where
  "unlink_entry dp ip off =
     kbind (writei_local dp (replicate DIRENT_SIZE 0) (of_nat off)) (\<lambda>r s.
       if r \<noteq> int DIRENT_SIZE then Panic ''unlink: writei''
       else kthen (if i_type (itable s ! ip) = T_DIR then set_nlink dp (\<lambda>n. n - 1) else kret ())
         (kthen (iunlockput dp) (kthen (set_nlink ip (\<lambda>n. n - 1)) (kthen (iunlockput ip) (kthen end_op (kret 0))))) s)"

definition sys_unlink :: "'z life_st_scheme \<Rightarrow> (u64, 'z life_st_scheme) outcome" where
  "sys_unlink = kbind (argstr 0 MAXPATH) (\<lambda>r. case r of None \<Rightarrow> kret (- 1) | Some path \<Rightarrow>
     kthen begin_op (kbind (nameiparent path) (\<lambda>(r, name). case r of None \<Rightarrow> fail_op | Some dp \<Rightarrow>
       kthen (ilock (Some dp))
         (if namecmp name (cstring ''.'') = 0 \<or> namecmp name (cstring ''..'') = 0 then unlink_bad dp
          else kbind (dirlookup dp name) (\<lambda>r. case r of None \<Rightarrow> unlink_bad dp | Some (ip, off) \<Rightarrow>
            kthen (ilock (Some ip)) (\<lambda>s.
              if sint (i_nlink (itable s ! ip)) < 1 then Panic ''unlink: nlink < 1''
              else kbind (if i_type (itable s ! ip) = T_DIR then isdirempty ip else kret True) (\<lambda>e.
                if \<not> e then kthen (iunlockput ip) (unlink_bad dp) else unlink_entry dp ip off) s))))))"

section \<open>Creating and opening\<close>

definition create_fail :: "nat \<Rightarrow> nat \<Rightarrow> 'z fs_st_scheme \<Rightarrow> (nat option, 'z fs_st_scheme) outcome" where
  "create_fail dp ip = kthen (set_nlink ip (\<lambda>_. 0)) (kthen (iunlockput ip) (kthen (iunlockput dp) (kret None)))"

text \<open>The entries \<open>.\<close> and \<open>..\<close> of a new directory: whether both were written.\<close>

definition dot_entries :: "nat \<Rightarrow> nat \<Rightarrow> 'z fs_st_scheme \<Rightarrow> (bool, 'z fs_st_scheme) outcome" where
  "dot_entries dp ip s =
     kbind (dirlink ip (cstring ''.'') (i_inum (itable s ! ip))) (\<lambda>r.
       if r < 0 then kret False
       else (\<lambda>s. kbind (dirlink ip (cstring ''..'') (i_inum (itable s ! dp))) (\<lambda>r. kret (\<not> r < 0)) s)) s"

text \<open>From the locking of the new inode on.\<close>

definition create_new :: "nat \<Rightarrow> nat \<Rightarrow> bytes \<Rightarrow> u16 \<Rightarrow> u16 \<Rightarrow> u16 \<Rightarrow> 'z fs_st_scheme \<Rightarrow> (nat option, 'z fs_st_scheme) outcome" where
  "create_new dp ip name ty major minor =
     kthen (ilock (Some ip))
       (kthen (kput (upd_inode ip (\<lambda>x. x\<lparr>i_major := major, i_minor := minor, i_nlink := 1\<rparr>)))
         (kthen (iupdate ip)
           (kbind (if ty = T_DIR then dot_entries dp ip else kret True) (\<lambda>ok.
              if \<not> ok then create_fail dp ip
              else (\<lambda>s. kbind (dirlink dp name (i_inum (itable s ! ip))) (\<lambda>r.
                if r < 0 then create_fail dp ip
                else kthen (if ty = T_DIR then set_nlink dp (\<lambda>n. n + 1) else kret ())
                       (kthen (iunlockput dp) (kret (Some ip)))) s)))))"

definition create :: "bytes \<Rightarrow> u16 \<Rightarrow> u16 \<Rightarrow> u16 \<Rightarrow> 'z fs_st_scheme \<Rightarrow> (nat option, 'z fs_st_scheme) outcome" where
  "create path ty major minor = kbind (nameiparent path) (\<lambda>(r, name). case r of None \<Rightarrow> kret None | Some dp \<Rightarrow>
     kthen (ilock (Some dp)) (kbind (dirlookup dp name) (\<lambda>r. case r of
       Some (ip, _) \<Rightarrow>
         kthen (iunlockput dp) (kthen (ilock (Some ip)) (\<lambda>s.
           if ty = T_FILE \<and> (i_type (itable s ! ip) = T_FILE \<or> i_type (itable s ! ip) = T_DEVICE) then Ret (Some ip) s
           else kthen (iunlockput ip) (kret None) s))
     | None \<Rightarrow> (\<lambda>s. kbind (ialloc (i_dev (itable s ! dp)) ty) (\<lambda>r. case r of
         None \<Rightarrow> kthen (iunlockput dp) (kret None)
       | Some ip \<Rightarrow> create_new dp ip name ty major minor) s))))"

text \<open>The inode that \<open>sys_open\<close> goes on with, locked.\<close>

definition open_inode :: "bytes \<Rightarrow> int \<Rightarrow> 'z fs_st_scheme \<Rightarrow> (nat option, 'z fs_st_scheme) outcome" where
  "open_inode path omode =
     (if omode AND O_CREATE \<noteq> 0 then create path T_FILE 0 0
      else kbind (namei path) (\<lambda>r. case r of None \<Rightarrow> kret None | Some ip \<Rightarrow>
        kthen (ilock (Some ip)) (\<lambda>s.
          if i_type (itable s ! ip) = T_DIR \<and> omode \<noteq> O_RDONLY then kthen (iunlockput ip) (kret None) s
          else Ret (Some ip) s)))"

definition open_file :: "inode \<Rightarrow> nat \<Rightarrow> int \<Rightarrow> kfile \<Rightarrow> kfile" where
  "open_file ino ip omode f =
     (let f1 = (if i_type ino = T_DEVICE then f\<lparr>f_type := FD_DEVICE, f_major := i_major ino\<rparr>
                else f\<lparr>f_type := FD_INODE, f_off := 0\<rparr>)
      in f1\<lparr>f_ip := Some ip, f_readable := omode AND O_WRONLY = 0,
            f_writable := omode AND O_WRONLY \<noteq> 0 \<or> omode AND O_RDWR \<noteq> 0\<rparr>)"

definition open_finish :: "nat \<Rightarrow> nat \<Rightarrow> nat \<Rightarrow> int \<Rightarrow> 'z life_st_scheme \<Rightarrow> (u64, 'z life_st_scheme) outcome" where
  "open_finish ip f fd omode =
     kthen (kput (\<lambda>s. upd_file f (open_file (itable s ! ip) ip omode) s))
       (kthen (\<lambda>s. if omode AND O_TRUNC \<noteq> 0 \<and> i_type (itable s ! ip) = T_FILE then itrunc ip s else Ret () s)
         (kthen (iunlock (Some ip)) (kthen end_op (kret (of_nat fd)))))"

definition sys_open :: "'z life_st_scheme \<Rightarrow> (u64, 'z life_st_scheme) outcome" where
  "sys_open = kbind (argint 1) (\<lambda>w. let omode = sint w in
     kbind (argstr 0 MAXPATH) (\<lambda>r. case r of None \<Rightarrow> kret (- 1) | Some path \<Rightarrow>
       kthen begin_op (kbind (open_inode path omode) (\<lambda>r. case r of None \<Rightarrow> fail_op | Some ip \<Rightarrow> (\<lambda>s.
         let ino = itable s ! ip in
         if i_type ino = T_DEVICE \<and> (sint (i_major ino) < 0 \<or> sint (i_major ino) \<ge> NDEV)
         then kthen (iunlockput ip) fail_op s
         else kbind filealloc (\<lambda>r. case r of None \<Rightarrow> kthen (iunlockput ip) fail_op | Some f \<Rightarrow>
           kbind (fdalloc f) (\<lambda>r. case r of
             None \<Rightarrow> kthen (fileclose f) (kthen (iunlockput ip) fail_op)
           | Some fd \<Rightarrow> open_finish ip f fd omode)) s)))))"

definition sys_mkdir :: "'z life_st_scheme \<Rightarrow> (u64, 'z life_st_scheme) outcome" where
  "sys_mkdir = kthen begin_op (kbind (argstr 0 MAXPATH) (\<lambda>r. case r of None \<Rightarrow> fail_op | Some path \<Rightarrow>
     kbind (create path T_DIR 0 0) (\<lambda>r. case r of None \<Rightarrow> fail_op | Some ip \<Rightarrow>
       kthen (iunlockput ip) (kthen end_op (kret 0)))))"

definition sys_mknod :: "'z life_st_scheme \<Rightarrow> (u64, 'z life_st_scheme) outcome" where
  "sys_mknod = kthen begin_op (kbind (argint 1) (\<lambda>major. kbind (argint 2) (\<lambda>minor.
     kbind (argstr 0 MAXPATH) (\<lambda>r. case r of None \<Rightarrow> fail_op | Some path \<Rightarrow>
       kbind (create path T_DEVICE (ucast major) (ucast minor)) (\<lambda>r. case r of None \<Rightarrow> fail_op | Some ip \<Rightarrow>
         kthen (iunlockput ip) (kthen end_op (kret 0)))))))"

definition sys_chdir :: "'z life_st_scheme \<Rightarrow> (u64, 'z life_st_scheme) outcome" where
  "sys_chdir = kbind myproc (\<lambda>p. kthen begin_op (kbind (argstr 0 MAXPATH) (\<lambda>r. case r of None \<Rightarrow> fail_op | Some path \<Rightarrow>
     kbind (namei path) (\<lambda>r. case r of None \<Rightarrow> fail_op | Some ip \<Rightarrow>
       kthen (ilock (Some ip)) (\<lambda>s.
         if i_type (itable s ! ip) \<noteq> T_DIR then kthen (iunlockput ip) fail_op s
         else kthen (iunlock (Some ip))
           (kthen (\<lambda>s. kbind (deref (p_cwd (procs s ! p))) iput s)
             (kthen end_op (kthen (kput (upd_proc p (\<lambda>q. q\<lparr>p_cwd := Some ip\<rparr>))) (kret 0)))) s)))))"

section \<open>exec and pipe\<close>

text \<open>
  The loop of \<open>sys_exec\<close> from index \<open>i\<close> on, with \<open>k\<close> entries of \<open>argv\<close> left: the
  pages and strings so far and whether it ended with \<open>break\<close>.
\<close>

primrec exec_args :: "u64 \<Rightarrow> nat \<Rightarrow> nat \<Rightarrow> (u64 \<times> bytes) list \<Rightarrow> 'z proc_st_scheme \<Rightarrow> (bool \<times> (u64 \<times> bytes) list, 'z proc_st_scheme) outcome" where
  "exec_args uargv i 0 argv = kret (False, argv)"
| "exec_args uargv i (Suc k) argv =
     kbind (fetchaddr (uargv + 8 * of_nat i)) (\<lambda>r. case r of None \<Rightarrow> kret (False, argv) | Some uarg \<Rightarrow>
       if uarg = 0 then kret (True, argv)
       else kbind kalloc (\<lambda>page.
         if page = 0 then kret (False, argv)
         else kbind (fetchstr uarg (unat PGSIZE)) (\<lambda>(r, bs).
           kthen (kput (\<lambda>s. s\<lparr>pmem := put_bytes page bs (pmem s)\<rparr>))
             (if r < 0 then kret (False, argv @ [(page, bs)])
              else exec_args uargv (Suc i) k (argv @ [(page, cstr_of bs)])))))"

definition sys_exec :: "'z life_st_scheme \<Rightarrow> (u64, 'z life_st_scheme) outcome" where
  "sys_exec = kbind (argaddr 1) (\<lambda>uargv. kbind (argstr 0 MAXPATH) (\<lambda>r. case r of None \<Rightarrow> kret (- 1) | Some path \<Rightarrow>
     kbind (exec_args uargv 0 MAXARG []) (\<lambda>(ok, argv).
       kbind (if ok then kexec path (map snd argv) else kret (- 1)) (\<lambda>ret.
         kthen (kfor (\<lambda>(page, _). kfree page) argv) (kret (of_int ret))))))"

definition pipe_undo :: "nat option \<Rightarrow> nat option \<Rightarrow> nat \<Rightarrow> nat \<Rightarrow> 'z life_st_scheme \<Rightarrow> (u64, 'z life_st_scheme) outcome" where
  "pipe_undo fd0 fd1 rfile wfile =
     kthen (case fd0 of None \<Rightarrow> kret () | Some fd \<Rightarrow> clear_fd fd)
       (kthen (case fd1 of None \<Rightarrow> kret () | Some fd \<Rightarrow> clear_fd fd)
         (kthen (fileclose rfile) (kthen (fileclose wfile) (kret (- 1)))))"

definition sys_pipe :: "'z life_st_scheme \<Rightarrow> (u64, 'z life_st_scheme) outcome" where
  "sys_pipe = kbind myproc (\<lambda>p. kbind (argaddr 0) (\<lambda>fdarray. kbind pipealloc (\<lambda>r. case r of None \<Rightarrow> kret (- 1) | Some (rfile, wfile) \<Rightarrow>
     kbind (fdalloc rfile) (\<lambda>r. case r of None \<Rightarrow> pipe_undo None None rfile wfile | Some fd0 \<Rightarrow>
       kbind (fdalloc wfile) (\<lambda>r. case r of None \<Rightarrow> pipe_undo (Some fd0) None rfile wfile | Some fd1 \<Rightarrow>
         (\<lambda>s. kbind (copyout (p_pagetable (procs s ! p)) fdarray (le32 (of_nat fd0))) (\<lambda>r.
           if r < 0 then pipe_undo (Some fd0) (Some fd1) rfile wfile
           else (\<lambda>s. kbind (copyout (p_pagetable (procs s ! p)) (fdarray + 4) (le32 (of_nat fd1))) (\<lambda>r.
             if r < 0 then pipe_undo (Some fd0) (Some fd1) rfile wfile else kret 0) s)) s))))))"

section \<open>Calls on processes\<close>

definition SBRK_EAGER :: u32 where "SBRK_EAGER = 1"

definition sys_kps :: "'z life_st_scheme \<Rightarrow> (u64, 'z life_st_scheme) outcome" where
  "sys_kps = kbind (argstr 0 4) (\<lambda>r. case r of None \<Rightarrow> kret (- 1) | Some buf \<Rightarrow> kbind (kps (Some buf)) (\<lambda>v. kret (scast v)))"

definition sys_exit :: "'z life_st_scheme \<Rightarrow> (u64, 'z life_st_scheme) outcome" where
  "sys_exit = kbind (argint 0) kexit"

definition sys_getpid :: "'z life_st_scheme \<Rightarrow> (u64, 'z life_st_scheme) outcome" where
  "sys_getpid = kbind myproc (\<lambda>p. kget (\<lambda>s. scast (p_pid (procs s ! p))))"

definition sys_fork :: "'z life_st_scheme \<Rightarrow> (u64, 'z life_st_scheme) outcome" where
  "sys_fork = kbind kfork (\<lambda>r. kret (of_int r))"

definition sys_wait :: "'z life_st_scheme \<Rightarrow> (u64, 'z life_st_scheme) outcome" where
  "sys_wait = kbind (argaddr 0) (\<lambda>p. kbind (kwait p) (\<lambda>r. kret (of_int r)))"

definition sys_sbrk :: "'z life_st_scheme \<Rightarrow> (u64, 'z life_st_scheme) outcome" where
  "sys_sbrk = kbind (argint 0) (\<lambda>n. kbind (argint 1) (\<lambda>t. kbind myproc (\<lambda>p s.
     let addr = p_sz (procs s ! p) in
     if t = SBRK_EAGER \<or> sint n < 0
     then kbind (growproc n) (\<lambda>r. kret (if r < 0 then - 1 else addr)) s
     else if addr + scast n < addr then Ret (- 1) s
     else if addr + scast n > TRAPFRAME then Ret (- 1) s
     else Ret addr (upd_proc p (\<lambda>q. q\<lparr>p_sz := p_sz q + scast n\<rparr>) s))))"

text \<open>One test of the loop of \<open>sys_pause\<close>, entered and resumed with \<open>tickslock\<close> held.\<close>

definition pause_wait :: "u32 \<Rightarrow> u32 \<Rightarrow> 'z proc_st_scheme \<Rightarrow> (u64, 'z proc_st_scheme) outcome" where
  "pause_wait ticks0 n s =
     (if ticks s - ticks0 < n
      then kbind myproc (\<lambda>p. kbind (killed p) (\<lambda>k.
             if k \<noteq> 0 then kthen (krelease TicksLock) (kret (- 1))
             else kthen (sleep ChTicks TicksLock) (kret 0))) s
      else kthen (krelease TicksLock) (kret 0) s)"

definition sys_pause :: "'z life_st_scheme \<Rightarrow> (u64, 'z life_st_scheme) outcome" where
  "sys_pause = kbind (argint 0) (\<lambda>w. let n = (if sint w < 0 then 0 else w) in
     kthen (kacquire TicksLock) (\<lambda>s. pause_wait (ticks s) n s))"

definition sys_kill :: "'z life_st_scheme \<Rightarrow> (u64, 'z life_st_scheme) outcome" where
  "sys_kill = kbind (argint 0) (\<lambda>pid. kbind (kkill pid) (\<lambda>r. kret (scast r)))"

definition sys_uptime :: "'z life_st_scheme \<Rightarrow> (u64, 'z life_st_scheme) outcome" where
  "sys_uptime = critical TicksLock (kget (\<lambda>s. ucast (ticks s)))"

section \<open>Dispatch\<close>

text \<open>The table \<open>syscalls\<close>, indexed by the numbers of kernel/syscall.h; entry 0 is null.\<close>

definition syscalls :: "bytes \<Rightarrow> ('z life_st_scheme \<Rightarrow> (u64, 'z life_st_scheme) outcome) option list" where
  "syscalls pad = [None, Some sys_fork, Some sys_exit, Some sys_wait, Some sys_pipe, Some sys_read, Some sys_kill, Some sys_exec,
     Some (sys_fstat pad), Some sys_chdir, Some sys_dup, Some sys_getpid, Some sys_sbrk, Some sys_pause, Some sys_uptime,
     Some sys_open, Some sys_write, Some sys_mknod, Some sys_unlink, Some sys_link, Some sys_mkdir, Some sys_close, Some sys_kps,
     Some sys_setquota]"

definition syscall :: "bytes \<Rightarrow> 'z life_st_scheme \<Rightarrow> (unit, 'z life_st_scheme) outcome" where
  "syscall pad = kbind myproc (\<lambda>p. kbind (get_tf p TF_A7) (\<lambda>a7.
     let num = sint (ucast a7 :: u32); tab = syscalls pad in
     if 0 < num \<and> num < int (length tab) \<and> tab ! nat num \<noteq> None
     then kbind (the (tab ! nat num)) (set_tf p TF_A0)
     else (\<lambda>s. kthen (printf (''%d %s: unknown sys call %d'' @ [NL])
                 [PNum (scast (p_pid (procs s ! p))), PStr (Some (p_name (procs s ! p))), PNum (scast (ucast a7 :: u32))])
            (set_tf p TF_A0 (- 1)) s)))"

end
