(* ===== verification/Virtio.thy ===== *)
theory Virtio
  imports Life Ring
begin

text \<open>
  kernel/virtio_disk.c: the driver of the disk.  The descriptor table, the two rings
  and the bookkeeping of \<open>struct disk\<close> are a field of the state.  An address that
  the driver gives to the device names what it points at.  The registers of the
  device are not state: \<open>v_regs\<close> is the sequence of the stores to them, and the
  argument \<open>dev\<close> gives what a register reads after such a sequence.
\<close>

section \<open>Data\<close>

definition NUM :: nat where "NUM = 8"

definition VIRTIO_MMIO_MAGIC_VALUE :: u64 where "VIRTIO_MMIO_MAGIC_VALUE = 0x000"
definition VIRTIO_MMIO_VERSION :: u64 where "VIRTIO_MMIO_VERSION = 0x004"
definition VIRTIO_MMIO_DEVICE_ID :: u64 where "VIRTIO_MMIO_DEVICE_ID = 0x008"
definition VIRTIO_MMIO_VENDOR_ID :: u64 where "VIRTIO_MMIO_VENDOR_ID = 0x00c"
definition VIRTIO_MMIO_DEVICE_FEATURES :: u64 where "VIRTIO_MMIO_DEVICE_FEATURES = 0x010"
definition VIRTIO_MMIO_DRIVER_FEATURES :: u64 where "VIRTIO_MMIO_DRIVER_FEATURES = 0x020"
definition VIRTIO_MMIO_QUEUE_SEL :: u64 where "VIRTIO_MMIO_QUEUE_SEL = 0x030"
definition VIRTIO_MMIO_QUEUE_NUM_MAX :: u64 where "VIRTIO_MMIO_QUEUE_NUM_MAX = 0x034"
definition VIRTIO_MMIO_QUEUE_NUM :: u64 where "VIRTIO_MMIO_QUEUE_NUM = 0x038"
definition VIRTIO_MMIO_QUEUE_READY :: u64 where "VIRTIO_MMIO_QUEUE_READY = 0x044"
definition VIRTIO_MMIO_QUEUE_NOTIFY :: u64 where "VIRTIO_MMIO_QUEUE_NOTIFY = 0x050"
definition VIRTIO_MMIO_INTERRUPT_STATUS :: u64 where "VIRTIO_MMIO_INTERRUPT_STATUS = 0x060"
definition VIRTIO_MMIO_INTERRUPT_ACK :: u64 where "VIRTIO_MMIO_INTERRUPT_ACK = 0x064"
definition VIRTIO_MMIO_STATUS :: u64 where "VIRTIO_MMIO_STATUS = 0x070"
definition VIRTIO_MMIO_QUEUE_DESC_LOW :: u64 where "VIRTIO_MMIO_QUEUE_DESC_LOW = 0x080"
definition VIRTIO_MMIO_QUEUE_DESC_HIGH :: u64 where "VIRTIO_MMIO_QUEUE_DESC_HIGH = 0x084"
definition VIRTIO_MMIO_DRIVER_DESC_LOW :: u64 where "VIRTIO_MMIO_DRIVER_DESC_LOW = 0x090"
definition VIRTIO_MMIO_DRIVER_DESC_HIGH :: u64 where "VIRTIO_MMIO_DRIVER_DESC_HIGH = 0x094"
definition VIRTIO_MMIO_DEVICE_DESC_LOW :: u64 where "VIRTIO_MMIO_DEVICE_DESC_LOW = 0x0a0"
definition VIRTIO_MMIO_DEVICE_DESC_HIGH :: u64 where "VIRTIO_MMIO_DEVICE_DESC_HIGH = 0x0a4"

definition VIRTIO_CONFIG_S_ACKNOWLEDGE :: u32 where "VIRTIO_CONFIG_S_ACKNOWLEDGE = 1"
definition VIRTIO_CONFIG_S_DRIVER :: u32 where "VIRTIO_CONFIG_S_DRIVER = 2"
definition VIRTIO_CONFIG_S_DRIVER_OK :: u32 where "VIRTIO_CONFIG_S_DRIVER_OK = 4"
definition VIRTIO_CONFIG_S_FEATURES_OK :: u32 where "VIRTIO_CONFIG_S_FEATURES_OK = 8"

definition VIRTIO_BLK_F_RO :: nat where "VIRTIO_BLK_F_RO = 5"
definition VIRTIO_BLK_F_SCSI :: nat where "VIRTIO_BLK_F_SCSI = 7"
definition VIRTIO_BLK_F_CONFIG_WCE :: nat where "VIRTIO_BLK_F_CONFIG_WCE = 11"
definition VIRTIO_BLK_F_MQ :: nat where "VIRTIO_BLK_F_MQ = 12"
definition VIRTIO_F_ANY_LAYOUT :: nat where "VIRTIO_F_ANY_LAYOUT = 27"
definition VIRTIO_RING_F_INDIRECT_DESC :: nat where "VIRTIO_RING_F_INDIRECT_DESC = 28"
definition VIRTIO_RING_F_EVENT_IDX :: nat where "VIRTIO_RING_F_EVENT_IDX = 29"

definition VRING_DESC_F_NEXT :: u16 where "VRING_DESC_F_NEXT = 1"
definition VRING_DESC_F_WRITE :: u16 where "VRING_DESC_F_WRITE = 2"
definition VIRTIO_BLK_T_IN :: u32 where "VIRTIO_BLK_T_IN = 0"
definition VIRTIO_BLK_T_OUT :: u32 where "VIRTIO_BLK_T_OUT = 1"

text \<open>The addresses in descriptors: null, \<open>&disk.ops[i]\<close>, \<open>b->data\<close>, \<open>&disk.info[i].status\<close>.\<close>

datatype dma = DNull | DOps nat | DData nat | DStatus nat

record virtq_desc =
  d_addr :: dma
  d_len :: u32
  d_flags :: u16
  d_next :: u16

record virtio_blk_req =
  q_type :: u32
  q_reserved :: u32
  q_sector :: u64

record vdisk =
  v_desc :: "virtq_desc list"
  av_idx :: u16
  av_ring :: "u16 list"
  us_idx :: u16
  us_ring :: "u32 list"          \<comment> \<open>the field \<open>id\<close> of the entries\<close>
  v_free :: "bool list"
  v_used_idx :: u16
  v_info_b :: "nat option list"
  v_info_status :: "u8 list"
  v_ops :: "virtio_blk_req list"
  v_pages :: "u64 \<times> u64 \<times> u64"   \<comment> \<open>addresses of the table and of the two rings\<close>
  v_regs :: "(u64 \<times> u32) list"

record virt_st = life_st +
  vd :: vdisk

type_synonym device = "(u64 \<times> u32) list \<Rightarrow> u64 \<Rightarrow> u32"

definition upd_vd :: "(vdisk \<Rightarrow> vdisk) \<Rightarrow> 'z virt_st_scheme \<Rightarrow> 'z virt_st_scheme" where
  "upd_vd f s = s\<lparr>vd := f (vd s)\<rparr>"

definition rreg :: "device \<Rightarrow> u64 \<Rightarrow> 'z virt_st_scheme \<Rightarrow> u32" where
  "rreg dev r s = dev (v_regs (vd s)) r"

definition wreg :: "u64 \<Rightarrow> u32 \<Rightarrow> 'z virt_st_scheme \<Rightarrow> (unit, 'z virt_st_scheme) outcome" where
  "wreg r v = kput (upd_vd (\<lambda>d. d\<lparr>v_regs := v_regs d @ [(r, v)]\<rparr>))"

definition panic_if :: "('s \<Rightarrow> bool) \<Rightarrow> string \<Rightarrow> 's \<Rightarrow> (unit, 's) outcome" where
  "panic_if P e s = (if P s then Panic e else Ret () s)"

section \<open>Initialisation\<close>

definition offered_features :: "u32 \<Rightarrow> u32" where
  "offered_features f = ucast (fold (\<lambda>b (g :: u64). g AND NOT (push_bit b 1))
     [VIRTIO_BLK_F_RO, VIRTIO_BLK_F_SCSI, VIRTIO_BLK_F_CONFIG_WCE, VIRTIO_BLK_F_MQ, VIRTIO_F_ANY_LAYOUT,
      VIRTIO_RING_F_EVENT_IDX, VIRTIO_RING_F_INDIRECT_DESC] (ucast f))"

definition zero_desc :: virtq_desc where
  "zero_desc = \<lparr>d_addr = DNull, d_len = 0, d_flags = 0, d_next = 0\<rparr>"

definition alloc_queues :: "'z virt_st_scheme \<Rightarrow> (unit, 'z virt_st_scheme) outcome" where
  "alloc_queues = kbind kalloc (\<lambda>pd. kbind kalloc (\<lambda>pa. kbind kalloc (\<lambda>pu.
     if pd = 0 \<or> pa = 0 \<or> pu = 0 then kpanic ''virtio disk kalloc''
     else kthen (kput (\<lambda>s. s\<lparr>pmem := memset (memset (memset (pmem s) pd 0 (ucast PGSIZE)) pa 0 (ucast PGSIZE)) pu 0 (ucast PGSIZE)\<rparr>))
            (kput (upd_vd (\<lambda>d. d\<lparr>v_pages := (pd, pa, pu), v_desc := replicate NUM zero_desc, av_idx := 0,
               av_ring := replicate NUM 0, us_idx := 0, us_ring := replicate NUM 0\<rparr>))))))"

definition set_queues :: "'z virt_st_scheme \<Rightarrow> (unit, 'z virt_st_scheme) outcome" where
  "set_queues s = (case v_pages (vd s) of (pd, pa, pu) \<Rightarrow>
     kthen (wreg VIRTIO_MMIO_QUEUE_DESC_LOW (ucast pd)) (kthen (wreg VIRTIO_MMIO_QUEUE_DESC_HIGH (ucast (drop_bit 32 pd)))
      (kthen (wreg VIRTIO_MMIO_DRIVER_DESC_LOW (ucast pa)) (kthen (wreg VIRTIO_MMIO_DRIVER_DESC_HIGH (ucast (drop_bit 32 pa)))
       (kthen (wreg VIRTIO_MMIO_DEVICE_DESC_LOW (ucast pu)) (wreg VIRTIO_MMIO_DEVICE_DESC_HIGH (ucast (drop_bit 32 pu))))))) s)"

definition virtio_disk_init :: "device \<Rightarrow> 'z virt_st_scheme \<Rightarrow> (unit, 'z virt_st_scheme) outcome" where
  "virtio_disk_init dev =
     kthen (panic_if (\<lambda>s. rreg dev VIRTIO_MMIO_MAGIC_VALUE s \<noteq> 0x74726976 \<or> rreg dev VIRTIO_MMIO_VERSION s \<noteq> 2
         \<or> rreg dev VIRTIO_MMIO_DEVICE_ID s \<noteq> 2 \<or> rreg dev VIRTIO_MMIO_VENDOR_ID s \<noteq> 0x554d4551) ''could not find virtio disk'')
     (kthen (wreg VIRTIO_MMIO_STATUS 0)
     (kthen (wreg VIRTIO_MMIO_STATUS VIRTIO_CONFIG_S_ACKNOWLEDGE)
     (kthen (wreg VIRTIO_MMIO_STATUS (VIRTIO_CONFIG_S_ACKNOWLEDGE OR VIRTIO_CONFIG_S_DRIVER))
     (kthen (\<lambda>s. wreg VIRTIO_MMIO_DRIVER_FEATURES (offered_features (rreg dev VIRTIO_MMIO_DEVICE_FEATURES s)) s)
     (kthen (wreg VIRTIO_MMIO_STATUS (VIRTIO_CONFIG_S_ACKNOWLEDGE OR VIRTIO_CONFIG_S_DRIVER OR VIRTIO_CONFIG_S_FEATURES_OK))
     (kbind (kget (rreg dev VIRTIO_MMIO_STATUS)) (\<lambda>status.
      kthen (panic_if (\<lambda>s. status AND VIRTIO_CONFIG_S_FEATURES_OK = 0) ''virtio disk FEATURES_OK unset'')
     (kthen (wreg VIRTIO_MMIO_QUEUE_SEL 0)
     (kthen (panic_if (\<lambda>s. rreg dev VIRTIO_MMIO_QUEUE_READY s \<noteq> 0) ''virtio disk should not be ready'')
     (kbind (kget (rreg dev VIRTIO_MMIO_QUEUE_NUM_MAX)) (\<lambda>mx.
      kthen (panic_if (\<lambda>s. mx = 0) ''virtio disk has no queue 0'')
     (kthen (panic_if (\<lambda>s. mx < of_nat NUM) ''virtio disk max queue too short'')
     (kthen alloc_queues
     (kthen (wreg VIRTIO_MMIO_QUEUE_NUM (of_nat NUM))
     (kthen set_queues
     (kthen (wreg VIRTIO_MMIO_QUEUE_READY 1)
     (kthen (kput (upd_vd (\<lambda>d. d\<lparr>v_free := replicate NUM True\<rparr>)))
        (wreg VIRTIO_MMIO_STATUS (status OR VIRTIO_CONFIG_S_DRIVER_OK)))))))))))))))))))"

section \<open>Descriptors\<close>

definition alloc_desc :: "'z virt_st_scheme \<Rightarrow> (nat option, 'z virt_st_scheme) outcome" where
  "alloc_desc s = (case find (\<lambda>i. v_free (vd s) ! i) [0..<NUM] of
     Some i \<Rightarrow> Ret (Some i) (upd_vd (\<lambda>d. d\<lparr>v_free := (v_free d)[i := False]\<rparr>) s)
   | None \<Rightarrow> Ret None s)"

definition free_desc :: "nat \<Rightarrow> 'z virt_st_scheme \<Rightarrow> (unit, 'z virt_st_scheme) outcome" where
  "free_desc i s =
     (if i \<ge> NUM then Panic ''free_desc 1''
      else if v_free (vd s) ! i then Panic ''free_desc 2''
      else kthen (kput (upd_vd (\<lambda>d. d\<lparr>v_desc := (v_desc d)[i := zero_desc], v_free := (v_free d)[i := True]\<rparr>)))
             (wakeup (Some ChDiskFree)) s)"

text \<open>
  Every round frees a descriptor that was in use, so that the loop ends or panics
  within \<open>NUM\<close> rounds; the first argument counts them.
\<close>

primrec free_chain_loop :: "nat \<Rightarrow> nat \<Rightarrow> 'z virt_st_scheme \<Rightarrow> (unit, 'z virt_st_scheme) outcome" where
  "free_chain_loop 0 i s = free_desc i s"
| "free_chain_loop (Suc n) i s =
     (let flag = d_flags (v_desc (vd s) ! i); nxt = unat (d_next (v_desc (vd s) ! i)) in
      kthen (free_desc i) (if flag AND VRING_DESC_F_NEXT \<noteq> 0 then free_chain_loop n nxt else kret ()) s)"

definition free_chain :: "nat \<Rightarrow> 'z virt_st_scheme \<Rightarrow> (unit, 'z virt_st_scheme) outcome" where
  "free_chain i = free_chain_loop NUM i"

primrec alloc3_loop :: "nat \<Rightarrow> nat list \<Rightarrow> 'z virt_st_scheme \<Rightarrow> (nat list option, 'z virt_st_scheme) outcome" where
  "alloc3_loop 0 idx = kret (Some idx)"
| "alloc3_loop (Suc n) idx = kbind alloc_desc (\<lambda>r. case r of
     None \<Rightarrow> kthen (kfor free_desc idx) (kret None)
   | Some i \<Rightarrow> alloc3_loop n (idx @ [i]))"

definition alloc3_desc :: "'z virt_st_scheme \<Rightarrow> (nat list option, 'z virt_st_scheme) outcome" where
  "alloc3_desc = alloc3_loop 3 []"

section \<open>Transfers\<close>

text \<open>What \<open>virtio_disk_rw\<close> writes into the three descriptors and the bookkeeping.\<close>

definition format_req :: "nat \<Rightarrow> bool \<Rightarrow> u32 \<Rightarrow> nat list \<Rightarrow> vdisk \<Rightarrow> vdisk" where
  "format_req b wr blockno idx d =
     (let i0 = idx ! 0; i1 = idx ! 1; i2 = idx ! 2 in
      d\<lparr>v_ops := (v_ops d)[i0 := \<lparr>q_type = (if wr then VIRTIO_BLK_T_OUT else VIRTIO_BLK_T_IN), q_reserved = 0,
            q_sector = ucast (blockno * of_nat (BSIZE div 512))\<rparr>],
        v_desc := (v_desc d)
          [i0 := \<lparr>d_addr = DOps i0, d_len = 16, d_flags = VRING_DESC_F_NEXT, d_next = of_nat i1\<rparr>,
           i1 := \<lparr>d_addr = DData b, d_len = of_nat BSIZE,
                  d_flags = (if wr then 0 else VRING_DESC_F_WRITE) OR VRING_DESC_F_NEXT, d_next = of_nat i2\<rparr>,
           i2 := \<lparr>d_addr = DStatus i0, d_len = 1, d_flags = VRING_DESC_F_WRITE, d_next = 0\<rparr>],
        v_info_status := (v_info_status d)[i0 := 0xff], v_info_b := (v_info_b d)[i0 := Some b]\<rparr>)"

definition publish :: "nat \<Rightarrow> vdisk \<Rightarrow> vdisk" where
  "publish i d = d\<lparr>av_ring := (av_ring d)[unat (av_idx d) mod NUM := of_nat i], av_idx := av_idx d + 1\<rparr>"

definition rw_submit :: "nat \<Rightarrow> bool \<Rightarrow> nat list \<Rightarrow> 'z virt_st_scheme \<Rightarrow> (unit, 'z virt_st_scheme) outcome" where
  "rw_submit b wr idx =
     kthen (kput (\<lambda>s. upd_vd (format_req b wr (b_blockno (bufs s ! b)) idx) s))
       (kthen (kput (upd_buf b (\<lambda>x. x\<lparr>b_disk := True\<rparr>)))
         (kthen (kput (upd_vd (publish (idx ! 0)))) (wreg VIRTIO_MMIO_QUEUE_NOTIFY 0)))"

definition rw_finish :: "nat \<Rightarrow> 'z virt_st_scheme \<Rightarrow> (unit, 'z virt_st_scheme) outcome" where
  "rw_finish i = kthen (kput (upd_vd (\<lambda>d. d\<lparr>v_info_b := (v_info_b d)[i := None]\<rparr>))) (free_chain i)"

text \<open>
  The two loops that wait.  A process that wakes up in one of them has the lock again
  and goes on with the same arguments.
\<close>

definition rw_wait :: "nat \<Rightarrow> nat list \<Rightarrow> 'z virt_st_scheme \<Rightarrow> (unit, 'z virt_st_scheme) outcome" where
  "rw_wait b idx s =
     (if b_disk (bufs s ! b) then sleep (ChBuf b) DiskLock s
      else kthen (rw_finish (idx ! 0)) (krelease DiskLock) s)"

definition rw_request :: "nat \<Rightarrow> bool \<Rightarrow> 'z virt_st_scheme \<Rightarrow> (unit, 'z virt_st_scheme) outcome" where
  "rw_request b wr = kbind alloc3_desc (\<lambda>r. case r of
     Some idx \<Rightarrow> kthen (rw_submit b wr idx) (rw_wait b idx)
   | None \<Rightarrow> sleep ChDiskFree DiskLock)"

definition virtio_disk_rw :: "nat \<Rightarrow> bool \<Rightarrow> 'z virt_st_scheme \<Rightarrow> (unit, 'z virt_st_scheme) outcome" where
  "virtio_disk_rw b wr = kthen (kacquire DiskLock) (rw_request b wr)"

section \<open>Interrupts\<close>

text \<open>
  One completed request.  A request without a buffer is a null pointer, whose use is a
  fault in the kernel.
\<close>

definition intr_one :: "'z virt_st_scheme \<Rightarrow> (unit, 'z virt_st_scheme) outcome" where
  "intr_one s =
     (let i = unat (us_ring (vd s) ! (unat (v_used_idx (vd s)) mod NUM)) in
      if v_info_status (vd s) ! i \<noteq> 0 then Panic ''virtio_disk_intr status''
      else case v_info_b (vd s) ! i of
        None \<Rightarrow> Panic ''kerneltrap''
      | Some b \<Rightarrow> kthen (kput (upd_buf b (\<lambda>x. x\<lparr>b_disk := False\<rparr>)))
          (kthen (wakeup (Some (ChBuf b))) (kput (upd_vd (\<lambda>d. d\<lparr>v_used_idx := v_used_idx d + 1\<rparr>)))) s)"

primrec intr_loop :: "nat \<Rightarrow> 'z virt_st_scheme \<Rightarrow> (unit, 'z virt_st_scheme) outcome" where
  "intr_loop 0 s = Ret () s"
| "intr_loop (Suc n) s = (if v_used_idx (vd s) \<noteq> us_idx (vd s) then kthen intr_one (intr_loop n) s else Ret () s)"

text \<open>The counters are equal after as many rounds as they differ by.\<close>

definition virtio_disk_intr :: "device \<Rightarrow> 'z virt_st_scheme \<Rightarrow> (unit, 'z virt_st_scheme) outcome" where
  "virtio_disk_intr dev = critical DiskLock
     (kthen (\<lambda>s. wreg VIRTIO_MMIO_INTERRUPT_ACK (rreg dev VIRTIO_MMIO_INTERRUPT_STATUS s AND 3) s)
       (\<lambda>s. intr_loop (unat (us_idx (vd s) - v_used_idx (vd s))) s))"

end
