(* ===== verification/Vdisk.thy ===== *)
theory Vdisk
  imports Virtio
begin

text \<open>
  The disk driver, its interrupt handler and the device at work together.  Any number
  of processes run \<open>virtio_disk_rw\<close>; their sections between acquiring and giving up
  \<open>vdisk_lock\<close>, the rounds of the interrupt handler and the actions of the device are
  the steps.  The device is the argument \<open>serve\<close>: \<open>virtio_device\<close> says what the
  virtio specification promises for a chain of descriptors that is formed as it
  demands, and nothing for any other.  The theory shows that to its callers the
  driver is a disk whose transfers happen at once, at some moment between the call and
  the return; this is the \<open>disk_transfer\<close> of the buffer cache.
\<close>

section \<open>The device\<close>

definition chain_of :: "vdisk \<Rightarrow> nat \<Rightarrow> nat \<Rightarrow> bool \<Rightarrow> u32 \<Rightarrow> nat \<Rightarrow> bool" where
  "chain_of d h b wr n j \<longleftrightarrow>
     (let x0 = v_desc d ! h; x1 = v_desc d ! unat (d_next x0); x2 = v_desc d ! unat (d_next x1) in
      \<exists>k. d_addr x0 = DOps k \<and> d_len x0 = 16 \<and> d_flags x0 = VRING_DESC_F_NEXT
        \<and> d_addr x1 = DData b \<and> d_len x1 = 1024 \<and> d_flags x1 = (if wr then 0 else VRING_DESC_F_WRITE) OR VRING_DESC_F_NEXT
        \<and> d_addr x2 = DStatus j \<and> d_len x2 = 1 \<and> d_flags x2 = VRING_DESC_F_WRITE
        \<and> q_type (v_ops d ! k) = (if wr then VIRTIO_BLK_T_OUT else VIRTIO_BLK_T_IN) \<and> q_reserved (v_ops d ! k) = 0
        \<and> q_sector (v_ops d ! k) = 2 * ucast n)"

definition serve_effect :: "nat \<Rightarrow> nat \<Rightarrow> bool \<Rightarrow> u32 \<Rightarrow> nat \<Rightarrow> virt_st \<Rightarrow> virt_st" where
  "serve_effect h b wr n j s =
     upd_vd (\<lambda>d. d\<lparr>v_info_status := (v_info_status d)[j := 0], us_ring := (us_ring d)[unat (us_idx d) mod NUM := of_nat h],
                   us_idx := us_idx d + 1\<rparr>)
       (if wr then s\<lparr>disk := (disk s)(n := b_data (bufs s ! b)), dhist := dhist s @ [(n, b_data (bufs s ! b))]\<rparr>
        else upd_buf b (\<lambda>x. x\<lparr>b_data := disk s n\<rparr>) s)"

definition virtio_device :: "(nat \<Rightarrow> virt_st \<Rightarrow> virt_st) \<Rightarrow> bool" where
  "virtio_device serve \<longleftrightarrow>
     (\<forall>s h b wr n j. chain_of (vd s) h b wr n j \<longrightarrow> serve h s = serve_effect h b wr n j s)"

section \<open>The steps\<close>

text \<open>A process is not in \<open>virtio_disk_rw\<close>, or waits with its three descriptors.\<close>

datatype rwpc = RIdle | RWait nat bool nat nat nat

record vsys =
  ker :: virt_st
  rpc :: "nat \<Rightarrow> rwpc"
  taken :: u16             \<comment> \<open>how far the device has read the available ring\<close>
  inflight :: "nat list"   \<comment> \<open>chains the device works on\<close>

definition waits_for :: "nat \<Rightarrow> rwpc \<Rightarrow> bool" where
  "waits_for b q = (case q of RIdle \<Rightarrow> False | RWait b' _ _ _ _ \<Rightarrow> b = b')"

text \<open>
  \<open>client\<close> is everything else the kernel does: it changes neither the driver nor the
  disk nor a buffer that is being transferred.  The block numbers of a disk leave room
  for the number of its sectors.
\<close>

inductive vstep :: "(nat \<Rightarrow> virt_st \<Rightarrow> virt_st) \<Rightarrow> vsys \<Rightarrow> vsys \<Rightarrow> bool" for serve where
  request: "rpc v p = RIdle \<Longrightarrow> b < NBUF \<Longrightarrow> \<forall>q. \<not> waits_for b (rpc v q) \<Longrightarrow> b_blockno (bufs (ker v) ! b) < 2 ^ 31 \<Longrightarrow>
    alloc3_desc (ker v) = Ret (Some idx) s \<Longrightarrow> rw_submit b wr idx s = Ret () t \<Longrightarrow>
    vstep serve v (v\<lparr>ker := t, rpc := (rpc v)(p := RWait b wr (idx ! 0) (idx ! 1) (idx ! 2))\<rparr>)"
| full: "alloc3_desc (ker v) = Ret None t \<Longrightarrow> vstep serve v (v\<lparr>ker := t\<rparr>)"
| take: "taken v \<noteq> av_idx (vd (ker v)) \<Longrightarrow>
    vstep serve v (v\<lparr>taken := taken v + 1, inflight := inflight v @ [unat (av_ring (vd (ker v)) ! (unat (taken v) mod NUM))]\<rparr>)"
| complete: "h \<in> set (inflight v) \<Longrightarrow>
    vstep serve v (v\<lparr>ker := serve h (ker v), inflight := remove1 h (inflight v)\<rparr>)"
| intr: "v_used_idx (vd (ker v)) \<noteq> us_idx (vd (ker v)) \<Longrightarrow> intr_one (ker v) = Ret () t \<Longrightarrow> vstep serve v (v\<lparr>ker := t\<rparr>)"
| finish: "rpc v p = RWait b wr h d1 d2 \<Longrightarrow> \<not> b_disk (bufs (ker v) ! b) \<Longrightarrow> rw_finish h (ker v) = Ret () t \<Longrightarrow>
    vstep serve v (v\<lparr>ker := t, rpc := (rpc v)(p := RIdle)\<rparr>)"
| client: "vd t = vd (ker v) \<Longrightarrow> disk t = disk (ker v) \<Longrightarrow> dhist t = dhist (ker v) \<Longrightarrow> no_plocks t \<Longrightarrow>
    length (bufs t) = length (bufs (ker v)) \<Longrightarrow>
    \<forall>b q. waits_for b (rpc v q) \<longrightarrow> bufs t ! b = bufs (ker v) ! b \<Longrightarrow> vstep serve v (v\<lparr>ker := t\<rparr>)"

definition vstart :: "vsys \<Rightarrow> bool" where
  "vstart v \<longleftrightarrow> (let d = vd (ker v) in
     (\<forall>p. rpc v p = RIdle) \<and> taken v = av_idx d \<and> inflight v = [] \<and> v_used_idx d = us_idx d
     \<and> v_free d = replicate NUM True \<and> length (v_desc d) = NUM \<and> length (av_ring d) = NUM \<and> length (us_ring d) = NUM
     \<and> length (v_info_b d) = NUM \<and> length (v_info_status d) = NUM \<and> length (v_ops d) = NUM
     \<and> length (bufs (ker v)) = Suc NBUF \<and> no_plocks (ker v))"

section \<open>The specification\<close>

text \<open>What the callers see: the buffers and the disk.\<close>

type_synonym obs = "block list \<times> u32 list \<times> (u32 \<Rightarrow> block) \<times> (u32 \<times> block) list"

definition obs :: "virt_st \<Rightarrow> obs" where
  "obs s = (map b_data (bufs s), map b_blockno (bufs s), disk s, dhist s)"

datatype apc = AIdle | APending nat bool | ADone nat bool

inductive disk_spec :: "obs \<times> (nat \<Rightarrow> apc) \<Rightarrow> obs \<times> (nat \<Rightarrow> apc) \<Rightarrow> bool" where
  call: "pc p = AIdle \<Longrightarrow> \<forall>q wr'. pc q \<noteq> APending b wr' \<and> pc q \<noteq> ADone b wr' \<Longrightarrow> disk_spec (ob, pc) (ob, pc(p := APending b wr))"
| transfer: "pc p = APending b wr \<Longrightarrow> disk_transfer b wr s = Ret () t \<Longrightarrow>
    disk_spec (obs s, pc) (obs t, pc(p := ADone b wr))"
| retn: "pc p = ADone b wr \<Longrightarrow> disk_spec (ob, pc) (ob, pc(p := AIdle))"
| other: "length xs' = length xs \<Longrightarrow> length ns' = length ns \<Longrightarrow>
    \<forall>b wr q. pc q = APending b wr \<or> pc q = ADone b wr \<longrightarrow> xs' ! b = xs ! b \<and> ns' ! b = ns ! b \<Longrightarrow>
    disk_spec ((xs, ns, dk, h), pc) ((xs', ns', dk, h), pc)"

definition unserved :: "vdisk \<Rightarrow> u16 \<Rightarrow> nat list" where
  "unserved d tk = map unat (ring_slice NUM (av_ring d) tk (unat (av_idx d - tk)))"

definition unseen :: "vdisk \<Rightarrow> nat list" where
  "unseen d = map unat (ring_slice NUM (us_ring d) (v_used_idx d) (unat (us_idx d - v_used_idx d)))"

definition abs_pc :: "vsys \<Rightarrow> nat \<Rightarrow> apc" where
  "abs_pc v p = (case rpc v p of RIdle \<Rightarrow> AIdle
     | RWait b wr h _ _ \<Rightarrow> if h \<in> set (unserved (vd (ker v)) (taken v) @ inflight v) then APending b wr else ADone b wr)"

definition abs_disk :: "vsys \<Rightarrow> obs \<times> (nat \<Rightarrow> apc)" where
  "abs_disk v = (obs (ker v), abs_pc v)"

section \<open>Effects\<close>

text \<open>The operations change the driver's state and, by waking, the process table.\<close>

definition drv :: "virt_st \<Rightarrow> vdisk \<Rightarrow> virt_st \<Rightarrow> bool" where
  "drv s d t \<longleftrightarrow> (\<exists>ps. t = s\<lparr>procs := ps, vd := d\<rparr>)"

lemma drv_fields:
  assumes "drv s d t"
  shows "vd t = d" "bufs t = bufs s" "disk t = disk s" "dhist t = dhist s" "no_plocks t = no_plocks s" "obs t = obs s"
  using assms by (auto simp: drv_def obs_def no_plocks_def)

lemma drv_refl: "drv s (vd s) s"
proof -
  have "s = s\<lparr>procs := procs s, vd := vd s\<rparr>" by simp
  then show ?thesis unfolding drv_def by blast
qed

lemma drv_trans: "drv s d t \<Longrightarrow> drv t d' u \<Longrightarrow> drv s d' u"
  by (auto simp: drv_def)

lemma drv_wakeup:
  assumes "no_plocks s"
  shows "\<exists>t. wakeup ch (upd_vd f s) = Ret () t \<and> drv s (f (vd s)) t"
proof -
  let ?ps = "mapi (\<lambda>i. if Some i \<noteq> curproc s then wake_proc ch else id) (procs s)"
  have "no_plocks (upd_vd f s)" using assms by (simp add: upd_vd_def no_plocks_def)
  from wakeup_eq [OF this, of ch] have "wakeup ch (upd_vd f s) = Ret () (s\<lparr>procs := ?ps, vd := f (vd s)\<rparr>)"
    by (simp add: upd_vd_def)
  then show ?thesis unfolding drv_def by blast
qed

lemma free_desc_ok:
  assumes "no_plocks s" "i < NUM" "\<not> v_free (vd s) ! i"
  shows "\<exists>t. free_desc i s = Ret () t
    \<and> drv s ((vd s)\<lparr>v_desc := (v_desc (vd s))[i := zero_desc], v_free := (v_free (vd s))[i := True]\<rparr>) t"
  using assms drv_wakeup [OF assms(1)] by (simp add: free_desc_def)

lemma alloc_desc_cases:
  obtains (some) i where "alloc_desc s = Ret (Some i) (upd_vd (\<lambda>d. d\<lparr>v_free := (v_free d)[i := False]\<rparr>) s)" "i < NUM" "v_free (vd s) ! i"
  | (none) "alloc_desc s = Ret None s"
proof (cases "find (\<lambda>i. v_free (vd s) ! i) [0..<NUM]")
  case (Some i)
  then have "alloc_desc s = Ret (Some i) (upd_vd (\<lambda>d. d\<lparr>v_free := (v_free d)[i := False]\<rparr>) s)" by (simp add: alloc_desc_def)
  with Some show ?thesis using some [of i] by (auto simp: find_Some_iff)
qed (auto simp: alloc_desc_def)

lemma upd_vd_fields [simp]: "vd (upd_vd f s) = f (vd s)" "no_plocks (upd_vd f s) = no_plocks s" "bufs (upd_vd f s) = bufs s"
  "upd_vd f (upd_vd g s) = upd_vd (\<lambda>d. f (g d)) s" "obs (upd_vd f s) = obs s"
  by (simp_all add: upd_vd_def no_plocks_def obs_def)

lemma upd_vd_id [simp]: "upd_vd (\<lambda>d. d) s = s"
  by (simp add: upd_vd_def)

lemma upd_buf_fields [simp]:
  "vd (upd_buf b f s) = vd s" "no_plocks (upd_buf b f s) = no_plocks s" "disk (upd_buf b f s) = disk s" "dhist (upd_buf b f s) = dhist s"
  by (simp_all add: upd_buf_def no_plocks_def)

text \<open>Taking back what \<open>alloc3_desc\<close> has taken: the free map is as it was.\<close>

lemma undo_alloc:
  assumes "no_plocks s" "\<forall>i \<in> set idx. i < NUM \<and> fr ! i" "distinct idx" "length fr = NUM"
    and "\<forall>i < NUM. v_free (vd s) ! i = (fr ! i \<and> i \<notin> set idx)" "length (v_free (vd s)) = NUM"
  shows "\<exists>t xs. kfor free_desc idx s = Ret () t \<and> drv s ((vd s)\<lparr>v_desc := xs, v_free := fr\<rparr>) t
    \<and> length xs = length (v_desc (vd s)) \<and> (\<forall>i. i \<notin> set idx \<longrightarrow> xs ! i = v_desc (vd s) ! i)"
  using assms
proof (induction idx arbitrary: s)
  case Nil
  then have "(vd s)\<lparr>v_free := fr\<rparr> = vd s" by (simp add: list_eq_iff_nth_eq flip: vdisk.surjective)
  then show ?case using drv_refl [of s] by (intro exI [of _ s] exI [of _ "v_desc (vd s)"]) simp
next
  case (Cons i idx)
  let ?d = "(vd s)\<lparr>v_desc := (v_desc (vd s))[i := zero_desc], v_free := (v_free (vd s))[i := True]\<rparr>"
  obtain t where t: "free_desc i s = Ret () t" "drv s ?d t" using free_desc_ok [of s i] Cons.prems by auto
  note f = drv_fields [OF t(2)]
  have "\<exists>u xs. kfor free_desc idx t = Ret () u \<and> drv t ((vd t)\<lparr>v_desc := xs, v_free := fr\<rparr>) u
    \<and> length xs = length (v_desc (vd t)) \<and> (\<forall>i. i \<notin> set idx \<longrightarrow> xs ! i = v_desc (vd t) ! i)"
    using Cons.prems f by (intro Cons.IH) (auto simp: nth_list_update)
  then obtain u xs where u: "kfor free_desc idx t = Ret () u" "drv t ((vd t)\<lparr>v_desc := xs, v_free := fr\<rparr>) u"
    "length xs = length (v_desc (vd t))" "\<forall>i. i \<notin> set idx \<longrightarrow> xs ! i = v_desc (vd t) ! i" by blast
  show ?case
    using t(1) u drv_trans [OF t(2) u(2)] f(1) by (intro exI [of _ u] exI [of _ xs]) auto
qed

lemma alloc3_cases:
  assumes "no_plocks s" "length (v_free (vd s)) = NUM"
  obtains (some) i j k where "distinct [i, j, k]" "\<forall>x \<in> {i, j, k}. x < NUM \<and> v_free (vd s) ! x"
      "alloc3_desc s = Ret (Some [i, j, k]) (upd_vd (\<lambda>d. d\<lparr>v_free := (v_free d)[i := False, j := False, k := False]\<rparr>) s)"
  | (none) t xs where "alloc3_desc s = Ret None t" "drv s ((vd s)\<lparr>v_desc := xs\<rparr>) t" "length xs = length (v_desc (vd s))"
      "\<forall>i < NUM. \<not> v_free (vd s) ! i \<longrightarrow> xs ! i = v_desc (vd s) ! i"
proof -
  note undo = undo_alloc [where fr = "v_free (vd s)"]
  have a: thesis if n: "alloc3_desc s = kthen (kfor free_desc idx) (kret None) (upd_vd (\<lambda>d. d\<lparr>v_free := fs\<rparr>) s)"
    and idx: "distinct idx" "\<forall>i \<in> set idx. i < NUM \<and> v_free (vd s) ! i" "length fs = NUM"
      "\<forall>i < NUM. fs ! i = (v_free (vd s) ! i \<and> i \<notin> set idx)" for idx fs
  proof -
    let ?s = "upd_vd (\<lambda>d. d\<lparr>v_free := fs\<rparr>) s"
    obtain t xs where t: "kfor free_desc idx ?s = Ret () t" "drv ?s ((vd ?s)\<lparr>v_desc := xs, v_free := v_free (vd s)\<rparr>) t"
      "length xs = length (v_desc (vd ?s))" "\<forall>i. i \<notin> set idx \<longrightarrow> xs ! i = v_desc (vd ?s) ! i"
      using undo [of ?s idx] assms idx by auto
    have "drv s ((vd s)\<lparr>v_desc := xs\<rparr>) t" using t(2) by (auto simp: drv_def upd_vd_def)
    then show thesis using none [of t xs] n t idx by (auto simp: kthen_def kbind_def kret_def)
  qed
  show thesis
  proof (cases rule: alloc_desc_cases [of s])
    case none
    have "alloc3_desc s = kthen (kfor free_desc []) (kret None) (upd_vd (\<lambda>d. d\<lparr>v_free := v_free (vd s)\<rparr>) s)"
      using none by (simp add: alloc3_desc_def numeral_3_eq_3 upd_vd_def)
    then show thesis by (rule a) (use assms in auto)
  next
    case (some i)
    note i = this
    let ?s1 = "upd_vd (\<lambda>d. d\<lparr>v_free := (v_free d)[i := False]\<rparr>) s"
    show thesis
    proof (cases rule: alloc_desc_cases [of ?s1])
      case none
      have "alloc3_desc s = kthen (kfor free_desc [i]) (kret None) (upd_vd (\<lambda>d. d\<lparr>v_free := (v_free (vd s))[i := False]\<rparr>) s)"
        using i none by (simp add: alloc3_desc_def numeral_3_eq_3 upd_vd_def)
      then show thesis by (rule a) (use assms i in \<open>auto simp: nth_list_update\<close>)
    next
      case (some j)
      note j = this
      let ?s2 = "upd_vd (\<lambda>d. d\<lparr>v_free := (v_free d)[i := False, j := False]\<rparr>) s"
      have ij: "i \<noteq> j" "v_free (vd s) ! j" using i j assms by (auto simp: nth_list_update split: if_splits)
      show thesis
      proof (cases rule: alloc_desc_cases [of ?s2])
        case none
        have "alloc3_desc s = kthen (kfor free_desc [i, j]) (kret None) (upd_vd (\<lambda>d. d\<lparr>v_free := (v_free (vd s))[i := False, j := False]\<rparr>) s)"
          using i j none by (simp add: alloc3_desc_def numeral_3_eq_3 upd_vd_def)
        then show thesis by (rule a) (use assms i j ij in \<open>auto simp: nth_list_update\<close>)
      next
        case (some k)
        have "alloc3_desc s = Ret (Some [i, j, k]) (upd_vd (\<lambda>d. d\<lparr>v_free := (v_free d)[i := False, j := False, k := False]\<rparr>) s)"
          using i j some by (simp add: alloc3_desc_def numeral_3_eq_3 kret_def)
        then show thesis using that(1) [of i j k] i j ij some assms by (auto simp: nth_list_update split: if_splits)
      qed
    qed
  qed
qed

section \<open>The rings\<close>

interpretation vr: ring NUM "TYPE(16)"
  by unfold_locales (simp_all add: NUM_def)

definition queue :: "vdisk \<Rightarrow> u16 \<Rightarrow> nat list \<Rightarrow> nat list" where
  "queue d tk fl = unserved d tk @ fl @ unseen d"

lemma unserved_publish:
  assumes "length (av_ring d) = NUM" "length (unserved d tk) < NUM" "i < NUM"
  shows "unserved (publish i d) tk = unserved d tk @ [i]"
proof -
  have l: "unat (av_idx d - tk) < NUM" using assms(2) by (simp add: unserved_def)
  have s: "unat (av_idx d + 1 - tk) = Suc (unat (av_idx d - tk))" using l by (intro counter_succ) (simp add: NUM_def)
  have "ring_slice NUM ((av_ring d)[unat (av_idx d) mod NUM := of_nat i]) tk (Suc (unat (av_idx d - tk)))
    = ring_slice NUM (av_ring d) tk (unat (av_idx d - tk)) @ [of_nat i]"
    using assms(1) l by (intro vr.slice_update vr.index)
  moreover have "unat (of_nat i :: u16) = i" using assms(3) by (simp add: NUM_def unat_of_nat)
  ultimately show ?thesis using s by (simp add: unserved_def publish_def)
qed

lemma unserved_take:
  "tk \<noteq> av_idx d \<Longrightarrow> unserved d tk = unat (av_ring d ! (unat tk mod NUM)) # unserved d (tk + 1)"
  using counter_pred [of "av_idx d" tk] by (auto simp: unserved_def vr.slice_Cons)

definition post :: "nat \<Rightarrow> vdisk \<Rightarrow> vdisk" where
  "post h d = d\<lparr>us_ring := (us_ring d)[unat (us_idx d) mod NUM := of_nat h], us_idx := us_idx d + 1\<rparr>"

lemma unseen_post:
  assumes "length (us_ring d) = NUM" "length (unseen d) < NUM" "h < NUM"
  shows "unseen (post h d) = unseen d @ [h]"
proof -
  let ?n = "unat (us_idx d - v_used_idx d)"
  have l: "?n < NUM" using assms(2) by (simp add: unseen_def)
  have s: "unat (us_idx d + 1 - v_used_idx d) = Suc ?n" using l by (intro counter_succ) (simp add: NUM_def)
  have "ring_slice NUM ((us_ring d)[unat (us_idx d) mod NUM := of_nat h]) (v_used_idx d) (Suc ?n)
    = ring_slice NUM (us_ring d) (v_used_idx d) ?n @ [of_nat h]"
    using assms(1) l by (intro vr.slice_update vr.index)
  moreover have "unat (of_nat h :: u32) = h" using assms(3) by (simp add: NUM_def unat_of_nat)
  ultimately show ?thesis using s by (simp add: unseen_def post_def)
qed

lemma unseen_ack:
  "v_used_idx d \<noteq> us_idx d \<Longrightarrow>
   unseen d = unat (us_ring d ! (unat (v_used_idx d) mod NUM)) # unseen (d\<lparr>v_used_idx := v_used_idx d + 1\<rparr>)"
  using counter_pred [of "us_idx d" "v_used_idx d"] by (auto simp: unseen_def vr.slice_Cons)

section \<open>The invariant\<close>

definition uses :: "rwpc \<Rightarrow> nat list" where
  "uses q = (case q of RIdle \<Rightarrow> [] | RWait _ _ h d1 d2 \<Rightarrow> [h, d1, d2])"

definition sizes :: "vdisk \<Rightarrow> bool" where
  "sizes d \<longleftrightarrow> length (v_desc d) = NUM \<and> length (av_ring d) = NUM \<and> length (us_ring d) = NUM \<and> length (v_free d) = NUM
     \<and> length (v_info_b d) = NUM \<and> length (v_info_status d) = NUM \<and> length (v_ops d) = NUM"

text \<open>The descriptors of a request are formed as the specification demands.\<close>

definition formed :: "vdisk \<Rightarrow> nat \<Rightarrow> bool \<Rightarrow> u32 \<Rightarrow> nat \<Rightarrow> nat \<Rightarrow> nat \<Rightarrow> bool" where
  "formed d b wr n h d1 d2 \<longleftrightarrow>
     v_ops d ! h = \<lparr>q_type = (if wr then VIRTIO_BLK_T_OUT else VIRTIO_BLK_T_IN), q_reserved = 0, q_sector = 2 * ucast n\<rparr>
   \<and> v_desc d ! h = \<lparr>d_addr = DOps h, d_len = 16, d_flags = VRING_DESC_F_NEXT, d_next = of_nat d1\<rparr>
   \<and> v_desc d ! d1 = \<lparr>d_addr = DData b, d_len = 1024, d_flags = (if wr then 0 else VRING_DESC_F_WRITE) OR VRING_DESC_F_NEXT, d_next = of_nat d2\<rparr>
   \<and> v_desc d ! d2 = \<lparr>d_addr = DStatus h, d_len = 1, d_flags = VRING_DESC_F_WRITE, d_next = 0\<rparr>
   \<and> v_info_b d ! h = Some b"

definition req_ok :: "vdisk \<Rightarrow> buf list \<Rightarrow> nat list \<Rightarrow> rwpc \<Rightarrow> bool" where
  "req_ok d bs qu q = (case q of RIdle \<Rightarrow> True | RWait b wr h d1 d2 \<Rightarrow>
     b < NBUF \<and> distinct [h, d1, d2] \<and> h < NUM \<and> d1 < NUM \<and> d2 < NUM \<and> formed d b wr (b_blockno (bs ! b)) h d1 d2
   \<and> (b_disk (bs ! b) \<longleftrightarrow> h \<in> set qu) \<and> (h \<in> set (unseen d) \<longrightarrow> v_info_status d ! h = 0))"

definition heads :: "(nat \<Rightarrow> rwpc) \<Rightarrow> nat set" where
  "heads rp = {h. \<exists>p b wr d1 d2. rp p = RWait b wr h d1 d2}"

definition vinv :: "vdisk \<Rightarrow> buf list \<Rightarrow> (nat \<Rightarrow> rwpc) \<Rightarrow> u16 \<Rightarrow> nat list \<Rightarrow> bool" where
  "vinv d bs rp tk fl \<longleftrightarrow> sizes d \<and> length bs = Suc NBUF \<and> (\<forall>p. req_ok d bs (queue d tk fl) (rp p))
   \<and> (\<forall>p q i. i \<in> set (uses (rp p)) \<and> i \<in> set (uses (rp q)) \<longrightarrow> p = q)
   \<and> (\<forall>i < NUM. v_free d ! i \<longleftrightarrow> (\<forall>p. i \<notin> set (uses (rp p))))
   \<and> (\<forall>p q b. waits_for b (rp p) \<and> waits_for b (rp q) \<longrightarrow> p = q)
   \<and> distinct (queue d tk fl) \<and> set (queue d tk fl) \<subseteq> heads rp"

lemma formed_chain: "formed d b wr n h d1 d2 \<Longrightarrow> d1 < NUM \<Longrightarrow> d2 < NUM \<Longrightarrow> chain_of d h b wr n h"
  by (simp add: formed_def chain_of_def NUM_def unat_of_nat)

lemma vinv_req: "vinv d bs rp tk fl \<Longrightarrow> req_ok d bs (queue d tk fl) (rp p)"
  by (simp add: vinv_def)

lemma heads_less: "vinv d bs rp tk fl \<Longrightarrow> h \<in> heads rp \<Longrightarrow> h < NUM"
  using vinv_req [of d bs rp tk fl] by (fastforce simp: heads_def req_ok_def split: rwpc.splits)

lemma queue_room:
  assumes "vinv d bs rp tk fl" "h < NUM" "h \<notin> set xs" "distinct xs" "set xs \<subseteq> set (queue d tk fl)"
  shows "length xs < NUM"
proof -
  have "set (queue d tk fl) \<subseteq> {..<NUM}" using assms(1) heads_less [OF assms(1)] by (auto simp: vinv_def)
  then have s: "set (h # xs) \<subseteq> {..<NUM}" using assms(2,5) by auto
  have "card (set (h # xs)) = Suc (length xs)" using assms(3,4) by (simp add: distinct_card)
  then show ?thesis using card_mono [OF _ s] by simp
qed

lemma req_ok_frame:
  assumes "req_ok d bs qu q"
    and "\<And>b. waits_for b q \<Longrightarrow> b_disk (bs' ! b) = b_disk (bs ! b) \<and> b_blockno (bs' ! b) = b_blockno (bs ! b)"
    and "\<And>i. i \<in> set (uses q) \<Longrightarrow> v_desc d' ! i = v_desc d ! i \<and> v_ops d' ! i = v_ops d ! i \<and> v_info_b d' ! i = v_info_b d ! i
      \<and> (i \<in> set qu' \<longleftrightarrow> i \<in> set qu) \<and> (i \<in> set (unseen d') \<longrightarrow> i \<in> set (unseen d)) \<and> v_info_status d' ! i = v_info_status d ! i"
  shows "req_ok d' bs' qu' q"
  using assms by (cases q) (auto simp: req_ok_def waits_for_def uses_def formed_def)

lemma vinv_perm:
  assumes "vinv d bs rp tk fl" "set (queue d tk' fl') = set (queue d tk fl)" "distinct (queue d tk' fl')"
  shows "vinv d bs rp tk' fl'"
  using assms by (auto simp: vinv_def intro: req_ok_frame)

lemma vinv_take:
  assumes v: "vinv d bs rp tk fl" and t: "tk \<noteq> av_idx d"
  shows "vinv d bs rp (tk + 1) (fl @ [unat (av_ring d ! (unat tk mod NUM))])"
  using v by (rule vinv_perm) (use v unserved_take [OF t] in \<open>auto simp: queue_def vinv_def\<close>)

text \<open>Two requests share neither a descriptor nor a buffer.\<close>

lemma vinv_apart:
  assumes "vinv d bs rp tk fl" "rp p = RWait b wr h d1 d2" "q \<noteq> p"
  shows "i \<in> set (uses (rp q)) \<Longrightarrow> h \<noteq> i \<and> d1 \<noteq> i \<and> d2 \<noteq> i" "\<not> waits_for b (rp q)"
proof -
  have u: "set (uses (rp p)) = {h, d1, d2}" "waits_for b (rp p)" using assms(2) by (simp_all add: uses_def waits_for_def)
  show "h \<noteq> i \<and> d1 \<noteq> i \<and> d2 \<noteq> i" if "i \<in> set (uses (rp q))"
  proof -
    have "i \<notin> {h, d1, d2}" using assms(1,3) that unfolding u(1) [symmetric] by (metis vinv_def)
    then show ?thesis by auto
  qed
  show "\<not> waits_for b (rp q)" using assms(1,3) u(2) by (metis vinv_def)
qed

lemma in_heads: "h \<in> heads rp \<Longrightarrow> \<exists>p b wr d1 d2. rp p = RWait b wr h d1 d2"
  by (simp add: heads_def)

lemma unseen_complete:
  assumes v: "vinv d bs rp tk fl" and h: "h \<in> set fl"
  shows "unseen (post h (d\<lparr>v_info_status := xs\<rparr>)) = unseen d @ [h]"
proof -
  have hN: "h < NUM" using v h heads_less [OF v, of h] by (auto simp: vinv_def queue_def)
  have "length (unseen d) < NUM"
    by (rule queue_room [OF v hN]) (use v h in \<open>auto simp: queue_def vinv_def\<close>)
  moreover have "length (us_ring d) = NUM" using v by (simp add: vinv_def sizes_def)
  moreover have "unseen (d\<lparr>v_info_status := xs\<rparr>) = unseen d" by (simp add: unseen_def)
  ultimately show ?thesis using unseen_post [of "d\<lparr>v_info_status := xs\<rparr>" h] hN by simp
qed

lemma vinv_complete:
  assumes v: "vinv d bs rp tk fl" and h: "h \<in> set fl" and p: "rp p = RWait b wr h d1 d2"
    and bs: "length bs' = length bs" "\<And>i. b_disk (bs' ! i) = b_disk (bs ! i) \<and> b_blockno (bs' ! i) = b_blockno (bs ! i)"
  shows "vinv (post h (d\<lparr>v_info_status := (v_info_status d)[h := 0]\<rparr>)) bs' rp tk (remove1 h fl)" (is "vinv ?d _ _ _ _")
proof -
  have dq: "distinct (queue d tk fl)" using v by (simp add: vinv_def)
  have hN: "h < NUM" using vinv_req [OF v, of p] p by (simp add: req_ok_def)
  have s: "sizes d" using v by (simp add: vinv_def)
  have u: "unseen ?d = unseen d @ [h]" by (rule unseen_complete [OF v h])
  have us2: "unserved ?d tk = unserved d tk" by (simp add: unserved_def post_def)
  have sq: "set (queue ?d tk (remove1 h fl)) = set (queue d tk fl)"
    using h dq by (auto simp: queue_def u us2 set_remove1_eq)
  have d': "distinct (queue ?d tk (remove1 h fl))"
    using h dq by (auto simp: queue_def u us2 set_remove1_eq distinct_remove1)
  have "req_ok ?d bs' (queue ?d tk (remove1 h fl)) (rp q)" for q
  proof (cases "q = p")
    case True
    then show ?thesis using vinv_req [OF v, of p] p bs(2) s sq hN
      by (auto simp: req_ok_def formed_def post_def sizes_def u us2)
  next
    case False
    show ?thesis using vinv_req [OF v, of q] by (rule req_ok_frame)
        (use vinv_apart [OF v p False] bs(2) sq u in \<open>auto simp: post_def\<close>)
  qed
  then show ?thesis using v d' sq bs(1) by (simp add: vinv_def sizes_def post_def)
qed

lemma vinv_ack:
  assumes v: "vinv d bs rp tk fl" and n: "v_used_idx d \<noteq> us_idx d"
    and h: "h = unat (us_ring d ! (unat (v_used_idx d) mod NUM))" and p: "rp p = RWait b wr h d1 d2"
  shows "vinv (d\<lparr>v_used_idx := v_used_idx d + 1\<rparr>) (bs[b := (bs ! b)\<lparr>b_disk := False\<rparr>]) rp tk fl" (is "vinv ?d ?bs _ _ _")
proof -
  have u: "unseen d = h # unseen ?d" using unseen_ack [OF n] h by simp
  have us: "unserved ?d tk = unserved d tk" by (simp add: unserved_def)
  have dq: "distinct (queue d tk fl)" using v by (simp add: vinv_def)
  have sq: "set (queue ?d tk fl) = set (queue d tk fl) - {h}" "distinct (queue ?d tk fl)"
    using dq by (auto simp: queue_def u us)
  have "req_ok ?d ?bs (queue ?d tk fl) (rp q)" for q
  proof (cases "q = p")
    case True
    then show ?thesis using vinv_req [OF v, of p] p v sq(1) dq by (auto simp: req_ok_def formed_def vinv_def u queue_def)
  next
    case False
    show ?thesis using vinv_req [OF v, of q] by (rule req_ok_frame)
        (use vinv_apart [OF v p False] sq u in \<open>auto simp: nth_list_update waits_for_def split: rwpc.splits\<close>)
  qed
  then show ?thesis using v sq by (auto simp: vinv_def sizes_def)
qed

lemma vinv_full:
  assumes v: "vinv d bs rp tk fl" and "length xs = length (v_desc d)" "\<forall>i < NUM. \<not> v_free d ! i \<longrightarrow> xs ! i = v_desc d ! i"
  shows "vinv (d\<lparr>v_desc := xs\<rparr>) bs rp tk fl" (is "vinv ?d _ _ _ _")
proof -
  have q: "queue ?d tk fl = queue d tk fl" "unseen ?d = unseen d" by (simp_all add: queue_def unserved_def unseen_def)
  have "i < NUM \<and> \<not> v_free d ! i" if "i \<in> set (uses (rp p))" for i p
  proof -
    have "i < NUM" using vinv_req [OF v, of p] that by (auto simp: req_ok_def uses_def split: rwpc.splits)
    then show ?thesis using v that by (auto simp: vinv_def)
  qed
  then have "req_ok ?d bs (queue ?d tk fl) (rp p)" for p
    using vinv_req [OF v, of p] by (rule_tac req_ok_frame) (use assms(3) q in auto)
  then show ?thesis using v assms(2) q by (simp add: vinv_def sizes_def)
qed

lemma vinv_client:
  assumes v: "vinv d bs rp tk fl" and "length bs' = length bs" "\<forall>b q. waits_for b (rp q) \<longrightarrow> bs' ! b = bs ! b"
  shows "vinv d bs' rp tk fl"
proof -
  have "req_ok d bs' (queue d tk fl) (rp p)" for p
    using vinv_req [OF v, of p] by (rule req_ok_frame) (use assms(3) in auto)
  then show ?thesis using v assms(2) by (simp add: vinv_def)
qed

lemma sector_eq: "n < 2 ^ 31 \<Longrightarrow> (ucast (n * of_nat (BSIZE div 512) :: u32) :: u64) = 2 * ucast n" for n :: u32
proof -
  assume "n < 2 ^ 31"
  then have "uint n < 2147483648" by (simp add: word_less_def)
  then have "uint (n * 2) = 2 * uint n" by (simp add: uint_word_ariths)
  then show ?thesis by (simp add: BSIZE_def word_uint_eq_iff uint_word_ariths unsigned_ucast_eq take_bit_eq_mod)
qed

lemma vinvD:
  assumes "vinv d bs rp tk fl"
  shows "sizes d" "length bs = Suc NBUF" "distinct (queue d tk fl)" "set (queue d tk fl) \<subseteq> heads rp"
    "i \<in> set (uses (rp p)) \<Longrightarrow> i \<in> set (uses (rp q)) \<Longrightarrow> p = q"
    "i < NUM \<Longrightarrow> v_free d ! i \<longleftrightarrow> (\<forall>p. i \<notin> set (uses (rp p)))"
    "waits_for b (rp p) \<Longrightarrow> waits_for b (rp q) \<Longrightarrow> p = q"
  using assms unfolding vinv_def by blast+

lemma vinv_free: "vinv d bs rp tk fl \<Longrightarrow> i < NUM \<Longrightarrow> v_free d ! i \<Longrightarrow> i \<notin> set (uses (rp q)) \<and> i \<notin> set (queue d tk fl)"
proof -
  assume v: "vinv d bs rp tk fl" and i: "i < NUM" "v_free d ! i"
  have f: "i \<notin> set (uses (rp q))" for q using vinvD(6) [OF v i(1)] i(2) by blast
  then have "i \<notin> heads rp" by (auto simp: heads_def uses_def) (metis list.set_intros(1) rwpc.simps(6))
  then show ?thesis using f vinvD(4) [OF v] by blast
qed

lemma unserved_request:
  assumes v: "vinv d bs rp tk fl" and idx: "distinct [i, j, k]" "\<forall>x \<in> {i, j, k}. x < NUM \<and> v_free d ! x"
  shows "unserved (publish i (format_req b wr n [i, j, k] (d\<lparr>v_free := xs\<rparr>))) tk = unserved d tk @ [i]" (is "unserved (publish i ?f) _ = _")
proof -
  have fr: "i \<notin> set (queue d tk fl)" using vinv_free [OF v, of i] idx(2) by blast
  have qf: "unserved ?f tk = unserved d tk" "length (av_ring ?f) = NUM"
    using vinvD(1) [OF v] by (simp_all add: format_req_def unserved_def Let_def sizes_def)
  have "length (unserved d tk) < NUM"
    by (rule queue_room [OF v, of i]) (use vinvD(3) [OF v] idx fr in \<open>auto simp: queue_def\<close>)
  then show ?thesis using unserved_publish [of ?f tk i] idx(2) qf by simp
qed

lemma vinv_request:
  assumes v: "vinv d bs rp tk fl" and b: "b < NBUF" "\<forall>q. \<not> waits_for b (rp q)" "b_blockno (bs ! b) < 2 ^ 31"
    and p: "rp p = RIdle" and idx: "distinct [i, j, k]" "\<forall>x \<in> {i, j, k}. x < NUM \<and> v_free d ! x"
  shows "vinv (publish i (format_req b wr (b_blockno (bs ! b)) [i, j, k] (d\<lparr>v_free := (v_free d)[i := False, j := False, k := False]\<rparr>)))
    (bs[b := (bs ! b)\<lparr>b_disk := True\<rparr>]) (rp(p := RWait b wr i j k)) tk fl" (is "vinv (publish i ?f) ?bs ?rp tk fl")
proof -
  note s = vinvD(1,2) [OF v] and dq = vinvD(3) [OF v]
  have fr: "x \<notin> set (uses (rp q)) \<and> x \<notin> set (queue d tk fl)" if "x \<in> {i, j, k}" for x q using vinv_free [OF v, of x q] idx(2) that by blast
  have us: "unserved (publish i ?f) tk = unserved d tk @ [i]" by (rule unserved_request [OF v idx])
  have qf: "unseen ?f = unseen d" by (simp add: format_req_def unseen_def Let_def)
  have un: "unseen (publish i ?f) = unseen d" using qf by (simp add: publish_def unseen_def)
  have sq: "set (queue (publish i ?f) tk fl) = insert i (set (queue d tk fl))" "distinct (queue (publish i ?f) tk fl)"
    using dq fr [of i] by (auto simp: queue_def us un)
  have ops: "v_desc (publish i ?f) = v_desc ?f" "v_ops (publish i ?f) = v_ops ?f" "v_info_b (publish i ?f) = v_info_b ?f"
    "v_info_status (publish i ?f) = v_info_status ?f" "v_free (publish i ?f) = (v_free d)[i := False, j := False, k := False]"
    by (simp_all add: publish_def format_req_def Let_def)
  have new: "req_ok (publish i ?f) ?bs (queue (publish i ?f) tk fl) (RWait b wr i j k)"
    using b s idx sq fr [of i] sector_eq [OF b(3)]
    by (simp add: req_ok_def formed_def ops un) (simp add: format_req_def Let_def sizes_def nth_list_update BSIZE_def queue_def)
  have old: "req_ok (publish i ?f) ?bs (queue (publish i ?f) tk fl) (rp q)" for q
  proof (rule req_ok_frame [OF vinv_req [OF v, of q]])
    show "b_disk (?bs ! b') = b_disk (bs ! b') \<and> b_blockno (?bs ! b') = b_blockno (bs ! b')" if "waits_for b' (rp q)" for b'
      using b(2) that by (cases "b' = b") auto
  next
    fix x assume x: "x \<in> set (uses (rp q))"
    then have ne: "x \<noteq> i" "x \<noteq> j" "x \<noteq> k" using fr by auto
    show "v_desc (publish i ?f) ! x = v_desc d ! x \<and> v_ops (publish i ?f) ! x = v_ops d ! x \<and> v_info_b (publish i ?f) ! x = v_info_b d ! x
      \<and> (x \<in> set (queue (publish i ?f) tk fl) \<longleftrightarrow> x \<in> set (queue d tk fl)) \<and> (x \<in> set (unseen (publish i ?f)) \<longrightarrow> x \<in> set (unseen d))
      \<and> v_info_status (publish i ?f) ! x = v_info_status d ! x"
      using ne sq(1) un ops by (simp add: format_req_def Let_def)
  qed
  have u: "uses (RWait b wr i j k) = [i, j, k]" "uses RIdle = []" by (simp_all add: uses_def)
  show ?thesis unfolding vinv_def
  proof (intro conjI allI impI)
    show "sizes (publish i ?f)" "length ?bs = Suc NBUF" using s by (simp_all add: sizes_def publish_def format_req_def Let_def)
    show "req_ok (publish i ?f) ?bs (queue (publish i ?f) tk fl) (?rp q)" for q using new old by simp
    show "q = r" if "x \<in> set (uses (?rp q)) \<and> x \<in> set (uses (?rp r))" for q r x
      using that vinvD(5) [OF v, of x q r] fr [of x] u by (auto split: if_splits)
    show "v_free (publish i ?f) ! x \<longleftrightarrow> (\<forall>q. x \<notin> set (uses (?rp q)))" if "x < NUM" for x
    proof -
      have "(\<forall>q. x \<notin> set (uses (?rp q))) \<longleftrightarrow> x \<notin> {i, j, k} \<and> (\<forall>q. x \<notin> set (uses (rp q)))"
        using u p by (metis (no_types, lifting) empty_iff fun_upd_apply insert_iff list.simps(15) list.set(1))
      moreover have "v_free (publish i ?f) ! x \<longleftrightarrow> x \<notin> {i, j, k} \<and> v_free d ! x"
        using that s(1) idx(2) unfolding ops by (simp add: nth_list_update sizes_def)
      ultimately show ?thesis using vinvD(6) [OF v that] by blast
    qed
    show "q = r" if "waits_for b' (?rp q) \<and> waits_for b' (?rp r)" for q r b'
      using that vinvD(7) [OF v, of b' q r] b(2) by (auto simp: waits_for_def split: if_splits)
    show "distinct (queue (publish i ?f) tk fl)" by (fact sq)
    show "set (queue (publish i ?f) tk fl) \<subseteq> heads ?rp"
    proof -
      have "heads rp \<subseteq> heads ?rp"
      proof
        fix x assume "x \<in> heads rp"
        then obtain q b' wr' d1 d2 where "rp q = RWait b' wr' x d1 d2" by (auto simp: heads_def)
        then have "?rp q = RWait b' wr' x d1 d2" using p by (cases "q = p") auto
        then show "x \<in> heads ?rp" unfolding heads_def by blast
      qed
      moreover have "i \<in> heads ?rp" by (auto simp: heads_def)
      ultimately show ?thesis using vinvD(4) [OF v] unfolding sq(1) by blast
    qed
  qed
qed

lemma drv_upd: "drv s (f (vd s)) (upd_vd f s)"
proof -
  have "upd_vd f s = s\<lparr>procs := procs s, vd := f (vd s)\<rparr>" by (simp add: upd_vd_def)
  then show ?thesis unfolding drv_def by blast
qed

lemma uses_simps [simp]: "uses RIdle = []" "uses (RWait b wr h d1 d2) = [h, d1, d2]"
  by (simp_all add: uses_def)

definition linked :: "vdisk \<Rightarrow> nat \<Rightarrow> nat \<Rightarrow> nat \<Rightarrow> bool" where
  "linked d h d1 d2 \<longleftrightarrow> d_flags (v_desc d ! h) AND VRING_DESC_F_NEXT \<noteq> 0 \<and> d_flags (v_desc d ! d1) AND VRING_DESC_F_NEXT \<noteq> 0
     \<and> d_flags (v_desc d ! d2) AND VRING_DESC_F_NEXT = 0 \<and> unat (d_next (v_desc d ! h)) = d1 \<and> unat (d_next (v_desc d ! d1)) = d2"

lemma formed_linked: "formed d b wr n h d1 d2 \<Longrightarrow> d1 < NUM \<Longrightarrow> d2 < NUM \<Longrightarrow> linked d h d1 d2"
  by (simp add: formed_def linked_def VRING_DESC_F_NEXT_def VRING_DESC_F_WRITE_def NUM_def unat_of_nat)

definition freed :: "nat \<Rightarrow> vdisk \<Rightarrow> vdisk" where
  "freed i d = d\<lparr>v_desc := (v_desc d)[i := zero_desc], v_free := (v_free d)[i := True]\<rparr>"

lemma freed_fields [simp]:
  "v_info_b (freed i d) = v_info_b d" "unseen (freed i d) = unseen d" "unserved (freed i d) tk = unserved d tk"
  "v_info_status (freed i d) = v_info_status d" "v_ops (freed i d) = v_ops d"
  "i \<noteq> j \<Longrightarrow> v_desc (freed i d) ! j = v_desc d ! j" "i \<noteq> j \<Longrightarrow> v_free (freed i d) ! j = v_free d ! j" "sizes (freed i d) = sizes d"
  by (simp_all add: freed_def unseen_def unserved_def sizes_def)

lemma free_chain_step:
  assumes "no_plocks s" "i < NUM" "\<not> v_free (vd s) ! i"
  obtains t where "drv s (freed i (vd s)) t"
    "\<And>n. free_chain_loop (Suc n) i s
       = (if d_flags (v_desc (vd s) ! i) AND VRING_DESC_F_NEXT \<noteq> 0 then free_chain_loop n (unat (d_next (v_desc (vd s) ! i))) t else Ret () t)"
proof -
  obtain t where t: "free_desc i s = Ret () t" "drv s (freed i (vd s)) t" using free_desc_ok [OF assms] by (auto simp: freed_def)
  show thesis by (rule that [OF t(2)]) (use t(1) in \<open>auto simp: Let_def kret_def\<close>)
qed

lemma free_chain_ok:
  assumes f: "linked (vd s) h d1 d2" and i: "distinct [h, d1, d2]" "h < NUM" "d1 < NUM" "d2 < NUM"
    and fr: "\<not> v_free (vd s) ! h" "\<not> v_free (vd s) ! d1" "\<not> v_free (vd s) ! d2" and "no_plocks s"
  shows "\<exists>t. free_chain h s = Ret () t \<and> drv s (freed d2 (freed d1 (freed h (vd s)))) t"
proof -
  note fl = f [unfolded linked_def]
  obtain t1 where t1: "drv s (freed h (vd s)) t1" "\<And>n. free_chain_loop (Suc n) h s = free_chain_loop n d1 t1"
    using free_chain_step [OF \<open>no_plocks s\<close> i(2) fr(1)] fl by metis
  note f1 = drv_fields [OF t1(1)]
  obtain t2 where t2: "drv t1 (freed d1 (vd t1)) t2" "\<And>n. free_chain_loop (Suc n) d1 t1 = free_chain_loop n d2 t2"
    using free_chain_step [of t1 d1] f1 i fr fl \<open>no_plocks s\<close> by auto
  note f2 = drv_fields [OF t2(1)]
  obtain t3 where t3: "drv t2 (freed d2 (vd t2)) t3" "\<And>n. free_chain_loop (Suc n) d2 t2 = Ret () t3"
    using free_chain_step [of t2 d2] f1 f2 i fr fl \<open>no_plocks s\<close> by auto
  have "free_chain h s = Ret () t3" using t1(2) t2(2) t3(2) by (simp add: free_chain_def NUM_def numeral_eq_Suc del: free_chain_loop.simps)
  moreover have "drv s (freed d2 (vd t2)) t3" using drv_trans [OF t1(1) drv_trans [OF t2(1) t3(1)]] .
  ultimately show ?thesis using f1(1) f2(1) by auto
qed

definition finished :: "nat \<Rightarrow> nat \<Rightarrow> nat \<Rightarrow> vdisk \<Rightarrow> vdisk" where
  "finished h d1 d2 d = freed d2 (freed d1 (freed h (d\<lparr>v_info_b := (v_info_b d)[h := None]\<rparr>)))"

lemma rw_finish_ok:
  assumes v: "vinv (vd s) (bufs s) rp tk fl" and p: "rp p = RWait b wr h d1 d2" and b: "\<not> b_disk (bufs s ! b)" and n: "no_plocks s"
  shows "\<exists>t. rw_finish h s = Ret () t \<and> drv s (finished h d1 d2 (vd s)) t"
proof -
  let ?s = "upd_vd (\<lambda>d. d\<lparr>v_info_b := (v_info_b d)[h := None]\<rparr>) s"
  have r: "distinct [h, d1, d2]" "h < NUM" "d1 < NUM" "d2 < NUM" "linked (vd s) h d1 d2"
    using vinv_req [OF v, of p] p by (auto simp: req_ok_def intro: formed_linked)
  have "\<not> v_free (vd s) ! x" if "x \<in> {h, d1, d2}" for x
  proof -
    have "x \<in> set (uses (rp p))" "x < NUM" using that p r(2-4) by auto
    then show ?thesis using vinvD(6) [OF v, of x] by blast
  qed
  then have "\<exists>t. free_chain h ?s = Ret () t \<and> drv ?s (finished h d1 d2 (vd s)) t"
    using free_chain_ok [of ?s h d1 d2] r n by (simp add: finished_def linked_def)
  then obtain t where t: "free_chain h ?s = Ret () t" "drv ?s (finished h d1 d2 (vd s)) t" by blast
  have "drv s (finished h d1 d2 (vd s)) t" by (rule drv_trans [OF drv_upd t(2)])
  then show ?thesis using t(1) by (simp add: rw_finish_def)
qed

lemma vinv_finish:
  assumes v: "vinv d bs rp tk fl" and p: "rp p = RWait b wr h d1 d2" and b: "\<not> b_disk (bs ! b)"
  shows "vinv (finished h d1 d2 d) bs (rp(p := RIdle)) tk fl" (is "vinv ?d _ ?rp _ _")
proof -
  have r: "b < NBUF" "distinct [h, d1, d2]" "h < NUM" "d1 < NUM" "d2 < NUM" "h \<notin> set (queue d tk fl)"
    using vinv_req [OF v, of p] p b by (simp_all add: req_ok_def)
  have q: "unseen ?d = unseen d" "unserved ?d tk = unserved d tk" "queue ?d tk fl = queue d tk fl"
    by (simp_all add: finished_def queue_def unseen_def unserved_def freed_def)
  have old: "req_ok ?d bs (queue ?d tk fl) (rp q)" if "q \<noteq> p" for q
    using vinv_req [OF v, of q] by (rule req_ok_frame) (use vinv_apart [OF v p that] q in \<open>auto simp: finished_def freed_def\<close>)
  have up: "set (uses (rp p)) = {h, d1, d2}" using p by (simp add: uses_def)
  have e: "uses (?rp q) = (if q = p then [] else uses (rp q))" for q by (simp add: uses_def)
  show ?thesis unfolding vinv_def
  proof (intro conjI allI impI)
    show "sizes ?d" using vinvD(1) [OF v] by (simp add: finished_def sizes_def freed_def)
    show "length bs = Suc NBUF" by (fact vinvD(2) [OF v])
    show "req_ok ?d bs (queue ?d tk fl) (?rp q)" for q using old by (cases "q = p") (simp_all add: req_ok_def)
    show "q = r" if "x \<in> set (uses (?rp q)) \<and> x \<in> set (uses (?rp r))" for q r x
      using that vinvD(5) [OF v, of x q r] by (auto simp: e split: if_splits)
    show "v_free ?d ! x \<longleftrightarrow> (\<forall>q. x \<notin> set (uses (?rp q)))" if "x < NUM" for x
    proof (cases "x \<in> {h, d1, d2}")
      case True
      then have "x \<notin> set (uses (?rp q))" for q using vinvD(5) [OF v, of x p q] up by (auto simp: e)
      moreover have "v_free ?d ! x" using True that vinvD(1) [OF v] r(3-5) by (auto simp: finished_def freed_def sizes_def nth_list_update)
      ultimately show ?thesis by blast
    next
      case False
      then have "v_free ?d ! x = v_free d ! x" by (auto simp: finished_def)
      moreover have "(\<forall>q. x \<notin> set (uses (?rp q))) \<longleftrightarrow> (\<forall>q. x \<notin> set (uses (rp q)))" using False up unfolding e by (metis empty_iff list.set(1))
      ultimately show ?thesis using vinvD(6) [OF v that] by simp
    qed
    show "q = r" if "waits_for b' (?rp q) \<and> waits_for b' (?rp r)" for q r b'
      using that vinvD(7) [OF v, of b' q r] by (auto simp: waits_for_def split: if_splits)
    show "distinct (queue ?d tk fl)" using vinvD(3) [OF v] q by simp
    show "set (queue ?d tk fl) \<subseteq> heads ?rp"
    proof
      fix x assume "x \<in> set (queue ?d tk fl)"
      then have x: "x \<in> heads rp" "x \<noteq> h" using q r(6) vinvD(4) [OF v] by auto
      then obtain q b' wr' d1' d2' where "rp q = RWait b' wr' x d1' d2'" by (auto simp: heads_def)
      then have "?rp q = RWait b' wr' x d1' d2'" using p x(2) by (cases "q = p") auto
      then show "x \<in> heads ?rp" unfolding heads_def by blast
    qed
  qed
qed

section \<open>The counted loops\<close>

text \<open>
  One more round than \<open>NUM\<close> changes nothing in \<open>free_chain\<close>, because every round takes
  a descriptor out of use; and \<open>virtio_disk_intr\<close> stops with the counters equal.
\<close>

definition in_use :: "vdisk \<Rightarrow> nat" where
  "in_use d = length (filter Not (v_free d))"

lemma in_use_freed: "i < length (v_free d) \<Longrightarrow> \<not> v_free d ! i \<Longrightarrow> Suc (in_use (freed i d)) = in_use d"
proof -
  assume i: "i < length (v_free d)" "\<not> v_free d ! i"
  let ?xs = "take i (v_free d)" and ?ys = "drop (Suc i) (v_free d)"
  have e: "v_free d = ?xs @ False # ?ys" using id_take_nth_drop [OF i(1)] i(2) by simp
  have f: "v_free (freed i d) = ?xs @ True # ?ys" using i(1) by (simp add: freed_def upd_conv_take_nth_drop)
  have "in_use d = length (filter Not (?xs @ False # ?ys))" unfolding in_use_def by (rule arg_cong [OF e])
  then show ?thesis unfolding in_use_def f by simp
qed

lemma free_desc_cases:
  assumes "no_plocks s" "length (v_free (vd s)) = NUM"
  obtains (ok) t where "free_desc i s = Ret () t" "drv s (freed i (vd s)) t" "Suc (in_use (freed i (vd s))) = in_use (vd s)"
  | (bad) e where "free_desc i s = Panic e"
proof (cases "i < NUM \<and> \<not> v_free (vd s) ! i")
  case True
  then obtain t where "free_desc i s = Ret () t" "drv s (freed i (vd s)) t" using free_desc_ok [OF assms(1), of i] by (auto simp: freed_def)
  then show thesis using ok in_use_freed [of i "vd s"] True assms(2) by auto
next
  case False
  then have "\<exists>e. free_desc i s = Panic e" by (auto simp: free_desc_def)
  then show thesis using bad by blast
qed

lemma free_chain_enough:
  fixes s :: virt_st
  assumes "no_plocks s" "length (v_free (vd s)) = NUM" "in_use (vd s) \<le> n"
  shows "free_chain_loop (Suc n) i s = free_chain_loop n i s"
  using assms
proof (induction n arbitrary: i s)
  case 0
  from 0(1,2) show ?case
  proof (cases rule: free_desc_cases [of s i])
    case (ok t) then show ?thesis using 0(3) by simp
  qed (simp add: Let_def)
next
  case (Suc n)
  note step = free_chain_loop.simps(2) [of _ i s]
  from Suc.prems(1,2) show ?case
  proof (cases rule: free_desc_cases [of s i])
    case (ok t)
    note f = drv_fields [OF ok(2)]
    have "length (v_free (vd t)) = NUM" using Suc.prems(2) f(1) by (simp add: freed_def)
    then have "free_chain_loop (Suc n) j t = free_chain_loop n j t" for j using ok(3) f Suc.prems(1,3) by (intro Suc.IH) auto
    then show ?thesis unfolding step [of "Suc n"] step [of n] Let_def kthen_simps(1) [of "free_desc i", OF ok(1)] by simp
  next
    case (bad e)
    show ?thesis unfolding step [of "Suc n"] step [of n] Let_def kthen_simps(2) [of "free_desc i", OF bad] ..
  qed
qed

lemma free_chain_fuel:
  fixes s :: virt_st
  assumes "no_plocks s" "length (v_free (vd s)) = NUM"
  shows "free_chain i s = free_chain_loop (NUM + k) i s"
proof (induction k)
  case (Suc k)
  have "in_use (vd s) \<le> NUM + k" using assms(2) length_filter_le [of Not "v_free (vd s)"] by (simp add: in_use_def)
  then show ?case using Suc free_chain_enough [OF assms, of "NUM + k" i] by (simp del: free_chain_loop.simps)
qed (simp add: free_chain_def)

lemma intr_one_vd:
  fixes s :: virt_st
  assumes "intr_one s = Ret () t" "no_plocks s"
  shows "vd t = (vd s)\<lparr>v_used_idx := v_used_idx (vd s) + 1\<rparr> \<and> no_plocks t"
proof -
  obtain b u where b: "wakeup (Some (ChBuf b)) (upd_buf b (\<lambda>x. x\<lparr>b_disk := False\<rparr>) s) = Ret () u"
    "t = upd_vd (\<lambda>d. d\<lparr>v_used_idx := v_used_idx d + 1\<rparr>) u"
    using assms(1) by (auto simp: intr_one_def Let_def kput_def kthen_Ret_iff split: if_splits option.splits)
  let ?s = "upd_buf b (\<lambda>x. x\<lparr>b_disk := False\<rparr>) s"
  have "drv ?s (vd ?s) u" using drv_wakeup [of ?s "Some (ChBuf b)" "\<lambda>d. d"] b(1) assms(2) by simp
  from drv_fields [OF this] show ?thesis using b(2) assms(2) by simp
qed

lemma intr_loop_done:
  fixes s :: virt_st
  assumes "intr_loop n s = Ret () t" "n = unat (us_idx (vd s) - v_used_idx (vd s))" "no_plocks s"
  shows "v_used_idx (vd t) = us_idx (vd t)"
  using assms
proof (induction n arbitrary: s)
  case (Suc n)
  then have ne: "v_used_idx (vd s) \<noteq> us_idx (vd s)" by auto
  then obtain u where u: "intr_one s = Ret () u" "intr_loop n u = Ret () t" using Suc.prems(1) by (auto simp: kthen_Ret_iff)
  have "unat (us_idx (vd s) - v_used_idx (vd s)) = Suc (unat (us_idx (vd s) - (v_used_idx (vd s) + 1)))"
    using ne [symmetric] by (rule counter_pred)
  then show ?case using Suc.IH [OF u(2)] Suc.prems(2) intr_one_vd [OF u(1) Suc.prems(3)] by simp
qed (auto simp: unat_eq_zero)

section \<open>Every step keeps the invariant and follows the specification\<close>

definition sys_inv :: "vsys \<Rightarrow> bool" where
  "sys_inv v \<longleftrightarrow> vinv (vd (ker v)) (bufs (ker v)) (rpc v) (taken v) (inflight v) \<and> no_plocks (ker v)"

definition follows :: "vsys \<Rightarrow> vsys \<Rightarrow> bool" where
  "follows v w \<longleftrightarrow> sys_inv w \<and> (abs_disk w = abs_disk v \<or> disk_spec (abs_disk v) (abs_disk w))"

lemma vinv_regs [simp]: "vinv (d\<lparr>v_regs := r\<rparr>) bs rp tk fl = vinv d bs rp tk fl"
  by (simp add: vinv_def req_ok_def formed_def sizes_def queue_def unserved_def unseen_def cong: rwpc.case_cong)

lemma abs_pc_cong:
  "rpc w = rpc v \<Longrightarrow> set (unserved (vd (ker w)) (taken w) @ inflight w) = set (unserved (vd (ker v)) (taken v) @ inflight v) \<Longrightarrow>
   abs_pc w = abs_pc v"
  by (simp add: abs_pc_def fun_eq_iff split: rwpc.split del: set_append)

lemma obs_buf: "b_data (f (bufs s ! b)) = b_data (bufs s ! b) \<Longrightarrow> b_blockno (f (bufs s ! b)) = b_blockno (bufs s ! b) \<Longrightarrow>
   obs (upd_buf b f s) = obs s"
  by (simp add: obs_def upd_buf_def map_update list_update_same_conv) (metis list_update_id map_update)

lemma follows_take:
  assumes "sys_inv v" "taken v \<noteq> av_idx (vd (ker v))"
  shows "follows v (v\<lparr>taken := taken v + 1, inflight := inflight v @ [unat (av_ring (vd (ker v)) ! (unat (taken v) mod NUM))]\<rparr>)"
    (is "follows v ?w")
proof -
  have "abs_pc ?w = abs_pc v" by (rule abs_pc_cong) (use unserved_take [OF assms(2)] in auto)
  then show ?thesis using assms vinv_take by (simp add: follows_def sys_inv_def abs_disk_def)
qed

lemma follows_full:
  assumes v: "sys_inv v" and a: "alloc3_desc (ker v) = Ret None t"
  shows "follows v (v\<lparr>ker := t\<rparr>)"
proof -
  have i: "vinv (vd (ker v)) (bufs (ker v)) (rpc v) (taken v) (inflight v)" "no_plocks (ker v)" using v by (simp_all add: sys_inv_def)
  have l: "length (v_free (vd (ker v))) = NUM" using vinvD(1) [OF i(1)] by (simp add: sizes_def)
  from i(2) l show ?thesis
  proof (cases rule: alloc3_cases)
    case (some i j k) then show ?thesis using a by simp
  next
    case (none t' xs)
    then have t: "t' = t" using a by simp
    note f = drv_fields [OF none(2), unfolded t]
    have "abs_pc (v\<lparr>ker := t\<rparr>) = abs_pc v" by (rule abs_pc_cong) (simp_all add: f unserved_def)
    then show ?thesis using vinv_full [OF i(1) none(3,4)] i(2) by (simp add: follows_def sys_inv_def abs_disk_def f)
  qed
qed

lemma follows_client:
  assumes v: "sys_inv v" and c: "vd t = vd (ker v)" "disk t = disk (ker v)" "dhist t = dhist (ker v)" "no_plocks t"
    "length (bufs t) = length (bufs (ker v))" "\<forall>b q. waits_for b (rpc v q) \<longrightarrow> bufs t ! b = bufs (ker v) ! b"
  shows "follows v (v\<lparr>ker := t\<rparr>)"
proof -
  have i: "vinv (vd (ker v)) (bufs (ker v)) (rpc v) (taken v) (inflight v)" using v by (simp add: sys_inv_def)
  have p: "abs_pc (v\<lparr>ker := t\<rparr>) = abs_pc v" by (rule abs_pc_cong) (simp_all add: c)
  have w: "waits_for b (rpc v q) \<and> b < length (bufs (ker v))" if "abs_pc v q = APending b wr \<or> abs_pc v q = ADone b wr" for b wr q
    using that vinv_req [OF i, of q] vinvD(2) [OF i]
    by (auto simp: abs_pc_def waits_for_def req_ok_def split: rwpc.splits if_splits)
  have "disk_spec (obs (ker v), abs_pc v) (obs t, abs_pc v)"
    unfolding obs_def c(2,3) by (rule disk_spec.other) (use w c(5,6) in fastforce)+
  then show ?thesis using vinv_client [OF i c(5,6)] c(1,4) p by (simp add: follows_def sys_inv_def abs_disk_def)
qed

lemma follows_finish:
  assumes v: "sys_inv v" and p: "rpc v p = RWait b wr h d1 d2" "\<not> b_disk (bufs (ker v) ! b)" and t: "rw_finish h (ker v) = Ret () t"
  shows "follows v (v\<lparr>ker := t, rpc := (rpc v)(p := RIdle)\<rparr>)" (is "follows v ?w")
proof -
  have i: "vinv (vd (ker v)) (bufs (ker v)) (rpc v) (taken v) (inflight v)" "no_plocks (ker v)" using v by (simp_all add: sys_inv_def)
  have "drv (ker v) (finished h d1 d2 (vd (ker v))) t" using rw_finish_ok [OF i(1) p i(2)] t by simp
  note f = drv_fields [OF this]
  have us: "unserved (vd t) (taken v) = unserved (vd (ker v)) (taken v)" by (simp add: f finished_def unserved_def freed_def)
  have "h \<notin> set (queue (vd (ker v)) (taken v) (inflight v))" using vinv_req [OF i(1), of p] p by (simp add: req_ok_def)
  then have d: "abs_pc v p = ADone b wr" using p by (simp add: abs_pc_def queue_def)
  have "abs_pc ?w = (abs_pc v)(p := AIdle)" by (auto simp: fun_eq_iff abs_pc_def us split: rwpc.splits)
  then have "disk_spec (abs_disk v) (abs_disk ?w)" using disk_spec.retn [of "abs_pc v" p b wr "obs (ker v)"] d by (simp add: abs_disk_def f)
  then show ?thesis using vinv_finish [OF i(1) p] i(2) by (simp add: follows_def sys_inv_def f)
qed

lemma intr_effect:
  assumes v: "vinv (vd s) (bufs s) rp tk fl" and "no_plocks s" and n: "v_used_idx (vd s) \<noteq> us_idx (vd s)"
  obtains p b wr d1 d2 t where "rp p = RWait b wr (unat (us_ring (vd s) ! (unat (v_used_idx (vd s)) mod NUM))) d1 d2"
    "intr_one s = Ret () t" "drv (upd_buf b (\<lambda>x. x\<lparr>b_disk := False\<rparr>) s) ((vd s)\<lparr>v_used_idx := v_used_idx (vd s) + 1\<rparr>) t"
proof -
  let ?h = "unat (us_ring (vd s) ! (unat (v_used_idx (vd s)) mod NUM))"
  have hq: "?h \<in> set (unseen (vd s))" using unseen_ack [OF n] by (metis list.set_intros(1))
  then have "?h \<in> heads rp" using vinvD(4) [OF v] by (auto simp: queue_def)
  then obtain p b wr d1 d2 where p: "rp p = RWait b wr ?h d1 d2" using in_heads by blast
  have st: "v_info_status (vd s) ! ?h = 0" "v_info_b (vd s) ! ?h = Some b"
    using vinv_req [OF v, of p] hq by (simp_all add: p req_ok_def formed_def)
  let ?s = "upd_buf b (\<lambda>x. x\<lparr>b_disk := False\<rparr>) s" and ?f = "\<lambda>d. d\<lparr>v_used_idx := v_used_idx d + 1\<rparr>"
  obtain t where t: "wakeup (Some (ChBuf b)) ?s = Ret () t" "drv ?s (vd ?s) t"
    using drv_wakeup [of ?s "Some (ChBuf b)" "\<lambda>d. d"] assms(2) by auto
  have "intr_one s = Ret () (upd_vd ?f t)" using st t(1) by (simp add: intr_one_def Let_def kput_def)
  moreover have "drv ?s (?f (vd s)) (upd_vd ?f t)" using drv_trans [OF t(2) drv_upd [of t ?f]] drv_fields(1) [OF t(2)] by simp
  ultimately show thesis using that [OF p] by blast
qed

lemma follows_intr:
  assumes v: "sys_inv v" and n: "v_used_idx (vd (ker v)) \<noteq> us_idx (vd (ker v))"
  shows "\<exists>t. intr_one (ker v) = Ret () t \<and> follows v (v\<lparr>ker := t\<rparr>)"
proof -
  have i: "vinv (vd (ker v)) (bufs (ker v)) (rpc v) (taken v) (inflight v)" "no_plocks (ker v)" using v by (simp_all add: sys_inv_def)
  obtain p b wr d1 d2 t where p: "rpc v p = RWait b wr (unat (us_ring (vd (ker v)) ! (unat (v_used_idx (vd (ker v))) mod NUM))) d1 d2"
    and r: "intr_one (ker v) = Ret () t"
    and t: "drv (upd_buf b (\<lambda>x. x\<lparr>b_disk := False\<rparr>) (ker v)) ((vd (ker v))\<lparr>v_used_idx := v_used_idx (vd (ker v)) + 1\<rparr>) t"
    using intr_effect [OF i n] .
  note f = drv_fields [OF t]
  have "abs_pc (v\<lparr>ker := t\<rparr>) = abs_pc v" by (rule abs_pc_cong) (simp_all add: f unserved_def)
  moreover have "obs t = obs (ker v)" using f(6) obs_buf [of "\<lambda>x. x\<lparr>b_disk := False\<rparr>" "ker v" b] by simp
  moreover have "vinv (vd t) (bufs t) (rpc v) (taken v) (inflight v)"
    using vinv_ack [OF i(1) n refl p] by (simp add: f upd_buf_def)
  ultimately show ?thesis using r i(2) f by (intro exI [of _ t]) (simp add: follows_def sys_inv_def abs_disk_def)
qed

lemma transfer_frame:
  assumes "disk_transfer b wr s = Ret () t"
  shows "vd t = vd s" "no_plocks t = no_plocks s" "length (bufs t) = length (bufs s)"
    "b_disk (bufs t ! x) = b_disk (bufs s ! x) \<and> b_blockno (bufs t ! x) = b_blockno (bufs s ! x)"
proof -
  have e: "t = (if wr then s\<lparr>disk := (disk s)(b_blockno (bufs s ! b) := b_data (bufs s ! b)), dhist := dhist s @ [(b_blockno (bufs s ! b), b_data (bufs s ! b))]\<rparr>
    else upd_buf b (\<lambda>x. x\<lparr>b_data := disk s (b_blockno (bufs s ! b))\<rparr>) s)"
    using assms by (simp add: disk_transfer_def kput_def Let_def split: if_splits)
  show "vd t = vd s" "no_plocks t = no_plocks s" "length (bufs t) = length (bufs s)"
    unfolding e by (simp_all add: upd_buf_def no_plocks_def)
  show "b_disk (bufs t ! x) = b_disk (bufs s ! x) \<and> b_blockno (bufs t ! x) = b_blockno (bufs s ! x)"
    unfolding e by (cases "b = x"; cases "b < length (bufs s)") (simp_all add: upd_buf_def list_update_beyond)
qed

lemma serve_transfer:
  assumes v: "vinv (vd s) (bufs s) rp tk fl" and dv: "virtio_device serve" and p: "rp p = RWait b wr h d1 d2"
  obtains t where "disk_transfer b wr s = Ret () t"
    "serve h s = upd_vd (\<lambda>d. post h (d\<lparr>v_info_status := (v_info_status d)[h := 0]\<rparr>)) t"
proof -
  define n where "n = b_blockno (bufs s ! b)"
  have "chain_of (vd s) h b wr n h" using vinv_req [OF v, of p] p by (auto simp: req_ok_def n_def intro: formed_chain)
  then have sv: "serve h s = serve_effect h b wr n h s" using dv by (simp add: virtio_device_def)
  obtain t where t: "disk_transfer b wr s = Ret () t" by (simp add: disk_transfer_def kput_def)
  have "serve h s = upd_vd (\<lambda>d. post h (d\<lparr>v_info_status := (v_info_status d)[h := 0]\<rparr>)) t"
    using t by (auto simp: sv serve_effect_def disk_transfer_def kput_def n_def post_def Let_def split: if_splits)
  with t show thesis by (rule that)
qed

lemma follows_complete:
  assumes v: "sys_inv v" and dv: "virtio_device serve" and h: "h \<in> set (inflight v)"
  shows "follows v (v\<lparr>ker := serve h (ker v), inflight := remove1 h (inflight v)\<rparr>)" (is "follows v ?w")
proof -
  let ?d = "vd (ker v)"
  have i: "vinv ?d (bufs (ker v)) (rpc v) (taken v) (inflight v)" "no_plocks (ker v)" using v by (simp_all add: sys_inv_def)
  have dq: "distinct (unserved ?d (taken v) @ inflight v @ unseen ?d)" using vinvD(3) [OF i(1)] by (simp add: queue_def)
  have "h \<in> heads (rpc v)" using vinvD(4) [OF i(1)] h by (auto simp: queue_def)
  then obtain p b wr d1 d2 where p: "rpc v p = RWait b wr h d1 d2" using in_heads by blast
  obtain t where t: "disk_transfer b wr (ker v) = Ret () t"
    and w: "serve h (ker v) = upd_vd (\<lambda>d. post h (d\<lparr>v_info_status := (v_info_status d)[h := 0]\<rparr>)) t"
    using serve_transfer [OF i(1) dv p] .
  note tf = transfer_frame [OF t]
  have inv: "sys_inv ?w" using vinv_complete [OF i(1) h p tf(3,4)] tf(1,2) i(2) by (simp add: sys_inv_def w)
  have us: "unserved (vd (ker ?w)) (taken v) = unserved ?d (taken v)" by (simp add: w tf(1) unserved_def post_def)
  have pend: "abs_pc v p = APending b wr" using p h by (simp add: abs_pc_def)
  have "abs_pc ?w q = ((abs_pc v)(p := ADone b wr)) q" for q
  proof (cases "q = p")
    case True
    then show ?thesis using p dq h us by (auto simp: abs_pc_def set_remove1_eq)
  next
    case False
    then have "h \<notin> set (uses (rpc v q))" using vinv_apart(1) [OF i(1) p False] by blast
    then show ?thesis using False us dq by (auto simp: abs_pc_def set_remove1_eq split: rwpc.splits)
  qed
  then have "abs_disk ?w = (obs t, (abs_pc v)(p := ADone b wr))" by (auto simp: abs_disk_def w)
  then show ?thesis using inv disk_spec.transfer [of "abs_pc v" p, OF pend t] by (simp add: follows_def abs_disk_def)
qed

lemma follows_request:
  assumes v: "sys_inv v" and p: "rpc v p = RIdle" "b < NBUF" "\<forall>q. \<not> waits_for b (rpc v q)" "b_blockno (bufs (ker v) ! b) < 2 ^ 31"
    and a: "alloc3_desc (ker v) = Ret (Some idx) s" "rw_submit b wr idx s = Ret () t"
  shows "follows v (v\<lparr>ker := t, rpc := (rpc v)(p := RWait b wr (idx ! 0) (idx ! 1) (idx ! 2))\<rparr>)"
proof -
  let ?d = "vd (ker v)" and ?bs = "bufs (ker v)"
  have i: "vinv ?d ?bs (rpc v) (taken v) (inflight v)" "no_plocks (ker v)" using v by (simp_all add: sys_inv_def)
  have l: "length (v_free ?d) = NUM" using vinvD(1) [OF i(1)] by (simp add: sizes_def)
  from i(2) l obtain x y z where idx: "idx = [x, y, z]" "distinct [x, y, z]" "\<forall>e \<in> {x, y, z}. e < NUM \<and> v_free ?d ! e"
    and s: "s = upd_vd (\<lambda>d. d\<lparr>v_free := (v_free d)[x := False, y := False, z := False]\<rparr>) (ker v)"
    using a(1) by (cases rule: alloc3_cases) auto
  let ?w = "v\<lparr>ker := t, rpc := (rpc v)(p := RWait b wr x y z)\<rparr>"
  define e where "e = publish x (format_req b wr (b_blockno (?bs ! b)) [x, y, z] (?d\<lparr>v_free := (v_free ?d)[x := False, y := False, z := False]\<rparr>))"
  have t: "vd t = e\<lparr>v_regs := v_regs e @ [(VIRTIO_MMIO_QUEUE_NOTIFY, 0)]\<rparr>" "bufs t = ?bs[b := (?bs ! b)\<lparr>b_disk := True\<rparr>]"
    "no_plocks t" "obs t = obs (ker v)"
    using a(2) i(2) obs_buf [of "\<lambda>x. x\<lparr>b_disk := True\<rparr>" "ker v" b]
    by (auto simp: rw_submit_def s idx(1) wreg_def kput_def e_def upd_buf_def upd_vd_def no_plocks_def obs_def)
  have "vinv e (bufs t) (rpc ?w) (taken v) (inflight v)"
    using vinv_request [OF i(1) p(2-4) p(1) idx(2,3), of wr] by (simp add: e_def t(2))
  then have inv: "sys_inv ?w" using t(1,3) by (simp add: sys_inv_def)
  have us: "set (unserved (vd t) (taken v)) = insert x (set (unserved ?d (taken v)))"
    using unserved_request [OF i(1) idx(2,3), of b wr "b_blockno (?bs ! b)"] by (simp add: t(1) e_def) (simp add: unserved_def)
  have "abs_pc ?w q = ((abs_pc v)(p := APending b wr)) q" for q
  proof (cases "q = p")
    case True
    then show ?thesis by (simp add: abs_pc_def us)
  next
    case False
    then show ?thesis using vinv_free [OF i(1), of x q] idx(3) by (auto simp: abs_pc_def us split: rwpc.splits)
  qed
  then have w: "abs_disk ?w = (obs (ker v), (abs_pc v)(p := APending b wr))" by (auto simp: abs_disk_def t(4))
  have "abs_pc v p = AIdle" "\<forall>q wr'. abs_pc v q \<noteq> APending b wr' \<and> abs_pc v q \<noteq> ADone b wr'"
    using p(1,3) by (auto simp: abs_pc_def waits_for_def split: rwpc.splits if_splits)
  then have "disk_spec (abs_disk v) (abs_disk ?w)" unfolding w by (simp add: abs_disk_def disk_spec.call)
  then show ?thesis using inv idx(1) by (simp add: follows_def)
qed

lemma vstep_follows: "vstep serve v w \<Longrightarrow> virtio_device serve \<Longrightarrow> sys_inv v \<Longrightarrow> follows v w"
proof (induction rule: vstep.induct)
  case (request v p b idx s t wr)
  show ?case by (rule follows_request) fact+
next
  case (intr v t)
  then show ?case using follows_intr [of v] by auto
qed (auto intro: follows_request follows_full follows_take follows_complete follows_finish follows_client)

lemma sys_inv_start: "vstart v \<Longrightarrow> sys_inv v"
  by (auto simp: vstart_def sys_inv_def vinv_def sizes_def req_ok_def queue_def unserved_def unseen_def waits_for_def Let_def)

lemma driver_follows:
  assumes "virtio_device serve" "sys_inv v" "(vstep serve)\<^sup>*\<^sup>* v w"
  shows "sys_inv w \<and> disk_spec\<^sup>*\<^sup>* (abs_disk v) (abs_disk w)"
  using assms(3)
proof (induction rule: rtranclp_induct)
  case (step x y)
  then have "follows x y" using vstep_follows [OF step.hyps(2) assms(1)] by blast
  then show ?case using step.IH unfolding follows_def by (metis rtranclp.rtrancl_into_rtrancl)
qed (use assms(2) in simp)

lemma no_panic:
  assumes "sys_inv v"
  shows "\<exists>r t. alloc3_desc (ker v) = Ret r t"
    and "v_used_idx (vd (ker v)) \<noteq> us_idx (vd (ker v)) \<Longrightarrow> \<exists>t. intr_one (ker v) = Ret () t"
    and "rpc v p = RWait b wr h d1 d2 \<Longrightarrow> \<not> b_disk (bufs (ker v) ! b) \<Longrightarrow> \<exists>t. rw_finish h (ker v) = Ret () t"
proof -
  have i: "vinv (vd (ker v)) (bufs (ker v)) (rpc v) (taken v) (inflight v)" "no_plocks (ker v)" using assms by (simp_all add: sys_inv_def)
  have l: "length (v_free (vd (ker v))) = NUM" using vinvD(1) [OF i(1)] by (simp add: sizes_def)
  from i(2) l show "\<exists>r t. alloc3_desc (ker v) = Ret r t" by (cases rule: alloc3_cases) auto
  show "\<exists>t. intr_one (ker v) = Ret () t" if "v_used_idx (vd (ker v)) \<noteq> us_idx (vd (ker v))" using follows_intr [OF assms that] by blast
  show "\<exists>t. rw_finish h (ker v) = Ret () t" if "rpc v p = RWait b wr h d1 d2" "\<not> b_disk (bufs (ker v) ! b)"
    using rw_finish_ok [OF i(1) that i(2)] by blast
qed

text \<open>
  Taking a request, completing one and acknowledging one each bring a request nearer to
  its end, so the queues can always be emptied.
\<close>

definition backlog :: "vsys \<Rightarrow> nat" where
  "backlog v = 3 * length (unserved (vd (ker v)) (taken v)) + 2 * length (inflight v) + length (unseen (vd (ker v)))"

lemma backlog_step:
  assumes v: "sys_inv v" and dv: "virtio_device serve" and n: "0 < backlog v"
  shows "\<exists>w. vstep serve v w \<and> rpc w = rpc v \<and> backlog w < backlog v"
proof -
  let ?d = "vd (ker v)"
  have i: "vinv ?d (bufs (ker v)) (rpc v) (taken v) (inflight v)" using v by (simp add: sys_inv_def)
  consider "unserved ?d (taken v) \<noteq> []" | h where "h \<in> set (inflight v)" | "unseen ?d \<noteq> []"
    using n by (auto simp: backlog_def) (metis list.set_sel(1))
  then show ?thesis
  proof cases
    case 1
    then have t: "taken v \<noteq> av_idx ?d" by (auto simp: unserved_def)
    show ?thesis by (rule exI, rule conjI [OF vstep.take [OF t]]) (use unserved_take [OF t] in \<open>simp add: backlog_def\<close>)
  next
    case (2 h)
    then have "h \<in> heads (rpc v)" using vinvD(4) [OF i] by (auto simp: queue_def)
    then obtain p b wr d1 d2 where p: "rpc v p = RWait b wr h d1 d2" using in_heads by blast
    obtain t where t: "disk_transfer b wr (ker v) = Ret () t"
      and w: "serve h (ker v) = upd_vd (\<lambda>d. post h (d\<lparr>v_info_status := (v_info_status d)[h := 0]\<rparr>)) t"
      using serve_transfer [OF i dv p] .
    have "unseen (vd (serve h (ker v))) = unseen ?d @ [h]" "unserved (vd (serve h (ker v))) (taken v) = unserved ?d (taken v)"
      using unseen_complete [OF i 2] transfer_frame(1) [OF t] by (simp_all add: w) (simp add: unserved_def post_def)
    moreover obtain m where "length (inflight v) = Suc m" using 2 by (cases "inflight v") auto
    ultimately show ?thesis using 2
      by (intro exI, intro conjI, rule_tac vstep.complete [OF 2]) (simp_all add: backlog_def length_remove1)
  next
    case 3
    then have u: "v_used_idx ?d \<noteq> us_idx ?d" by (auto simp: unseen_def)
    obtain b t where r: "intr_one (ker v) = Ret () t"
      and t: "drv (upd_buf b (\<lambda>x. x\<lparr>b_disk := False\<rparr>) (ker v)) (?d\<lparr>v_used_idx := v_used_idx ?d + 1\<rparr>) t"
      using intr_effect [OF i _ u] v by (metis sys_inv_def)
    have "unserved (vd t) (taken v) = unserved ?d (taken v)" using drv_fields(1) [OF t] by (simp add: unserved_def)
    then show ?thesis using 3 unseen_ack [OF u] drv_fields(1) [OF t]
      by (intro exI conjI, rule_tac vstep.intr [OF u r]) (simp_all add: backlog_def)
  qed
qed

lemma drain:
  assumes dv: "virtio_device serve" and "sys_inv v"
  shows "\<exists>w. (vstep serve)\<^sup>*\<^sup>* v w \<and> sys_inv w \<and> rpc w = rpc v \<and> backlog w = 0"
  using assms(2)
proof (induction "backlog v" arbitrary: v rule: less_induct)
  case less
  show ?case
  proof (cases "backlog v = 0")
    case False
    then obtain w where w: "vstep serve v w" "rpc w = rpc v" "backlog w < backlog v" using backlog_step [OF less.prems dv] by auto
    then have "sys_inv w" using vstep_follows [OF w(1) dv less.prems] by (simp add: follows_def)
    from less.hyps [OF w(3) this] show ?thesis using w by (metis converse_rtranclp_into_rtranclp)
  qed (use less.prems in blast)
qed

section \<open>The property\<close>

text \<open>
  C18: The disk driver refines a disk whose transfers happen at once.  Whatever the order
  in which processes submit requests, the device takes and completes them, out of
  order too, and the interrupt handler sees the completions, the buffers and the disk
  change only as in a run where each call of \<open>virtio_disk_rw\<close> performs the
  \<open>disk_transfer\<close> of its buffer exactly once between its call and its return.  Neither
  allocating descriptors, nor the interrupt handler, nor the end of a request panics.
\<close>

theorem virtio_disk_refines:
  assumes "virtio_device serve" and "vstart v0" and "(vstep serve)\<^sup>*\<^sup>* v0 v"
  shows "disk_spec\<^sup>*\<^sup>* (abs_disk v0) (abs_disk v)
    \<and> (\<exists>r t. alloc3_desc (ker v) = Ret r t)
    \<and> (v_used_idx (vd (ker v)) \<noteq> us_idx (vd (ker v)) \<longrightarrow> (\<exists>t. intr_one (ker v) = Ret () t))
    \<and> (\<forall>p b wr h d1 d2. rpc v p = RWait b wr h d1 d2 \<and> \<not> b_disk (bufs (ker v) ! b) \<longrightarrow>
         abs_pc v p = ADone b wr \<and> (\<exists>t. rw_finish h (ker v) = Ret () t))"
proof -
  have i: "sys_inv v" "disk_spec\<^sup>*\<^sup>* (abs_disk v0) (abs_disk v)"
    using driver_follows [OF assms(1) sys_inv_start [OF assms(2)] assms(3)] by auto
  have "abs_pc v p = ADone b wr" if "rpc v p = RWait b wr h d1 d2" "\<not> b_disk (bufs (ker v) ! b)" for p b wr h d1 d2
    using vinv_req [of "vd (ker v)" "bufs (ker v)" "rpc v" "taken v" "inflight v" p] i(1) that
    by (simp add: sys_inv_def req_ok_def abs_pc_def queue_def)
  with i no_panic [OF i(1)] show ?thesis by blast
qed


text \<open>A device that follows the descriptors, and a run that writes block 7.\<close>

definition ex_serve :: "nat \<Rightarrow> virt_st \<Rightarrow> virt_st" where
  "ex_serve h s =
     (let d = vd s; x0 = v_desc d ! h; x1 = v_desc d ! unat (d_next x0); x2 = v_desc d ! unat (d_next x1) in
      case (d_addr x0, d_addr x1, d_addr x2) of
        (DOps k, DData b, DStatus j) \<Rightarrow>
          serve_effect h b (q_type (v_ops d ! k) = VIRTIO_BLK_T_OUT) (ucast (q_sector (v_ops d ! k) div 2)) j s
      | _ \<Rightarrow> s)"

lemma half_sector: "ucast ((2 * ucast n :: u64) div 2) = n" for n :: u32
proof -
  have b: "uint n < 4294967296" using uint_bounded [of n] by simp
  then have "uint (2 * ucast n :: u64) = 2 * uint n" by (simp add: uint_word_ariths unsigned_ucast_eq take_bit_eq_mod)
  then have "uint ((2 * ucast n :: u64) div 2) = uint n" by (simp add: uint_div)
  then show ?thesis using b by (simp add: word_uint_eq_iff unsigned_ucast_eq take_bit_eq_mod)
qed

lemma ex_serve_device: "virtio_device ex_serve"
  by (auto simp: virtio_device_def ex_serve_def chain_of_def Let_def half_sector VIRTIO_BLK_T_OUT_def VIRTIO_BLK_T_IN_def)

definition ex_ker :: virt_st where
  "ex_ker = \<lparr>locks = [], uart_out = [], panicking = False, panicked = False, pmem = (\<lambda>_. 0), freelist = 0, kend = 0x80020000,
     procs = [], curproc = None, initproc = None, nextpid = 1, ticks = 0, quota_window_start = 0, eco_mode = 0,
     con = \<lparr>c_buf = replicate INPUT_BUF_SIZE 0, c_r = 0, c_w = 0, c_e = 0\<rparr>, tx_busy = False, disk = (\<lambda>_ _. 0), dhist = [],
     bufs = replicate (Suc NBUF) \<lparr>b_valid = True, b_disk = False, b_dev = 1, b_blockno = 7, b_refcnt = 1, b_prev = 0, b_next = 0,
       b_data = (\<lambda>_. 1)\<rparr>,
     slocks = [], log_start = 2, log_outstanding = 0, log_committing = False, log_dev = 1, lh_n = 0, lh_block = [],
     fs_sb = \<lparr>sb_magic = 0, sb_size = 0, sb_nblocks = 0, sb_ninodes = 0, sb_nlog = 0, sb_logstart = 0, sb_inodestart = 0,
       sb_bmapstart = 0\<rparr>,
     itable = [], ftable = [], pipes = (\<lambda>_. pipe_init []),
     ksyms = \<lparr>sym_trampoline = 0x80006000, sym_uservec = 0x80006000, sym_userret = 0x8000609c, sym_kernelvec = 0x80005000,
       sym_usertrap = 0x80002000, sym_forkret = 0x80001800, sym_etext = 0x80007000\<rparr>, forkret_first = False,
     kernel_pagetable = 0,
     vd = \<lparr>v_desc = replicate NUM zero_desc, av_idx = 65535, av_ring = replicate NUM 0, us_idx = 65535, us_ring = replicate NUM 0,
       v_free = replicate NUM True, v_used_idx = 65535, v_info_b = replicate NUM None, v_info_status = replicate NUM 0,
       v_ops = replicate NUM \<lparr>q_type = 0, q_reserved = 0, q_sector = 0\<rparr>, v_pages = (0, 0, 0), v_regs = []\<rparr>\<rparr>"

definition ex_vsys :: vsys where
  "ex_vsys = \<lparr>ker = ex_ker, rpc = (\<lambda>_. RIdle), taken = 65535, inflight = []\<rparr>"

lemma ex_vstart: "vstart ex_vsys"
  by (simp add: vstart_def ex_vsys_def ex_ker_def no_plocks_def)

lemma ex_alloc: "alloc3_desc ex_ker = Ret (Some [0, 1, 2]) (upd_vd (\<lambda>d. d\<lparr>v_free := [False, False, False, True, True, True, True, True]\<rparr>) ex_ker)"
  by (simp add: alloc3_desc_def alloc_desc_def numeral_3_eq_3 kret_def ex_ker_def upd_vd_def NUM_def numeral_eq_Suc upt_rec)

lemma ex_run: "\<exists>v. (vstep ex_serve)\<^sup>*\<^sup>* ex_vsys v \<and> rpc v 0 = RWait 0 True 0 1 2 \<and> \<not> b_disk (bufs (ker v) ! 0) \<and> disk (ker v) 7 = (\<lambda>_. 1)"
proof -
  let ?s = "upd_vd (\<lambda>d. d\<lparr>v_free := [False, False, False, True, True, True, True, True]\<rparr>) ex_ker"
  define t1 where "t1 = upd_vd (\<lambda>d. d\<lparr>v_regs := v_regs d @ [(VIRTIO_MMIO_QUEUE_NOTIFY, 0)]\<rparr>)
    (upd_vd (publish 0) (upd_buf 0 (\<lambda>x. x\<lparr>b_disk := True\<rparr>) (upd_vd (format_req 0 True 7 [0, 1, 2]) ?s)))"
  define v1 where "v1 = ex_vsys\<lparr>ker := t1, rpc := (rpc ex_vsys)(0 := RWait 0 True ([0, 1, 2] ! 0) ([0, 1, 2] ! 1) ([0, 1, 2] ! 2))\<rparr>"
  have k: "bufs ex_ker ! 0 = \<lparr>b_valid = True, b_disk = False, b_dev = 1, b_blockno = 7, b_refcnt = 1, b_prev = 0, b_next = 0, b_data = (\<lambda>_. 1)\<rparr>"
    by (simp add: ex_ker_def)
  have sub: "rw_submit 0 True [0, 1, 2] ?s = Ret () t1" by (simp add: rw_submit_def t1_def wreg_def k kput_def)
  have r1: "vstep ex_serve ex_vsys v1" unfolding v1_def
    by (rule vstep.request [where s = ?s]) (use ex_alloc sub k in \<open>simp_all add: ex_vsys_def waits_for_def NBUF_def MAXOPBLOCKS_def\<close>)
  have d1: "av_idx (vd t1) = 0" "av_ring (vd t1) ! 7 = 0" "us_idx (vd t1) = 65535" "v_used_idx (vd t1) = 65535"
    "length (us_ring (vd t1)) = NUM" "length (v_info_status (vd t1)) = NUM" "v_info_b (vd t1) ! 0 = Some 0"
    and c1: "chain_of (vd t1) 0 0 True 7 0"
    by (simp_all add: t1_def publish_def format_req_def ex_ker_def upd_vd_def upd_buf_def NUM_def chain_of_def Let_def BSIZE_def)
  have k1: "bufs t1 ! 0 = (bufs ex_ker ! 0)\<lparr>b_disk := True\<rparr>" "length (bufs t1) = Suc NBUF" "no_plocks t1"
    by (simp_all add: t1_def upd_buf_def ex_ker_def upd_vd_def no_plocks_def)
  define v2 where "v2 = v1\<lparr>taken := taken v1 + 1, inflight := inflight v1 @ [unat (av_ring (vd (ker v1)) ! (unat (taken v1) mod NUM))]\<rparr>"
  have r2: "vstep ex_serve v1 v2" unfolding v2_def by (rule vstep.take) (simp add: v1_def d1 ex_vsys_def)
  have i2: "inflight v2 = [0]" "ker v2 = t1" using d1 by (simp_all add: v2_def v1_def ex_vsys_def NUM_def)
  define t3 where "t3 = serve_effect 0 0 True 7 0 t1"
  have e3: "ex_serve 0 t1 = t3" using ex_serve_device c1 by (simp add: virtio_device_def t3_def)
  have r3: "vstep ex_serve v2 (v2\<lparr>ker := t3, inflight := []\<rparr>)" using vstep.complete [of 0 v2 ex_serve] i2 e3 by simp
  have d3: "us_idx (vd t3) = 0" "v_used_idx (vd t3) = 65535" "us_ring (vd t3) ! 7 = 0" "v_info_status (vd t3) ! 0 = 0"
    "v_info_b (vd t3) ! 0 = Some 0" "disk t3 7 = (\<lambda>_. 1)" "bufs t3 = bufs t1" "no_plocks t3"
    using d1 k1 k by (simp_all add: t3_def serve_effect_def NUM_def upd_vd_def no_plocks_def)
  let ?b = "upd_buf 0 (\<lambda>x. x\<lparr>b_disk := False\<rparr>) t3"
  obtain t where t: "wakeup (Some (ChBuf 0)) (upd_vd (\<lambda>d. d) ?b) = Ret () t" "drv ?b (vd ?b) t"
    using drv_wakeup [of ?b "Some (ChBuf 0)" "\<lambda>d. d"] d3(8) by auto
  note f = drv_fields [OF t(2)]
  define t4 where "t4 = upd_vd (\<lambda>d. d\<lparr>v_used_idx := v_used_idx d + 1\<rparr>) t"
  have e4: "intr_one t3 = Ret () t4" using d3 t(1) by (simp add: intr_one_def Let_def kput_def NUM_def t4_def)
  have r4: "vstep ex_serve (v2\<lparr>ker := t3, inflight := []\<rparr>) (v2\<lparr>ker := t3, inflight := []\<rparr>\<lparr>ker := t4\<rparr>)"
    by (rule vstep.intr) (use d3 e4 in simp_all)
  have "rpc v2 0 = RWait 0 True 0 1 2" by (simp add: v2_def v1_def)
  moreover have "\<not> b_disk (bufs t4 ! 0)" "disk t4 7 = (\<lambda>_. 1)" using f d3 k1 by (simp_all add: t4_def upd_buf_def) (simp add: upd_vd_def f d3)
  ultimately show ?thesis using r1 r2 r3 r4
    by (intro exI [of _ "v2\<lparr>ker := t3, inflight := []\<rparr>\<lparr>ker := t4\<rparr>"]) (auto intro: converse_rtranclp_into_rtranclp)
qed

theorem virtio_disk_refines_witness:
  "virtio_device ex_serve \<and> vstart ex_vsys
   \<and> (\<exists>v. (vstep ex_serve)\<^sup>*\<^sup>* ex_vsys v \<and> disk_spec\<^sup>*\<^sup>* (abs_disk ex_vsys) (abs_disk v) \<and> abs_pc v 0 = ADone 0 True \<and> disk (ker v) 7 = (\<lambda>_. 1))"
proof -
  obtain v where v: "(vstep ex_serve)\<^sup>*\<^sup>* ex_vsys v" "rpc v 0 = RWait 0 True 0 1 2" "\<not> b_disk (bufs (ker v) ! 0)" "disk (ker v) 7 = (\<lambda>_. 1)"
    using ex_run by blast
  show ?thesis using virtio_disk_refines [OF ex_serve_device ex_vstart v(1)] v ex_serve_device ex_vstart by blast
qed


end
