(* ===== verification/Trap.thy ===== *)
theory Trap
  imports Sysfile Virtio
begin

text \<open>
  kernel/trap.c: traps from user space and from the kernel, the clock, and the
  dispatch of device interrupts.  The control and status registers of the CPU
  are fields of the state; those a trap sets are inputs.  What the devices give is
  an argument: \<open>irq\<close> is what \<open>plic_claim\<close> reads, \<open>idle\<close> and \<open>cs\<close> what the UART
  holds, and \<open>dev\<close> what the registers of the disk read.
\<close>

section \<open>Data\<close>

record csrs =
  scause :: u64
  sepc :: u64
  stval :: u64
  sstatus :: u64
  stvec :: u64
  satp :: u64
  tp :: u64
  time :: u64
  stimecmp :: u64

record trap_st = virt_st +
  csr :: csrs
  irq_done :: "u32 list"

definition SSTATUS_SPP :: u64 where "SSTATUS_SPP = push_bit 8 1"
definition SSTATUS_SPIE :: u64 where "SSTATUS_SPIE = push_bit 5 1"
definition SSTATUS_SIE :: u64 where "SSTATUS_SIE = push_bit 1 1"

definition MAKE_SATP :: "u64 \<Rightarrow> u64" where
  "MAKE_SATP pagetable = push_bit 60 8 OR drop_bit 12 pagetable"

definition upd_csr :: "(csrs \<Rightarrow> csrs) \<Rightarrow> 'z trap_st_scheme \<Rightarrow> (unit, 'z trap_st_scheme) outcome" where
  "upd_csr f = kput (\<lambda>s. s\<lparr>csr := f (csr s)\<rparr>)"

definition intr_get :: "'z trap_st_scheme \<Rightarrow> bool" where
  "intr_get s \<longleftrightarrow> sstatus (csr s) AND SSTATUS_SIE \<noteq> 0"

definition intr_on :: "'z trap_st_scheme \<Rightarrow> (unit, 'z trap_st_scheme) outcome" where
  "intr_on = upd_csr (\<lambda>c. c\<lparr>sstatus := sstatus c OR SSTATUS_SIE\<rparr>)"

definition intr_off :: "'z trap_st_scheme \<Rightarrow> (unit, 'z trap_st_scheme) outcome" where
  "intr_off = upd_csr (\<lambda>c. c\<lparr>sstatus := sstatus c AND NOT SSTATUS_SIE\<rparr>)"

definition trapinithart :: "'z trap_st_scheme \<Rightarrow> (unit, 'z trap_st_scheme) outcome" where
  "trapinithart = kput (\<lambda>s. s\<lparr>csr := (csr s)\<lparr>stvec := sym_kernelvec (ksyms s)\<rparr>\<rparr>)"

section \<open>Interrupts\<close>

definition clockintr :: "'z trap_st_scheme \<Rightarrow> (unit, 'z trap_st_scheme) outcome" where
  "clockintr = kthen (\<lambda>s.
       if tp (csr s) = 0
       then critical TicksLock (kthen (kput (\<lambda>s. s\<lparr>ticks := ticks s + 1\<rparr>)) (wakeup (Some ChTicks))) s
       else Ret () s)
     (upd_csr (\<lambda>c. c\<lparr>stimecmp := time c + 1000000\<rparr>))"

definition devintr ::
  "device \<Rightarrow> u32 \<Rightarrow> bool \<Rightarrow> u8 list
   \<Rightarrow> 'z trap_st_scheme \<Rightarrow> (nat, 'z trap_st_scheme) outcome" where
  "devintr dev irq idle cs s =
     (if scause (csr s) = 0x8000000000000009
      then kthen (if irq = UART0_IRQ then uartintr idle cs
                  else if irq = VIRTIO0_IRQ then virtio_disk_intr dev
                  else if irq \<noteq> 0 then printf (''unexpected interrupt irq=%d'' @ [NL]) [PNum (scast irq)]
                  else kret ())
             (kthen (if irq \<noteq> 0 then kput (\<lambda>s. s\<lparr>irq_done := irq_done s @ [irq]\<rparr>) else kret ()) (kret 1)) s
      else if scause (csr s) = 0x8000000000000005 then kthen clockintr (kret 2) s
      else Ret 0 s)"

section \<open>Traps\<close>

definition TF_KERNEL_SATP :: u64 where "TF_KERNEL_SATP = 0"
definition TF_KERNEL_SP :: u64 where "TF_KERNEL_SP = 8"
definition TF_KERNEL_TRAP :: u64 where "TF_KERNEL_TRAP = 16"
definition TF_KERNEL_HARTID :: u64 where "TF_KERNEL_HARTID = 32"

definition prepare_return :: "'z trap_st_scheme \<Rightarrow> (unit, 'z trap_st_scheme) outcome" where
  "prepare_return = kbind myproc (\<lambda>p.
     kthen intr_off
       (kthen (kput (\<lambda>s. s\<lparr>csr := (csr s)\<lparr>stvec := TRAMPOLINE + (sym_uservec (ksyms s) - sym_trampoline (ksyms s))\<rparr>\<rparr>))
         (kthen (\<lambda>s. set_tf p TF_KERNEL_SATP (satp (csr s)) s)
           (kthen (\<lambda>s. set_tf p TF_KERNEL_SP (p_kstack (procs s ! p) + PGSIZE) s)
             (kthen (\<lambda>s. set_tf p TF_KERNEL_TRAP (sym_usertrap (ksyms s)) s)
               (kthen (\<lambda>s. set_tf p TF_KERNEL_HARTID (tp (csr s)) s)
                 (kthen (upd_csr (\<lambda>c. c\<lparr>sstatus := sstatus c AND NOT SSTATUS_SPP OR SSTATUS_SPIE\<rparr>))
                   (kbind (get_tf p TF_EPC) (\<lambda>epc. upd_csr (\<lambda>c. c\<lparr>sepc := epc\<rparr>))))))))))"

text \<open>The end of \<open>usertrap\<close> and of \<open>forkret\<close>: the word for satp.\<close>

definition return_to_user :: "nat \<Rightarrow> 'z trap_st_scheme \<Rightarrow> (u64, 'z trap_st_scheme) outcome" where
  "return_to_user p = kthen prepare_return (kget (\<lambda>s. MAKE_SATP (p_pagetable (procs s ! p))))"

definition forkret :: "'z trap_st_scheme \<Rightarrow> (u64, 'z trap_st_scheme) outcome" where
  "forkret = kthen forkret_start (kbind myproc return_to_user)"

text \<open>The tests on the cause of the trap, with \<open>which_dev\<close> as the result.\<close>

definition usertrap_cause ::
  "device \<Rightarrow> bytes \<Rightarrow> u32 \<Rightarrow> bool \<Rightarrow> u8 list \<Rightarrow> nat
   \<Rightarrow> 'z trap_st_scheme \<Rightarrow> (nat, 'z trap_st_scheme) outcome" where
  "usertrap_cause dev pad irq idle cs p s =
     (if scause (csr s) = 8
      then kbind (killed p) (\<lambda>k. if k \<noteq> 0 then kexit (- 1)
             else kthen (kbind (get_tf p TF_EPC) (\<lambda>epc. set_tf p TF_EPC (epc + 4)))
                    (kthen intr_on (kthen (syscall pad) (kret 0)))) s
      else kbind (devintr dev irq idle cs) (\<lambda>which_dev.
             if which_dev \<noteq> 0 then kret which_dev
             else (\<lambda>s. kbind (if scause (csr s) = 15 \<or> scause (csr s) = 13
                          then vmfault (p_pagetable (procs s ! p)) (stval (csr s)) else kret 0) (\<lambda>mem.
                if mem \<noteq> 0 then kret 0
                else kthen (printf (''usertrap(): unexpected scause 0x%lx pid=%d'' @ [NL]) [PNum (scause (csr s)), PNum (scast (p_pid (procs s ! p)))])
                       (kthen (printf (''            sepc=0x%lx stval=0x%lx'' @ [NL]) [PNum (sepc (csr s)), PNum (stval (csr s))])
                         (kthen (setkilled p) (kret 0)))) s)) s)"

definition usertrap ::
  "device \<Rightarrow> bytes \<Rightarrow> u32 \<Rightarrow> bool \<Rightarrow> u8 list
   \<Rightarrow> 'z trap_st_scheme \<Rightarrow> (u64, 'z trap_st_scheme) outcome" where
  "usertrap dev pad irq idle cs s =
     (if sstatus (csr s) AND SSTATUS_SPP \<noteq> 0 then Panic ''usertrap: not from user mode''
      else kthen trapinithart (kbind myproc (\<lambda>p.
             kthen (\<lambda>s. set_tf p TF_EPC (sepc (csr s)) s)
               (kbind (usertrap_cause dev pad irq idle cs p) (\<lambda>which_dev.
                 kbind (killed p) (\<lambda>k. if k \<noteq> 0 then kexit (- 1)
                   else kthen (if which_dev = 2 then timer_tick else kret ()) (return_to_user p)))))) s)"

definition kerneltrap ::
  "device \<Rightarrow> u32 \<Rightarrow> bool \<Rightarrow> u8 list
   \<Rightarrow> 'z trap_st_scheme \<Rightarrow> (unit, 'z trap_st_scheme) outcome" where
  "kerneltrap dev irq idle cs s =
     (let pc = sepc (csr s); st = sstatus (csr s); cause = scause (csr s) in
      if st AND SSTATUS_SPP = 0 then Panic ''kerneltrap: not from supervisor mode''
      else if intr_get s then Panic ''kerneltrap: interrupts enabled''
      else kbind (devintr dev irq idle cs) (\<lambda>which_dev s.
             if which_dev = 0
             then kthen (printf (''scause=0x%lx sepc=0x%lx stval=0x%lx'' @ [NL]) [PNum cause, PNum (sepc (csr s)), PNum (stval (csr s))])
                    (kpanic ''kerneltrap'') s
             else kthen (if which_dev = 2 \<and> curproc s \<noteq> None then yield else kret ())
                    (upd_csr (\<lambda>c. c\<lparr>sepc := pc, sstatus := st\<rparr>)) s) s)"

end
