(* ===== verification/Locking.thy ===== *)
theory Locking
  imports Trap
begin

text \<open>
  The contract that every routine of the kernel keeps, and a calculus to prove it.
  A routine is \<open>balanced\<close> when it keeps the kernel state well formed, returns with
  the locks and the process it was called with, gives up the CPU only with the lock
  of its own process, and never runs into one of the panics of \<open>acquire\<close>,
  \<open>release\<close> and \<open>sched\<close> that stand for acquiring a lock twice or releasing a lock
  that is not held.  The rules follow the sequencing operators, so that the lemma
  for a routine is its definition and the lemmas of the routines it calls.  This
  theory goes from the console to the file system; \<open>Locksys\<close> goes on to the system
  calls.
\<close>

named_theorems bal \<open>rules for the contract\<close>
named_theorems vals \<open>what a routine returns is a valid index\<close>

section \<open>Well-formed states\<close>

text \<open>
  The tables have their sizes, and every pointer that is stored in one of them,
  which the model has as an index, points into the table it belongs to.
\<close>

definition ptr_ok :: "nat \<Rightarrow> nat option \<Rightarrow> bool" where
  "ptr_ok n p \<longleftrightarrow> (\<forall>i. p = Some i \<longrightarrow> i < n)"

definition ofile_ok :: "nat option list \<Rightarrow> bool" where
  "ofile_ok fs \<longleftrightarrow> length fs = NOFILE \<and> (\<forall>f \<in> set fs. ptr_ok NFILE f)"

definition proc_ok :: "proc \<Rightarrow> bool" where
  "proc_ok p \<longleftrightarrow> ofile_ok (p_ofile p) \<and> ptr_ok NINODE (p_cwd p) \<and> ptr_ok NPROC (p_parent p) \<and> length (p_name p) = 16"

definition inode_ok :: "inode \<Rightarrow> bool" where
  "inode_ok ip \<longleftrightarrow> length (i_addrs ip) = NDIRECT + 1"

definition file_ok :: "kfile \<Rightarrow> bool" where
  "file_ok f \<longleftrightarrow> ptr_ok NINODE (f_ip f) \<and> (f_type f = FD_INODE \<or> f_type f = FD_DEVICE \<longrightarrow> f_ip f \<noteq> None)"

definition kernel_ok :: "'z life_st_scheme \<Rightarrow> bool" where
  "kernel_ok s \<longleftrightarrow>
     length (procs s) = NPROC \<and> (\<forall>p \<in> set (procs s). proc_ok p) \<and> ptr_ok NPROC (curproc s) \<and> ptr_ok NPROC (initproc s)
   \<and> length (itable s) = NINODE \<and> (\<forall>ip \<in> set (itable s). inode_ok ip)
   \<and> length (ftable s) = NFILE \<and> (\<forall>f \<in> set (ftable s). file_ok f)
   \<and> length (bufs s) = Suc NBUF \<and> length (slocks s) = NBUF + NINODE \<and> length (lh_block s) = LOGBLOCKS
   \<and> length (c_buf (con s)) = INPUT_BUF_SIZE \<and> (\<forall>a. length (data (pipes s a)) = PIPESIZE)"

lemma ptr_ok_simps [simp]: "ptr_ok n None" "ptr_ok n (Some i) \<longleftrightarrow> i < n"
  by (simp_all add: ptr_ok_def)

lemma ofile_ok_update [simp]: "ofile_ok fs \<Longrightarrow> ptr_ok NFILE f \<Longrightarrow> ofile_ok (fs[i := f])"
  using set_update_subset_insert [of fs i f] by (auto simp: ofile_ok_def)

lemma ofile_ok_nth: "ofile_ok fs \<Longrightarrow> i < NOFILE \<Longrightarrow> ptr_ok NFILE (fs ! i)"
  by (simp add: ofile_ok_def)

lemma kernel_ok_proc: "kernel_ok s \<Longrightarrow> i < NPROC \<Longrightarrow> proc_ok (procs s ! i)"
  by (simp add: kernel_ok_def)

lemma kernel_ok_file: "kernel_ok s \<Longrightarrow> i < NFILE \<Longrightarrow> file_ok (ftable s ! i)"
  by (simp add: kernel_ok_def)

text \<open>Updates of the state.\<close>

lemma kernel_ok_fields [simp]:
  "kernel_ok (s\<lparr>locks := a\<rparr>) = kernel_ok s" "kernel_ok (s\<lparr>uart_out := b\<rparr>) = kernel_ok s"
  "kernel_ok (s\<lparr>pmem := m\<rparr>) = kernel_ok s" "kernel_ok (s\<lparr>freelist := d\<rparr>) = kernel_ok s"
  "kernel_ok (s\<lparr>nextpid := e\<rparr>) = kernel_ok s" "kernel_ok (s\<lparr>ticks := e\<rparr>) = kernel_ok s"
  "kernel_ok (s\<lparr>tx_busy := g\<rparr>) = kernel_ok s" "kernel_ok (s\<lparr>disk := h\<rparr>) = kernel_ok s"
  "kernel_ok (s\<lparr>dhist := j\<rparr>) = kernel_ok s" "kernel_ok (s\<lparr>log_start := e\<rparr>) = kernel_ok s"
  "kernel_ok (s\<lparr>log_outstanding := e\<rparr>) = kernel_ok s" "kernel_ok (s\<lparr>log_committing := g\<rparr>) = kernel_ok s"
  "kernel_ok (s\<lparr>log_dev := e\<rparr>) = kernel_ok s" "kernel_ok (s\<lparr>lh_n := e\<rparr>) = kernel_ok s"
  "kernel_ok (s\<lparr>lh_block := (lh_block s)[n := e]\<rparr>) = kernel_ok s"
  "kernel_ok (s\<lparr>fs_sb := k\<rparr>) = kernel_ok s" "kernel_ok (s\<lparr>forkret_first := g\<rparr>) = kernel_ok s"
  by (simp_all add: kernel_ok_def)

lemma in_set_update: "x \<in> set (xs[i := y]) \<Longrightarrow> x \<in> set xs \<or> (i < length xs \<and> x = y)"
  using set_update_subset_insert [of xs i y] by (cases "i < length xs") (auto simp: list_update_beyond)

lemma kernel_ok_upd_proc [bal]: "kernel_ok s \<Longrightarrow> (\<And>p. proc_ok p \<Longrightarrow> proc_ok (f p)) \<Longrightarrow> kernel_ok (upd_proc i f s)"
  by (auto simp: kernel_ok_def upd_proc_def dest!: in_set_update)

lemma kernel_ok_upd_inode [bal]: "kernel_ok s \<Longrightarrow> (\<And>p. inode_ok p \<Longrightarrow> inode_ok (f p)) \<Longrightarrow> kernel_ok (upd_inode i f s)"
  by (auto simp: kernel_ok_def upd_inode_def dest!: in_set_update)

lemma kernel_ok_upd_file [bal]: "kernel_ok s \<Longrightarrow> (\<And>p. file_ok p \<Longrightarrow> file_ok (f p)) \<Longrightarrow> kernel_ok (upd_file i f s)"
  by (auto simp: kernel_ok_def upd_file_def dest!: in_set_update)

lemma kernel_ok_upd_pipe [bal]:
  "kernel_ok s \<Longrightarrow> (\<And>p. length (data p) = PIPESIZE \<Longrightarrow> length (data (f p)) = PIPESIZE) \<Longrightarrow> kernel_ok (upd_pipe q f s)"
  by (simp add: kernel_ok_def upd_pipe_def)

lemma kernel_ok_upd_con [bal]:
  "kernel_ok s \<Longrightarrow> (\<And>p. length (c_buf (f p)) = length (c_buf p)) \<Longrightarrow> kernel_ok (upd_con f s)"
  by (simp add: kernel_ok_def upd_con_def)

lemma kernel_ok_upd_bufs [simp]: "kernel_ok (upd_buf i f s) = kernel_ok s" "kernel_ok (upd_slock i g s) = kernel_ok s"
  by (simp_all add: kernel_ok_def upd_buf_def upd_slock_def)

lemma proc_ok_fields [simp]:
  "proc_ok (p\<lparr>p_state := a\<rparr>) = proc_ok p" "proc_ok (p\<lparr>p_chan := b\<rparr>) = proc_ok p" "proc_ok (p\<lparr>p_killed := d\<rparr>) = proc_ok p"
  "proc_ok (p\<lparr>p_xstate := d\<rparr>) = proc_ok p" "proc_ok (p\<lparr>p_pid := d\<rparr>) = proc_ok p" "proc_ok (p\<lparr>p_waiting_tick := d\<rparr>) = proc_ok p"
  "proc_ok (p\<lparr>p_sz := e\<rparr>) = proc_ok p" "proc_ok (p\<lparr>p_pagetable := e\<rparr>) = proc_ok p" "proc_ok (p\<lparr>p_trapframe := e\<rparr>) = proc_ok p"
  "proc_ok (p\<lparr>p_context := g\<rparr>) = proc_ok p" "proc_ok (p\<lparr>p_cpu_quota := d\<rparr>) = proc_ok p" "proc_ok (p\<lparr>p_cpu_used := d\<rparr>) = proc_ok p"
  "proc_ok (p\<lparr>p_throttled := h\<rparr>) = proc_ok p" "proc_ok (p\<lparr>p_violations := d\<rparr>) = proc_ok p"
  by (simp_all add: proc_ok_def)

lemma proc_ok_pointers [simp, bal]:
  "proc_ok p \<Longrightarrow> ptr_ok NPROC q \<Longrightarrow> proc_ok (p\<lparr>p_parent := q\<rparr>)"
  "proc_ok p \<Longrightarrow> ptr_ok NINODE q \<Longrightarrow> proc_ok (p\<lparr>p_cwd := q\<rparr>)"
  "proc_ok p \<Longrightarrow> ptr_ok NFILE q \<Longrightarrow> proc_ok (p\<lparr>p_ofile := (p_ofile p)[i := q]\<rparr>)"
  by (simp_all add: proc_ok_def)

lemma proc_ok_ops [simp]: "proc_ok p \<Longrightarrow> proc_ok (wake_proc ch p)" "proc_ok p \<Longrightarrow> proc_ok (kill_proc p)"
  "proc_ok p \<Longrightarrow> proc_ok (clear_proc p)" "proc_ok p \<Longrightarrow> proc_ok (found_proc pid p)" "proc_ok p \<Longrightarrow> proc_ok (set_quota_proc q p)"
  by (simp_all add: wake_proc_def kill_proc_def clear_proc_def found_proc_def set_quota_proc_def Let_def proc_ok_def)

lemma inode_ok_fields [simp]:
  "inode_ok (p\<lparr>i_dev := a\<rparr>) = inode_ok p" "inode_ok (p\<lparr>i_inum := a\<rparr>) = inode_ok p" "inode_ok (p\<lparr>i_ref := a\<rparr>) = inode_ok p"
  "inode_ok (p\<lparr>i_valid := b\<rparr>) = inode_ok p" "inode_ok (p\<lparr>i_type := d\<rparr>) = inode_ok p" "inode_ok (p\<lparr>i_major := d\<rparr>) = inode_ok p"
  "inode_ok (p\<lparr>i_minor := d\<rparr>) = inode_ok p" "inode_ok (p\<lparr>i_nlink := d\<rparr>) = inode_ok p" "inode_ok (p\<lparr>i_size := a\<rparr>) = inode_ok p"
  "inode_ok (p\<lparr>i_addrs := (i_addrs p)[k := a]\<rparr>) = inode_ok p"
  by (simp_all add: inode_ok_def)

lemma kernel_ok_ptrs [simp]: "kernel_ok s \<Longrightarrow> ptr_ok NPROC (initproc s)" "kernel_ok s \<Longrightarrow> ptr_ok NPROC (curproc s)"
  by (simp_all add: kernel_ok_def)

section \<open>The calculus\<close>

definition lock_panics :: "string set" where
  "lock_panics = {''acquire'', ''release'', ''sched p->lock''}"

lemma lock_panics_simps [simp]:
  "e \<in> lock_panics \<longleftrightarrow> e = ''acquire'' \<or> e = ''release'' \<or> e = ''sched p->lock''"
  by (simp add: lock_panics_def)

text \<open>
  The outcome leaves the process \<open>c\<close> running and the locks \<open>L\<close>.  A CPU that prints
  after a panic elsewhere spins for ever.
\<close>

definition balanced :: "nat option \<Rightarrow> lockid list \<Rightarrow> ('a, 'z life_st_scheme) outcome \<Rightarrow> bool" where
  "balanced c L r = (case r of
     Ret x t \<Rightarrow> curproc t = c \<and> locks t = L \<and> kernel_ok t
   | Panic e \<Rightarrow> e \<notin> lock_panics
   | Sleep t \<Rightarrow> kernel_ok t \<and> (panicked t \<or> (\<exists>p. c = Some p \<and> curproc t = c \<and> locks t = [ProcLock p])))"

text \<open>A list of locks without one of a process.\<close>

definition no_proclock :: "lockid list \<Rightarrow> bool" where
  "no_proclock L \<longleftrightarrow> (\<forall>i. ProcLock i \<notin> set L)"

lemma no_proclock_simps [simp]: "no_proclock []"
  "no_proclock (l # L) \<longleftrightarrow> (\<forall>i. l \<noteq> ProcLock i) \<and> no_proclock L"
  by (auto simp: no_proclock_def)

lemma no_proclock_member [simp]: "no_proclock L \<Longrightarrow> ProcLock i \<notin> set L"
  by (simp add: no_proclock_def)

lemma balanced_Ret [bal]: "curproc t = c \<Longrightarrow> locks t = L \<Longrightarrow> kernel_ok t \<Longrightarrow> balanced c L (Ret x t)"
  by (simp add: balanced_def)

lemma balanced_Panic [bal]: "e \<notin> lock_panics \<Longrightarrow> balanced c L (Panic e)"
  by (simp add: balanced_def)

lemma balanced_kbind [bal]:
  "curproc s = c \<Longrightarrow> balanced c (locks s) (m s)
   \<Longrightarrow> (\<And>x t. m s = Ret x t \<Longrightarrow> curproc t = c \<Longrightarrow> locks t = locks s \<Longrightarrow> kernel_ok t \<Longrightarrow> balanced c L (f x t))
   \<Longrightarrow> balanced c L (kbind m f s)"
  by (cases "m s") (auto simp: balanced_def)

lemma balanced_kthen [bal]:
  "curproc s = c \<Longrightarrow> balanced c (locks s) (m s)
   \<Longrightarrow> (\<And>t. curproc t = c \<Longrightarrow> locks t = locks s \<Longrightarrow> kernel_ok t \<Longrightarrow> balanced c L (n t)) \<Longrightarrow> balanced c L (kthen m n s)"
  unfolding kthen_def by (rule balanced_kbind)

lemma balanced_kfor [bal]:
  "curproc s = c \<Longrightarrow> locks s = L \<Longrightarrow> kernel_ok s
   \<Longrightarrow> (\<And>x t. x \<in> set xs \<Longrightarrow> curproc t = c \<Longrightarrow> locks t = L \<Longrightarrow> kernel_ok t \<Longrightarrow> balanced c L (f x t)) \<Longrightarrow> balanced c L (kfor f xs s)"
  by (induction xs arbitrary: s) (auto intro!: bal)

lemma balanced_critical [bal]:
  assumes "curproc s = c" and "locks s = L" and "kernel_ok s" and "l \<notin> set L"
    and "\<And>t. curproc t = c \<Longrightarrow> locks t = l # L \<Longrightarrow> kernel_ok t \<Longrightarrow> balanced c (l # L) (m t)"
  shows "balanced c L (critical l m s)"
  using assms by (auto simp: critical_def kdefs intro!: balanced_kbind balanced_Ret)

lemma balanced_sched: "kernel_ok s \<Longrightarrow> curproc s = c \<Longrightarrow> c = Some p \<Longrightarrow> ProcLock p \<in> set (locks s) \<Longrightarrow> balanced c L (sched s)"
  by (cases "locks s") (auto simp: sched_def myproc_def kholding_def balanced_def)

lemma balanced_sleep [bal]:
  assumes "curproc s = c" and "locks s = l # L" and "kernel_ok s" and "no_proclock (l # L)"
  shows "balanced c L' (sleep ch l s)"
proof (cases "curproc s")
  case (Some p)
  let ?t = "upd_proc p (\<lambda>q. q\<lparr>p_chan := Some ch, p_state := SLEEPING\<rparr>) (s\<lparr>locks := ProcLock p # L\<rparr>)"
  have l: "ProcLock p \<noteq> l" "ProcLock p \<notin> set L" using assms(4) by auto
  then have "sleep ch l s = kthen sched (sleep_resume p l) ?t" using assms(2) Some
    by (auto simp: sleep_def myproc_def)
  moreover have "sched ?t \<noteq> Ret () u" for u using Some by (auto simp: sched_def myproc_def)
  moreover have "balanced c L' (sched ?t)" by (rule balanced_sched [of _ _ p]) (use Some assms in \<open>simp_all add: kernel_ok_upd_proc\<close>)
  ultimately show ?thesis by (cases "sched ?t") (auto simp: balanced_def)
qed (simp add: sleep_def myproc_def balanced_def)

lemma balanced_yield [bal]:
  assumes "curproc s = c" and "kernel_ok s" and "no_proclock (locks s)"
  shows "balanced c L (yield s)"
proof (cases "curproc s")
  case (Some p)
  let ?t = "upd_proc p (\<lambda>q. q\<lparr>p_state := RUNNABLE\<rparr>) (s\<lparr>locks := ProcLock p # locks s\<rparr>)"
  have "yield s = kthen sched (krelease (ProcLock p)) ?t" using assms(3) Some by (simp add: yield_def myproc_def)
  moreover have "sched ?t \<noteq> Ret () u" for u using Some by (auto simp: sched_def myproc_def)
  moreover have "balanced c L (sched ?t)" by (rule balanced_sched [of _ _ p]) (use Some assms in \<open>simp_all add: kernel_ok_upd_proc\<close>)
  ultimately show ?thesis by (cases "sched ?t") (auto simp: balanced_def)
qed (simp add: yield_def myproc_def balanced_def)

lemma balanced_myproc [bal]: "curproc s = c \<Longrightarrow> locks s = L \<Longrightarrow> kernel_ok s \<Longrightarrow> balanced c L (myproc s)"
  by (auto simp: myproc_def intro!: bal split: option.splits)

section \<open>Printing and memory\<close>

lemma balanced_uartputc [bal]: "curproc s = c \<Longrightarrow> locks s = L \<Longrightarrow> kernel_ok s \<Longrightarrow> balanced c L (uartputc_sync ch s)"
  by (simp add: uartputc_sync_def balanced_def)

lemma balanced_consputc [bal]: "curproc s = c \<Longrightarrow> locks s = L \<Longrightarrow> kernel_ok s \<Longrightarrow> balanced c L (consputc ch s)"
  by (auto simp: consputc_def intro!: bal)

lemma balanced_printf [bal]: "curproc s = c \<Longrightarrow> locks s = L \<Longrightarrow> kernel_ok s \<Longrightarrow> PrLock \<notin> set L \<Longrightarrow> balanced c L (printf fmt ap s)"
  by (auto simp: printf_def cons_printf_def kdefs intro!: bal split: option.splits)

lemma balanced_kfree [bal]: "curproc s = c \<Longrightarrow> locks s = L \<Longrightarrow> kernel_ok s \<Longrightarrow> KmemLock \<notin> set L \<Longrightarrow> balanced c L (kfree pa s)"
  by (auto simp: kfree_def kdefs intro!: bal)

lemma balanced_kalloc [bal]: "curproc s = c \<Longrightarrow> locks s = L \<Longrightarrow> kernel_ok s \<Longrightarrow> KmemLock \<notin> set L \<Longrightarrow> balanced c L (kalloc s)"
  by (auto simp: kalloc_def kdefs Let_def intro!: bal)

lemma balanced_walk_level [bal]: "curproc s = c \<Longrightarrow> locks s = L \<Longrightarrow> kernel_ok s \<Longrightarrow> KmemLock \<notin> set L \<Longrightarrow> balanced c L (walk_level level va a pt s)"
  by (auto simp: walk_level_def kdefs Let_def intro!: bal)

lemma balanced_walk [bal]: "curproc s = c \<Longrightarrow> locks s = L \<Longrightarrow> kernel_ok s \<Longrightarrow> KmemLock \<notin> set L \<Longrightarrow> balanced c L (walk pt va a s)"
  by (auto simp: walk_def kdefs intro!: bal split: option.splits)

lemma balanced_walkaddr [bal]: "curproc s = c \<Longrightarrow> locks s = L \<Longrightarrow> kernel_ok s \<Longrightarrow> KmemLock \<notin> set L \<Longrightarrow> balanced c L (walkaddr pt va s)"
  by (auto simp: walkaddr_def kdefs Let_def intro!: bal)

lemma balanced_ismapped [bal]: "curproc s = c \<Longrightarrow> locks s = L \<Longrightarrow> kernel_ok s \<Longrightarrow> KmemLock \<notin> set L \<Longrightarrow> balanced c L (ismapped pt va s)"
  by (auto simp: ismapped_def intro!: bal)

lemma balanced_store_pte [bal]: "curproc s = c \<Longrightarrow> locks s = L \<Longrightarrow> kernel_ok s \<Longrightarrow> balanced c L (store_pte pte v s)"
  by (auto simp: store_pte_def kdefs intro!: bal)

lemma balanced_mappages_loop [bal]:
  "curproc s = c \<Longrightarrow> locks s = L \<Longrightarrow> kernel_ok s \<Longrightarrow> KmemLock \<notin> set L \<Longrightarrow> balanced c L (mappages_loop n pt a a_last pa perm s)"
  by (induction n arbitrary: s a pa) (auto simp: kdefs intro!: bal)

lemma balanced_mappages [bal]: "curproc s = c \<Longrightarrow> locks s = L \<Longrightarrow> kernel_ok s \<Longrightarrow> KmemLock \<notin> set L \<Longrightarrow> balanced c L (mappages pt va sz pa perm s)"
  by (auto simp: mappages_def kdefs intro!: bal)

lemma balanced_zeroed_page [bal]: "curproc s = c \<Longrightarrow> locks s = L \<Longrightarrow> kernel_ok s \<Longrightarrow> KmemLock \<notin> set L \<Longrightarrow> balanced c L (zeroed_page s)"
  by (auto simp: zeroed_page_def kdefs intro!: bal)

lemma balanced_uvmcreate [bal]: "curproc s = c \<Longrightarrow> locks s = L \<Longrightarrow> kernel_ok s \<Longrightarrow> KmemLock \<notin> set L \<Longrightarrow> balanced c L (uvmcreate s)"
  by (auto simp: uvmcreate_def intro!: bal)

lemma balanced_uvmunmap_loop [bal]:
  "curproc s = c \<Longrightarrow> locks s = L \<Longrightarrow> kernel_ok s \<Longrightarrow> KmemLock \<notin> set L \<Longrightarrow> balanced c L (uvmunmap_loop n pt a lim f s)"
  by (induction n arbitrary: s a) (auto simp: kdefs Let_def intro!: bal)

lemma balanced_uvmunmap [bal]: "curproc s = c \<Longrightarrow> locks s = L \<Longrightarrow> kernel_ok s \<Longrightarrow> KmemLock \<notin> set L \<Longrightarrow> balanced c L (uvmunmap pt va n f s)"
  by (auto simp: uvmunmap_def kdefs intro!: bal)

lemma balanced_uvmdealloc [bal]: "curproc s = c \<Longrightarrow> locks s = L \<Longrightarrow> kernel_ok s \<Longrightarrow> KmemLock \<notin> set L \<Longrightarrow> balanced c L (uvmdealloc pt o' n s)"
  by (auto simp: uvmdealloc_def kdefs intro!: bal)

lemma balanced_uvmalloc_loop [bal]:
  "curproc s = c \<Longrightarrow> locks s = L \<Longrightarrow> kernel_ok s \<Longrightarrow> KmemLock \<notin> set L \<Longrightarrow> balanced c L (uvmalloc_loop n pt a o' nsz x s)"
  by (induction n arbitrary: s a) (auto simp: kdefs intro!: bal)

lemma balanced_uvmalloc [bal]: "curproc s = c \<Longrightarrow> locks s = L \<Longrightarrow> kernel_ok s \<Longrightarrow> KmemLock \<notin> set L \<Longrightarrow> balanced c L (uvmalloc pt o' n x s)"
  by (auto simp: uvmalloc_def kdefs Let_def intro!: bal)

lemma balanced_freewalk [bal]: "curproc s = c \<Longrightarrow> locks s = L \<Longrightarrow> kernel_ok s \<Longrightarrow> KmemLock \<notin> set L \<Longrightarrow> balanced c L (freewalk n pt s)"
  by (induction n arbitrary: s pt) (auto simp: kdefs Let_def intro!: bal)

lemma balanced_uvmfree [bal]: "curproc s = c \<Longrightarrow> locks s = L \<Longrightarrow> kernel_ok s \<Longrightarrow> KmemLock \<notin> set L \<Longrightarrow> balanced c L (uvmfree pt sz s)"
  by (auto simp: uvmfree_def kdefs intro!: bal)

lemma balanced_uvmcopy_loop [bal]:
  "curproc s = c \<Longrightarrow> locks s = L \<Longrightarrow> kernel_ok s \<Longrightarrow> KmemLock \<notin> set L \<Longrightarrow> balanced c L (uvmcopy_loop n old new i sz s)"
  by (induction n arbitrary: s i) (auto simp: kdefs Let_def intro!: bal)

lemma balanced_uvmcopy [bal]: "curproc s = c \<Longrightarrow> locks s = L \<Longrightarrow> kernel_ok s \<Longrightarrow> KmemLock \<notin> set L \<Longrightarrow> balanced c L (uvmcopy old new sz s)"
  unfolding uvmcopy_def by (rule balanced_uvmcopy_loop)

lemma balanced_uvmclear [bal]: "curproc s = c \<Longrightarrow> locks s = L \<Longrightarrow> kernel_ok s \<Longrightarrow> KmemLock \<notin> set L \<Longrightarrow> balanced c L (uvmclear pt va s)"
  by (auto simp: uvmclear_def intro!: bal)

lemma balanced_vmfault [bal]: "curproc s = c \<Longrightarrow> locks s = L \<Longrightarrow> kernel_ok s \<Longrightarrow> KmemLock \<notin> set L \<Longrightarrow> balanced c L (vmfault pt va s)"
  by (auto simp: vmfault_def kdefs Let_def intro!: bal)

lemma balanced_user_page [bal]: "curproc s = c \<Longrightarrow> locks s = L \<Longrightarrow> kernel_ok s \<Longrightarrow> KmemLock \<notin> set L \<Longrightarrow> balanced c L (user_page pt va s)"
  by (auto simp: user_page_def kdefs intro!: bal)

lemma balanced_copyout_loop [bal]:
  "curproc s = c \<Longrightarrow> locks s = L \<Longrightarrow> kernel_ok s \<Longrightarrow> KmemLock \<notin> set L \<Longrightarrow> balanced c L (copyout_loop n pt va src s)"
  by (induction n arbitrary: s va src) (auto simp: kdefs Let_def intro!: bal)

lemma balanced_copyout [bal]: "curproc s = c \<Longrightarrow> locks s = L \<Longrightarrow> kernel_ok s \<Longrightarrow> KmemLock \<notin> set L \<Longrightarrow> balanced c L (copyout pt va src s)"
  by (auto simp: copyout_def intro!: bal)

lemma balanced_copyin_loop [bal]:
  "curproc s = c \<Longrightarrow> locks s = L \<Longrightarrow> kernel_ok s \<Longrightarrow> KmemLock \<notin> set L \<Longrightarrow> balanced c L (copyin_loop n pt va len acc s)"
  by (induction n arbitrary: s va len acc) (auto simp: kdefs Let_def intro!: bal)

lemma balanced_copyin [bal]: "curproc s = c \<Longrightarrow> locks s = L \<Longrightarrow> kernel_ok s \<Longrightarrow> KmemLock \<notin> set L \<Longrightarrow> balanced c L (copyin pt va len s)"
  by (auto simp: copyin_def intro!: bal)

lemma balanced_copyinstr_loop [bal]:
  "curproc s = c \<Longrightarrow> locks s = L \<Longrightarrow> kernel_ok s \<Longrightarrow> KmemLock \<notin> set L \<Longrightarrow> balanced c L (copyinstr_loop n pt va mx acc s)"
  by (induction n arbitrary: s va mx acc) (auto simp: kdefs Let_def intro!: bal split: prod.splits)

lemma balanced_copyinstr [bal]: "curproc s = c \<Longrightarrow> locks s = L \<Longrightarrow> kernel_ok s \<Longrightarrow> KmemLock \<notin> set L \<Longrightarrow> balanced c L (copyinstr pt va mx s)"
  by (auto simp: copyinstr_def intro!: bal)

lemma balanced_either_copyout [bal]: "curproc s = c \<Longrightarrow> locks s = L \<Longrightarrow> kernel_ok s \<Longrightarrow> KmemLock \<notin> set L \<Longrightarrow> balanced c L (either_copyout u dst src s)"
  by (auto simp: either_copyout_def kdefs intro!: bal)

lemma balanced_either_copyin [bal]: "curproc s = c \<Longrightarrow> locks s = L \<Longrightarrow> kernel_ok s \<Longrightarrow> KmemLock \<notin> set L \<Longrightarrow> balanced c L (either_copyin u src len s)"
  by (auto simp: either_copyin_def kdefs intro!: bal)

section \<open>Processes and the console\<close>

lemma balanced_wakeup [bal]: "curproc s = c \<Longrightarrow> locks s = L \<Longrightarrow> kernel_ok s \<Longrightarrow> no_proclock L \<Longrightarrow> balanced c L (wakeup ch s)"
  by (auto simp: wakeup_def kdefs intro!: bal)

lemma balanced_killed [bal]: "curproc s = c \<Longrightarrow> locks s = L \<Longrightarrow> kernel_ok s \<Longrightarrow> no_proclock L \<Longrightarrow> balanced c L (killed i s)"
  by (auto simp: killed_def kdefs intro!: bal)

lemma balanced_setkilled [bal]: "curproc s = c \<Longrightarrow> locks s = L \<Longrightarrow> kernel_ok s \<Longrightarrow> no_proclock L \<Longrightarrow> balanced c L (setkilled i s)"
  by (auto simp: setkilled_def kdefs intro!: bal)

lemma balanced_allocpid [bal]: "curproc s = c \<Longrightarrow> locks s = L \<Longrightarrow> kernel_ok s \<Longrightarrow> PidLock \<notin> set L \<Longrightarrow> balanced c L (allocpid s)"
  by (auto simp: allocpid_def intro!: bal)

lemma balanced_kkill_loop [bal]: "curproc s = c \<Longrightarrow> locks s = L \<Longrightarrow> kernel_ok s \<Longrightarrow> no_proclock L \<Longrightarrow> balanced c L (kkill_loop pid is s)"
  by (induction "is" arbitrary: s) (auto simp: kdefs intro!: bal)

lemma balanced_kkill [bal]: "curproc s = c \<Longrightarrow> locks s = L \<Longrightarrow> kernel_ok s \<Longrightarrow> no_proclock L \<Longrightarrow> balanced c L (kkill pid s)"
  by (auto simp: kkill_def intro!: bal)

lemma balanced_reparent [bal]: "curproc s = c \<Longrightarrow> locks s = L \<Longrightarrow> kernel_ok s \<Longrightarrow> no_proclock L \<Longrightarrow> balanced c L (reparent p s)"
  by (auto simp: reparent_def kdefs intro!: bal)

lemma balanced_argraw [bal]: "curproc s = c \<Longrightarrow> locks s = L \<Longrightarrow> kernel_ok s \<Longrightarrow> balanced c L (argraw n s)"
  by (auto simp: argraw_def intro!: bal)

lemma balanced_argint [bal]: "curproc s = c \<Longrightarrow> locks s = L \<Longrightarrow> kernel_ok s \<Longrightarrow> balanced c L (argint n s)"
  by (auto simp: argint_def kdefs intro!: bal)

lemma balanced_argaddr [bal]: "curproc s = c \<Longrightarrow> locks s = L \<Longrightarrow> kernel_ok s \<Longrightarrow> balanced c L (argaddr n s)"
  by (auto simp: argaddr_def intro!: bal)

lemma balanced_kps_usage [bal]: "curproc s = c \<Longrightarrow> locks s = L \<Longrightarrow> kernel_ok s \<Longrightarrow> PrLock \<notin> set L \<Longrightarrow> balanced c L (kps_usage s)"
  by (auto simp: kps_usage_def kdefs intro!: bal)

lemma balanced_kps_name [bal]: "curproc s = c \<Longrightarrow> locks s = L \<Longrightarrow> kernel_ok s \<Longrightarrow> PrLock \<notin> set L \<Longrightarrow> no_proclock L \<Longrightarrow> balanced c L (kps_name i s)"
  by (auto simp: kps_name_def kdefs Let_def intro!: bal)

lemma balanced_kps_long [bal]: "curproc s = c \<Longrightarrow> locks s = L \<Longrightarrow> kernel_ok s \<Longrightarrow> PrLock \<notin> set L \<Longrightarrow> no_proclock L \<Longrightarrow> balanced c L (kps_long i s)"
  by (auto simp: kps_long_def kdefs Let_def intro!: bal)

lemma balanced_kps [bal]: "curproc s = c \<Longrightarrow> locks s = L \<Longrightarrow> kernel_ok s \<Longrightarrow> PrLock \<notin> set L \<Longrightarrow> no_proclock L \<Longrightarrow> balanced c L (kps a s)"
  by (auto simp: kps_def kdefs intro!: bal split: option.splits)

lemma balanced_procdump_line [bal]: "curproc s = c \<Longrightarrow> locks s = L \<Longrightarrow> kernel_ok s \<Longrightarrow> PrLock \<notin> set L \<Longrightarrow> balanced c L (procdump_line i s)"
  by (auto simp: procdump_line_def Let_def intro!: bal)

lemma balanced_procdump [bal]: "curproc s = c \<Longrightarrow> locks s = L \<Longrightarrow> kernel_ok s \<Longrightarrow> PrLock \<notin> set L \<Longrightarrow> balanced c L (procdump s)"
  by (auto simp: procdump_def intro!: bal)

lemma upd_con_locks [simp]: "locks (upd_con f s) = locks s" "curproc (upd_con f s) = curproc s"
  by (simp_all add: upd_con_def)

lemma balanced_kill_line [bal]: "curproc s = c \<Longrightarrow> locks s = L \<Longrightarrow> kernel_ok s \<Longrightarrow> balanced c L (kill_line n s)"
  by (induction n arbitrary: s) (auto simp: kdefs intro!: bal)

lemma balanced_backspace [bal]: "curproc s = c \<Longrightarrow> locks s = L \<Longrightarrow> kernel_ok s \<Longrightarrow> balanced c L (backspace s)"
  by (auto simp: backspace_def intro!: bal)

lemma balanced_con_default [bal]: "curproc s = c \<Longrightarrow> locks s = L \<Longrightarrow> kernel_ok s \<Longrightarrow> no_proclock L \<Longrightarrow> balanced c L (con_default ch s)"
  by (auto simp: con_default_def con_store_def kdefs Let_def intro!: bal)

lemma balanced_consoleintr [bal]:
  "curproc s = c \<Longrightarrow> locks s = L \<Longrightarrow> kernel_ok s \<Longrightarrow> no_proclock L \<Longrightarrow> ConsLock \<notin> set L \<Longrightarrow> PrLock \<notin> set L \<Longrightarrow> balanced c L (consoleintr ch s)"
  by (auto simp: consoleintr_def intro!: bal)

lemma balanced_uartintr [bal]: "curproc s = c \<Longrightarrow> locks s = [] \<Longrightarrow> kernel_ok s \<Longrightarrow> balanced c [] (uartintr idle cs s)"
  by (auto simp: uartintr_def kdefs intro!: bal)

lemma balanced_consoleread_loop [bal]:
  "curproc s = c \<Longrightarrow> locks s = [ConsLock] \<Longrightarrow> kernel_ok s \<Longrightarrow> balanced c [ConsLock] (consoleread_loop u target dst n s)"
  by (induction n arbitrary: s dst) (auto simp: consoleread_loop.simps kdefs Let_def intro!: bal)

lemma balanced_consoleread [bal]: "curproc s = c \<Longrightarrow> locks s = [] \<Longrightarrow> kernel_ok s \<Longrightarrow> balanced c [] (consoleread u dst n s)"
  by (auto simp: consoleread_def kdefs intro!: bal)

lemma balanced_uartwrite [bal]: "curproc s = c \<Longrightarrow> locks s = [] \<Longrightarrow> kernel_ok s \<Longrightarrow> balanced c [] (uartwrite bs s)"
  by (auto simp: uartwrite_def intro!: bal)

lemma balanced_consolewrite_loop [bal]: "curproc s = c \<Longrightarrow> locks s = [] \<Longrightarrow> kernel_ok s \<Longrightarrow> balanced c [] (consolewrite_loop u src n i s)"
proof (induction u src n i arbitrary: s rule: consolewrite_loop.induct)
  case (1 u src n i)
  show ?case unfolding consolewrite_loop.simps [of u src n i] using 1 by (auto simp: kdefs Let_def intro!: bal)
qed

lemma balanced_consolewrite [bal]: "curproc s = c \<Longrightarrow> locks s = [] \<Longrightarrow> kernel_ok s \<Longrightarrow> balanced c [] (consolewrite u src n s)"
  by (auto simp: consolewrite_def kdefs intro!: bal)

section \<open>Blocks and the log\<close>

lemma balanced_acquiresleep [bal]:
  "curproc s = c \<Longrightarrow> locks s = L \<Longrightarrow> kernel_ok s \<Longrightarrow> no_proclock L \<Longrightarrow> SleepLk k \<notin> set L \<Longrightarrow> balanced c L (acquiresleep k s)"
  by (auto simp: acquiresleep_def myproc_def kdefs intro!: bal split: option.splits)

lemma balanced_releasesleep [bal]:
  "curproc s = c \<Longrightarrow> locks s = L \<Longrightarrow> kernel_ok s \<Longrightarrow> no_proclock L \<Longrightarrow> SleepLk k \<notin> set L \<Longrightarrow> balanced c L (releasesleep k s)"
  by (auto simp: releasesleep_def kdefs intro!: bal)

lemma balanced_holdingsleep [bal]: "curproc s = c \<Longrightarrow> locks s = L \<Longrightarrow> kernel_ok s \<Longrightarrow> SleepLk k \<notin> set L \<Longrightarrow> balanced c L (holdingsleep k s)"
  by (auto simp: holdingsleep_def kdefs intro!: bal)

lemma balanced_bget [bal]: "curproc s = c \<Longrightarrow> locks s = [] \<Longrightarrow> kernel_ok s \<Longrightarrow> balanced c [] (bget dev b s)"
  by (auto simp: bget_def kdefs intro!: bal split: option.splits)

lemma balanced_disk_transfer [bal]: "curproc s = c \<Longrightarrow> locks s = L \<Longrightarrow> kernel_ok s \<Longrightarrow> balanced c L (disk_transfer b w s)"
  by (auto simp: disk_transfer_def kdefs Let_def intro!: bal)

lemma balanced_bread [bal]: "curproc s = c \<Longrightarrow> locks s = [] \<Longrightarrow> kernel_ok s \<Longrightarrow> balanced c [] (bread dev b s)"
  by (auto simp: bread_def kdefs intro!: bal)

lemma balanced_bwrite [bal]: "curproc s = c \<Longrightarrow> locks s = [] \<Longrightarrow> kernel_ok s \<Longrightarrow> balanced c [] (bwrite b s)"
  by (auto simp: bwrite_def kdefs intro!: bal)

lemma balanced_link_head [bal]: "curproc s = c \<Longrightarrow> locks s = L \<Longrightarrow> kernel_ok s \<Longrightarrow> balanced c L (link_head b s)"
  by (auto simp: link_head_def kdefs intro!: bal)

lemma balanced_brelse [bal]: "curproc s = c \<Longrightarrow> locks s = [] \<Longrightarrow> kernel_ok s \<Longrightarrow> balanced c [] (brelse b s)"
  by (auto simp: brelse_def kdefs intro!: bal)

lemma balanced_bpin [bal]: "curproc s = c \<Longrightarrow> locks s = L \<Longrightarrow> kernel_ok s \<Longrightarrow> BcacheLock \<notin> set L \<Longrightarrow> balanced c L (bpin b s)"
  by (auto simp: bpin_def kdefs intro!: bal)

lemma balanced_bunpin [bal]: "curproc s = c \<Longrightarrow> locks s = L \<Longrightarrow> kernel_ok s \<Longrightarrow> BcacheLock \<notin> set L \<Longrightarrow> balanced c L (bunpin b s)"
  by (auto simp: bunpin_def kdefs intro!: bal)

lemma balanced_data [bal]: "curproc s = c \<Longrightarrow> locks s = L \<Longrightarrow> kernel_ok s \<Longrightarrow> balanced c L (get_data b s)" "curproc s = c \<Longrightarrow> locks s = L \<Longrightarrow> kernel_ok s \<Longrightarrow> balanced c L (set_data b d s)"
  by (auto simp: get_data_def set_data_def kdefs intro!: bal)

lemma balanced_lh [bal]: "curproc s = c \<Longrightarrow> locks s = L \<Longrightarrow> kernel_ok s \<Longrightarrow> balanced c L (lh_get i s)" "curproc s = c \<Longrightarrow> locks s = L \<Longrightarrow> kernel_ok s \<Longrightarrow> balanced c L (lh_set i b s)"
  by (auto simp: lh_get_def lh_set_def intro!: bal)

lemma balanced_install_one [bal]: "curproc s = c \<Longrightarrow> locks s = [] \<Longrightarrow> kernel_ok s \<Longrightarrow> balanced c [] (install_one r tail s)"
  by (auto simp: install_one_def kdefs intro!: bal)

lemma balanced_install_trans [bal]: "curproc s = c \<Longrightarrow> locks s = [] \<Longrightarrow> kernel_ok s \<Longrightarrow> balanced c [] (install_trans r s)"
  by (auto simp: install_trans_def intro!: bal)

lemma balanced_read_head [bal]: "curproc s = c \<Longrightarrow> locks s = [] \<Longrightarrow> kernel_ok s \<Longrightarrow> balanced c [] (read_head s)"
  by (auto simp: read_head_def kdefs intro!: bal)

lemma balanced_write_head [bal]: "curproc s = c \<Longrightarrow> locks s = [] \<Longrightarrow> kernel_ok s \<Longrightarrow> balanced c [] (write_head s)"
  by (auto simp: write_head_def kdefs intro!: bal)

lemma balanced_initlog [bal]: "curproc s = c \<Longrightarrow> locks s = [] \<Longrightarrow> kernel_ok s \<Longrightarrow> balanced c [] (initlog dev sb s)"
  by (auto simp: initlog_def recover_from_log_def kdefs intro!: bal)

lemma balanced_begin_op [bal]: "curproc s = c \<Longrightarrow> locks s = [] \<Longrightarrow> kernel_ok s \<Longrightarrow> balanced c [] (begin_op s)"
  by (auto simp: begin_op_def kdefs intro!: bal)

lemma balanced_write_log [bal]: "curproc s = c \<Longrightarrow> locks s = [] \<Longrightarrow> kernel_ok s \<Longrightarrow> balanced c [] (write_log s)"
  by (auto simp: write_log_def write_log_one_def kdefs intro!: bal)

lemma balanced_commit [bal]: "curproc s = c \<Longrightarrow> locks s = [] \<Longrightarrow> kernel_ok s \<Longrightarrow> balanced c [] (commit s)"
  by (auto simp: commit_def kdefs intro!: bal)

lemma balanced_end_op [bal]: "curproc s = c \<Longrightarrow> locks s = [] \<Longrightarrow> kernel_ok s \<Longrightarrow> balanced c [] (end_op s)"
  by (auto simp: end_op_def kdefs intro!: bal)

lemma balanced_log_write [bal]: "curproc s = c \<Longrightarrow> locks s = [] \<Longrightarrow> kernel_ok s \<Longrightarrow> balanced c [] (log_write b s)"
  by (auto simp: log_write_def kdefs Let_def intro!: bal)

section \<open>The file system\<close>

lemma upd_inode_locks [simp]: "locks (upd_inode i f s) = locks s" "curproc (upd_inode i f s) = curproc s"
  by (simp_all add: upd_inode_def)

lemma balanced_readsb [bal]: "curproc s = c \<Longrightarrow> locks s = [] \<Longrightarrow> kernel_ok s \<Longrightarrow> balanced c [] (readsb dev s)"
  by (auto simp: readsb_def kdefs intro!: bal)

lemma balanced_bzero [bal]: "curproc s = c \<Longrightarrow> locks s = [] \<Longrightarrow> kernel_ok s \<Longrightarrow> balanced c [] (bzero dev b s)"
  by (auto simp: bzero_def kdefs intro!: bal)

lemma balanced_balloc_loop [bal]: "curproc s = c \<Longrightarrow> locks s = [] \<Longrightarrow> kernel_ok s \<Longrightarrow> balanced c [] (balloc_loop dev bs s)"
  by (induction bs arbitrary: s) (auto simp: kdefs intro!: bal split: option.splits)

lemma balanced_balloc [bal]: "curproc s = c \<Longrightarrow> locks s = [] \<Longrightarrow> kernel_ok s \<Longrightarrow> balanced c [] (balloc dev s)"
  by (auto simp: balloc_def intro!: bal)

lemma balanced_bfree [bal]: "curproc s = c \<Longrightarrow> locks s = [] \<Longrightarrow> kernel_ok s \<Longrightarrow> balanced c [] (bfree dev b s)"
  by (auto simp: bfree_def kdefs Let_def intro!: bal)

lemma balanced_iupdate [bal]: "curproc s = c \<Longrightarrow> locks s = [] \<Longrightarrow> kernel_ok s \<Longrightarrow> balanced c [] (iupdate i s)"
  by (auto simp: iupdate_def kdefs Let_def intro!: bal)

lemma balanced_iget [bal]: "curproc s = c \<Longrightarrow> locks s = L \<Longrightarrow> kernel_ok s \<Longrightarrow> ItableLock \<notin> set L \<Longrightarrow> balanced c L (iget dev inum s)"
  by (auto simp: iget_def intro!: bal split: option.splits)

lemma balanced_ialloc_loop [bal]: "curproc s = c \<Longrightarrow> locks s = [] \<Longrightarrow> kernel_ok s \<Longrightarrow> balanced c [] (ialloc_loop dev ty inums s)"
  by (induction inums arbitrary: s) (auto simp: kdefs Let_def intro!: bal)

lemma balanced_ialloc [bal]: "curproc s = c \<Longrightarrow> locks s = [] \<Longrightarrow> kernel_ok s \<Longrightarrow> balanced c [] (ialloc dev ty s)"
  by (auto simp: ialloc_def intro!: bal)

lemma balanced_idup [bal]: "curproc s = c \<Longrightarrow> locks s = L \<Longrightarrow> kernel_ok s \<Longrightarrow> ItableLock \<notin> set L \<Longrightarrow> balanced c L (idup i s)"
  by (auto simp: idup_def kdefs intro!: bal)

lemma balanced_ilock [bal]: "curproc s = c \<Longrightarrow> locks s = [] \<Longrightarrow> kernel_ok s \<Longrightarrow> balanced c [] (ilock p s)"
  by (auto simp: ilock_def inode_ok_def get_dinode_def kdefs Let_def intro!: bal split: option.splits)

lemma balanced_iunlock [bal]: "curproc s = c \<Longrightarrow> locks s = [] \<Longrightarrow> kernel_ok s \<Longrightarrow> balanced c [] (iunlock p s)"
  by (auto simp: iunlock_def kdefs intro!: bal split: option.splits)

lemma balanced_set_addr [bal]: "curproc s = c \<Longrightarrow> locks s = L \<Longrightarrow> kernel_ok s \<Longrightarrow> balanced c L (set_addr i k a s)"
  by (auto simp: set_addr_def kdefs intro!: bal)

lemma balanced_direct_addr [bal]: "curproc s = c \<Longrightarrow> locks s = [] \<Longrightarrow> kernel_ok s \<Longrightarrow> balanced c [] (direct_addr i k s)"
  by (auto simp: direct_addr_def kdefs Let_def intro!: bal)

lemma balanced_bmap [bal]: "curproc s = c \<Longrightarrow> locks s = [] \<Longrightarrow> kernel_ok s \<Longrightarrow> balanced c [] (bmap i bn s)"
  by (auto simp: bmap_def kdefs Let_def intro!: bal)

lemma balanced_itrunc_direct [bal]: "curproc s = c \<Longrightarrow> locks s = [] \<Longrightarrow> kernel_ok s \<Longrightarrow> balanced c [] (itrunc_direct i k s)"
  by (auto simp: itrunc_direct_def kdefs Let_def intro!: bal)

lemma balanced_itrunc_indirect [bal]: "curproc s = c \<Longrightarrow> locks s = [] \<Longrightarrow> kernel_ok s \<Longrightarrow> balanced c [] (itrunc_indirect i s)"
  by (auto simp: itrunc_indirect_def kdefs Let_def intro!: bal)

lemma balanced_itrunc [bal]: "curproc s = c \<Longrightarrow> locks s = [] \<Longrightarrow> kernel_ok s \<Longrightarrow> balanced c [] (itrunc i s)"
  by (auto simp: itrunc_def kdefs intro!: bal)

text \<open>\<open>iput\<close> gives up \<open>itable.lock\<close> while it frees the inode.\<close>

lemma balanced_iput_free:
  assumes "curproc t = c" and "locks t = [ItableLock]" and "kernel_ok t"
  shows "balanced c [ItableLock] (kthen (krelease ItableLock) (kthen (itrunc i) (kthen (kput (upd_inode i (\<lambda>ip. ip\<lparr>i_type := 0\<rparr>)))
           (kthen (iupdate i) (kthen (kput (upd_inode i (\<lambda>ip. ip\<lparr>i_valid := False\<rparr>)))
             (kthen (releasesleep k) (kacquire ItableLock)))))) t)"
    (is "balanced _ _ (kthen _ ?rest t)")
proof -
  have "balanced c [ItableLock] (?rest (t\<lparr>locks := []\<rparr>))" using assms by (auto simp: kdefs intro!: bal)
  then show ?thesis using assms(2) by simp
qed

lemma balanced_iput [bal]:
  assumes "curproc s = c" and "locks s = []" and "kernel_ok s"
  shows "balanced c [] (iput i s)"
  using assms unfolding iput_def
  by (auto simp: kdefs Let_def intro!: balanced_iput_free balanced_kthen [OF _ balanced_acquiresleep] balanced_kthen [where L = "[]"] balanced_Ret kernel_ok_upd_inode)

lemma balanced_iunlockput [bal]: "curproc s = c \<Longrightarrow> locks s = [] \<Longrightarrow> kernel_ok s \<Longrightarrow> balanced c [] (iunlockput i s)"
  by (auto simp: iunlockput_def intro!: bal)

lemma balanced_ireclaim [bal]: "curproc s = c \<Longrightarrow> locks s = [] \<Longrightarrow> kernel_ok s \<Longrightarrow> balanced c [] (ireclaim dev s)"
  by (auto simp: ireclaim_def ireclaim_one_def kdefs Let_def intro!: bal)

lemma balanced_fsinit [bal]: "curproc s = c \<Longrightarrow> locks s = [] \<Longrightarrow> kernel_ok s \<Longrightarrow> balanced c [] (fsinit dev s)"
  by (auto simp: fsinit_def kdefs intro!: bal)

lemma balanced_stati [bal]: "curproc s = c \<Longrightarrow> locks s = L \<Longrightarrow> kernel_ok s \<Longrightarrow> balanced c L (stati i s)"
  by (auto simp: stati_def kdefs intro!: bal)

lemma balanced_readi_loop [bal]:
  "(\<And>n bs t. curproc t = c \<Longrightarrow> locks t = [] \<Longrightarrow> kernel_ok t \<Longrightarrow> balanced c [] (cp n bs t)) \<Longrightarrow> curproc s = c \<Longrightarrow> locks s = [] \<Longrightarrow> kernel_ok s \<Longrightarrow> balanced c [] (readi_loop cp i off n tot acc s)"
proof (induction cp i off n tot acc arbitrary: s rule: readi_loop.induct)
  case (1 cp i off n tot acc)
  show ?case unfolding readi_loop.simps [of cp i off n tot acc] using 1 by (auto simp: kdefs Let_def intro!: bal)
qed

lemma balanced_readi_with [bal]:
  "(\<And>n bs t. curproc t = c \<Longrightarrow> locks t = [] \<Longrightarrow> kernel_ok t \<Longrightarrow> balanced c [] (cp n bs t)) \<Longrightarrow> curproc s = c \<Longrightarrow> locks s = [] \<Longrightarrow> kernel_ok s \<Longrightarrow> balanced c [] (readi_with cp i off n s)"
  by (auto simp: readi_with_def kdefs Let_def intro!: bal)

lemma balanced_readi [bal]: "curproc s = c \<Longrightarrow> locks s = [] \<Longrightarrow> kernel_ok s \<Longrightarrow> balanced c [] (readi i u dst off n s)"
  by (auto simp: readi_def kdefs intro!: bal)

lemma balanced_readi_local [bal]: "curproc s = c \<Longrightarrow> locks s = [] \<Longrightarrow> kernel_ok s \<Longrightarrow> balanced c [] (readi_local i off n s)"
  by (auto simp: readi_local_def kdefs intro!: bal)

lemma balanced_writei_loop [bal]:
  "(\<And>n m t. curproc t = c \<Longrightarrow> locks t = [] \<Longrightarrow> kernel_ok t \<Longrightarrow> balanced c [] (cp n m t)) \<Longrightarrow> curproc s = c \<Longrightarrow> locks s = [] \<Longrightarrow> kernel_ok s \<Longrightarrow> balanced c [] (writei_loop cp i off n tot s)"
proof (induction cp i off n tot arbitrary: s rule: writei_loop.induct)
  case (1 cp i off n tot)
  show ?case unfolding writei_loop.simps [of cp i off n tot] using 1 by (auto simp: kdefs Let_def intro!: bal)
qed

lemma balanced_writei_with [bal]:
  "(\<And>n m t. curproc t = c \<Longrightarrow> locks t = [] \<Longrightarrow> kernel_ok t \<Longrightarrow> balanced c [] (cp n m t)) \<Longrightarrow> curproc s = c \<Longrightarrow> locks s = [] \<Longrightarrow> kernel_ok s \<Longrightarrow> balanced c [] (writei_with cp i off n s)"
  by (auto simp: writei_with_def kdefs intro!: bal)

lemma balanced_writei [bal]: "curproc s = c \<Longrightarrow> locks s = [] \<Longrightarrow> kernel_ok s \<Longrightarrow> balanced c [] (writei i u src off n s)"
  by (auto simp: writei_def intro!: bal)

lemma balanced_writei_local [bal]: "curproc s = c \<Longrightarrow> locks s = [] \<Longrightarrow> kernel_ok s \<Longrightarrow> balanced c [] (writei_local i bs off s)"
  by (auto simp: writei_local_def kdefs intro!: bal)

lemma balanced_dirlookup_loop [bal]: "curproc s = c \<Longrightarrow> locks s = [] \<Longrightarrow> kernel_ok s \<Longrightarrow> balanced c [] (dirlookup_loop i name offs s)"
  by (induction offs arbitrary: s) (auto simp: kdefs Let_def intro!: bal)

lemma balanced_dirlookup [bal]: "curproc s = c \<Longrightarrow> locks s = [] \<Longrightarrow> kernel_ok s \<Longrightarrow> balanced c [] (dirlookup i name s)"
  by (auto simp: dirlookup_def intro!: bal)

lemma balanced_dirlink_slot [bal]: "curproc s = c \<Longrightarrow> locks s = [] \<Longrightarrow> kernel_ok s \<Longrightarrow> balanced c [] (dirlink_slot i offs e s)"
  by (induction offs arbitrary: s) (auto simp: kdefs intro!: bal)

lemma balanced_dirlink [bal]: "curproc s = c \<Longrightarrow> locks s = [] \<Longrightarrow> kernel_ok s \<Longrightarrow> balanced c [] (dirlink i name inum s)"
  by (auto simp: dirlink_def kdefs Let_def intro!: bal split: option.splits)

lemma balanced_namex_loop [bal]: "curproc s = c \<Longrightarrow> locks s = [] \<Longrightarrow> kernel_ok s \<Longrightarrow> balanced c [] (namex_loop path np i name s)"
proof (induction path arbitrary: s i name rule: length_induct)
  case (1 path)
  then show ?case unfolding namex_loop.simps [of path np i name]
    by (auto simp: kdefs dest!: skipelem_shorter intro!: bal split: option.splits)
qed

lemma balanced_namex [bal]: "curproc s = c \<Longrightarrow> locks s = [] \<Longrightarrow> kernel_ok s \<Longrightarrow> balanced c [] (namex path np s)"
  by (auto simp: namex_def intro!: bal split: option.splits)

lemma balanced_namei [bal]: "curproc s = c \<Longrightarrow> locks s = [] \<Longrightarrow> kernel_ok s \<Longrightarrow> balanced c [] (namei path s)"
  by (auto simp: namei_def kdefs intro!: bal)

lemma balanced_nameiparent [bal]: "curproc s = c \<Longrightarrow> locks s = [] \<Longrightarrow> kernel_ok s \<Longrightarrow> balanced c [] (nameiparent path s)"
  by (auto simp: nameiparent_def intro!: bal)

section \<open>Valid results\<close>

text \<open>A routine that returns an inode returns an index of the inode table.\<close>

lemma balanced_RetD: "r = Ret x t \<Longrightarrow> balanced c L r \<Longrightarrow> curproc t = c \<and> locks t = L \<and> kernel_ok t"
  by (simp add: balanced_def)

lemma myproc_val [vals]: "myproc s = Ret p t \<Longrightarrow> kernel_ok s \<Longrightarrow> p < NPROC"
  by (auto simp: myproc_def kernel_ok_def simp del: kernel_ok_ptrs split: option.splits)

lemma critical_RetD:
  "critical l m s = Ret x t \<Longrightarrow> \<exists>u. m (s\<lparr>locks := l # locks s\<rparr>) = Ret x u"
  by (auto simp: critical_def kthen_Ret_iff kbind_Ret_iff kacquire_def kdefs split: if_splits)

lemma find_upt_less: "find P [0..<n] = Some i \<Longrightarrow> i < n"
  by (auto simp: find_Some_iff)

lemma iget_val [vals]: "iget dev inum s = Ret i t \<Longrightarrow> kernel_ok s \<Longrightarrow> i < NINODE"
  unfolding iget_def
  by (auto dest!: critical_RetD find_upt_less simp: iget_match_def iget_empty_def kernel_ok_def simp del: kernel_ok_ptrs split: option.splits)

lemma idup_val [vals]: "idup i s = Ret j t \<Longrightarrow> j = i"
  unfolding idup_def by (auto dest!: critical_RetD simp: kdefs)

lemma dirlookup_loop_val:
  "dirlookup_loop i name offs s = Ret (Some (ip, off)) t \<Longrightarrow> kernel_ok s \<Longrightarrow> locks s = [] \<Longrightarrow> ip < NINODE"
proof (induction offs arbitrary: s)
  case (Cons o' offs)
  obtain r bs u where r: "readi_local i (of_nat o') (of_nat DIRENT_SIZE) s = Ret (r, bs) u"
    using Cons.prems(1) by (auto simp: kbind_Ret_iff)
  have u: "locks u = [] \<and> kernel_ok u"
    using balanced_RetD [OF r balanced_readi_local [OF refl Cons.prems(3,2)]] by simp
  show ?case using Cons.prems(1) r u Cons.IH
    by (auto simp: Let_def kdefs kbind_Ret_iff split: if_splits dest: vals)
qed (simp add: kdefs)

lemma dirlookup_val [vals]: "dirlookup i name s = Ret (Some (ip, off)) t \<Longrightarrow> kernel_ok s \<Longrightarrow> locks s = [] \<Longrightarrow> ip < NINODE"
  by (auto simp: dirlookup_def split: if_splits dest: dirlookup_loop_val)

lemma ialloc_loop_val:
  "ialloc_loop dev ty inums s = Ret (Some ip) t \<Longrightarrow> kernel_ok s \<Longrightarrow> locks s = [] \<Longrightarrow> ip < NINODE"
proof (induction inums arbitrary: s)
  case (Cons n inums)
  obtain bp u where bp: "bread dev (IBLOCK (of_nat n) (fs_sb s)) s = Ret bp u"
    using Cons.prems(1) by (auto simp: kbind_Ret_iff)
  have u: "locks u = [] \<and> kernel_ok u" using balanced_RetD [OF bp balanced_bread [OF refl Cons.prems(3,2)]] by simp
  let ?o = "dinode_off (of_nat n)" and ?d = "b_data (bufs u ! bp)"
  show ?case
  proof (cases "d_type (get_dinode ?o ?d) = 0")
    case True
    let ?m = "kthen (set_data bp (put_dinode ?o (new_dinode ty) ?d)) (kthen (log_write bp) (brelse bp))"
    obtain v where v: "?m u = Ret () v" "\<exists>w. iget dev (of_nat n) v = Ret ip w"
      using Cons.prems(1) bp True by (auto simp: Let_def get_data_def kthen_Ret_iff kbind_Ret_iff kdefs)
    have "balanced (curproc u) [] (?m u)" using u by (auto intro!: bal)
    then have "kernel_ok v" using balanced_RetD [OF v(1)] by blast
    then show ?thesis using v(2) by (auto dest: vals)
  next
    case False
    then obtain v where v: "brelse bp u = Ret () v" "ialloc_loop dev ty inums v = Ret (Some ip) t"
      using Cons.prems(1) bp by (auto simp: Let_def get_data_def kthen_Ret_iff kbind_Ret_iff kdefs)
    then show ?thesis using Cons.IH balanced_RetD [OF v(1) balanced_brelse [OF refl]] u by blast
  qed
qed (simp add: kthen_Ret_iff kdefs)

lemma ialloc_val [vals]: "ialloc dev ty s = Ret (Some ip) t \<Longrightarrow> kernel_ok s \<Longrightarrow> locks s = [] \<Longrightarrow> ip < NINODE"
  by (auto simp: ialloc_def dest: ialloc_loop_val)

lemma namex_loop_val:
  "namex_loop path np i name s = Ret (Some j, nm) t \<Longrightarrow> kernel_ok s \<Longrightarrow> locks s = [] \<Longrightarrow> i < NINODE \<Longrightarrow> j < NINODE"
proof (induction path arbitrary: s i name rule: length_induct)
  case (1 path)
  show ?case
  proof (cases "skipelem path")
    case None
    then show ?thesis using 1(2,5) by (auto simp: namex_loop.simps [of path] kdefs kthen_Ret_iff split: if_splits)
  next
    case (Some e)
    obtain nm' rest where e: "e = (nm', rest)" by (cases e)
    obtain u where u: "ilock (Some i) s = Ret () u"
      using 1(2) Some e by (auto simp: namex_loop.simps [of path] kthen_Ret_iff)
    have u': "locks u = [] \<and> kernel_ok u" using balanced_RetD [OF u balanced_ilock [OF refl 1(4,3)]] by simp
    consider "j = i" | n off v w where "dirlookup i nm' u = Ret (Some (n, off)) v" "iunlockput i v = Ret () w"
        "namex_loop rest np n nm' w = Ret (Some j, nm) t"
      using 1(2) Some e u
      by (auto simp: namex_loop.simps [of path] kthen_Ret_iff kbind_Ret_iff kdefs split: if_splits option.splits)
    then show ?thesis
    proof cases
      case 2
      have v: "locks v = [] \<and> kernel_ok v" using balanced_RetD [OF 2(1) balanced_dirlookup [OF refl]] u' by blast
      have w: "locks w = [] \<and> kernel_ok w" using balanced_RetD [OF 2(2) balanced_iunlockput [OF refl]] v by blast
      have "n < NINODE" using 2(1) u' by (auto dest: vals)
      then show ?thesis using 1(1) 2(3) w skipelem_shorter [of path nm' rest] Some e by auto
    qed (use 1(5) in simp)
  qed
qed

lemma namex_start_val:
  assumes "kbind myproc (\<lambda>p s. case p_cwd (procs s ! p) of None \<Rightarrow> Panic ''null pointer'' | Some i \<Rightarrow> idup i s) s = Ret i t" and "kernel_ok s"
  shows "i < NINODE"
proof -
  obtain p where p: "myproc s = Ret p s" "p < NPROC" using assms(1) kernel_ok_ptrs(2) [OF assms(2)]
    by (auto simp: kbind_Ret_iff myproc_def split: option.splits)
  then have "ptr_ok NINODE (p_cwd (procs s ! p))" using kernel_ok_proc [OF assms(2)] by (simp add: proc_ok_def)
  then show ?thesis using assms(1) p by (auto split: option.splits dest: vals)
qed

lemma namex_val [vals]:
  assumes "namex path np s = Ret (Some j, nm) t" and "kernel_ok s" and "locks s = []"
  shows "j < NINODE"
proof -
  let ?m = "if path \<noteq> [] \<and> hd path = SLASH then iget ROOTDEV ROOTINO
            else kbind myproc (\<lambda>p s. case p_cwd (procs s ! p) of None \<Rightarrow> Panic ''null pointer'' | Some i \<Rightarrow> idup i s)"
  obtain i u where i: "?m s = Ret i u" "namex_loop path np i [] u = Ret (Some j, nm) t"
    using assms(1) unfolding namex_def kbind_Ret_iff by blast
  have "balanced (curproc s) [] (?m s)" using assms by (auto intro!: bal split: option.splits)
  then have u: "kernel_ok u" "locks u = []" using balanced_RetD [OF i(1)] by blast+
  have "i < NINODE" using i(1) assms(2) by (auto split: if_splits dest: vals namex_start_val)
  then show ?thesis using namex_loop_val [OF i(2)] u by blast
qed

lemma namei_val [vals]: "namei path s = Ret (Some j) t \<Longrightarrow> kernel_ok s \<Longrightarrow> locks s = [] \<Longrightarrow> j < NINODE"
  by (auto simp: namei_def kbind_Ret_iff kdefs dest: vals)

lemma nameiparent_val [vals]: "nameiparent path s = Ret (Some j, nm) t \<Longrightarrow> kernel_ok s \<Longrightarrow> locks s = [] \<Longrightarrow> j < NINODE"
  by (auto simp: nameiparent_def dest: vals)

end
