(* ===== verification/Locksys.thy ===== *)
theory Locksys
  imports Locking
begin

text \<open>
  Lock discipline of files, processes, system calls and traps, with the calculus
  of the theory \<open>Locking\<close>.  The property at the end covers every system call.
\<close>


section \<open>Pipes and files\<close>

lemma upd_file_fields [simp]:
  "locks (upd_file i f s) = locks s" "curproc (upd_file i f s) = curproc s"
  "locks (upd_pipe q g s) = locks s" "curproc (upd_pipe q g s) = curproc s"
  by (simp_all add: upd_file_def upd_pipe_def)

lemma pipe_data_length [simp]:
  "length (data (peterson_request me q)) = length (data q)" "length (data (peterson_exit me q)) = length (data q)"
  "length (data (put_byte k b q)) = length (data q)" "length (data (pipe_init d)) = length d"
  by (simp_all add: pipe_init_def peterson_request_def peterson_exit_def put_byte_def set_want_def)

lemma kernel_ok_pipe_ops [simp]:
  "kernel_ok s \<Longrightarrow> kernel_ok (upd_pipe q (peterson_exit me) s)"
  "kernel_ok s \<Longrightarrow> kernel_ok (upd_pipe q (\<lambda>x. (put_byte (nwrite x) b x)\<lparr>nwrite := nwrite x + 1\<rparr>) s)"
  "kernel_ok s \<Longrightarrow> kernel_ok (upd_pipe q (\<lambda>x. x\<lparr>nread := nread x + 1\<rparr>) s)"
  by (auto intro!: kernel_ok_upd_pipe)

lemma get_bytes_length [simp]: "length (get_bytes a n m) = n"
  by (simp add: get_bytes_def)

lemma file_ok_fields [simp]:
  "file_ok (f\<lparr>f_ref := r\<rparr>) = file_ok f" "file_ok (f\<lparr>f_off := o'\<rparr>) = file_ok f"
  "file_ok f \<Longrightarrow> file_ok (f\<lparr>f_ref := r, f_type := FD_NONE\<rparr>)"
  "file_ok f \<Longrightarrow> file_ok (f\<lparr>f_type := FD_PIPE, f_readable := a, f_writable := b, f_pipe := q\<rparr>)"
  by (simp_all add: file_ok_def)

lemma balanced_deref [bal]: "curproc s = c \<Longrightarrow> locks s = L \<Longrightarrow> kernel_ok s \<Longrightarrow> balanced c L (deref p s)"
  by (auto simp: deref_def kdefs intro!: bal split: option.splits)

lemma balanced_pipeclose [bal]:
  assumes "curproc s = c" and "locks s = []" and "kernel_ok s"
  shows "balanced c [] (pipeclose q w s)"
  using assms unfolding pipeclose_def
  by (auto simp: kdefs intro!: balanced_kthen [where L = "[]"] balanced_wakeup balanced_Ret balanced_kfree kernel_ok_upd_pipe)

lemma balanced_peterson_enter [bal]: "curproc s = c \<Longrightarrow> locks s = [] \<Longrightarrow> kernel_ok s \<Longrightarrow> balanced c [] (peterson_enter q me s)"
  by (auto simp: peterson_enter_def kdefs intro!: bal)

lemma balanced_pipewrite_loop [bal]:
  "curproc s = c \<Longrightarrow> locks s = [] \<Longrightarrow> kernel_ok s \<Longrightarrow> balanced c [] (pipewrite_loop pr q addr i n s)"
  by (induction n arbitrary: s i) (auto simp: kdefs intro!: bal)

lemma balanced_pipewrite [bal]: "curproc s = c \<Longrightarrow> locks s = [] \<Longrightarrow> kernel_ok s \<Longrightarrow> balanced c [] (pipewrite q addr n s)"
  by (auto simp: pipewrite_def intro!: bal)

lemma balanced_piperead_loop [bal]:
  "curproc s = c \<Longrightarrow> locks s = [] \<Longrightarrow> kernel_ok s \<Longrightarrow> balanced c [] (piperead_loop pr q addr i n s)"
  by (induction n arbitrary: s i) (auto simp: kdefs Let_def intro!: bal)

lemma balanced_piperead [bal]: "curproc s = c \<Longrightarrow> locks s = [] \<Longrightarrow> kernel_ok s \<Longrightarrow> balanced c [] (piperead q addr n s)"
  by (auto simp: piperead_def intro!: bal)

lemma balanced_filealloc [bal]: "curproc s = c \<Longrightarrow> locks s = [] \<Longrightarrow> kernel_ok s \<Longrightarrow> balanced c [] (filealloc s)"
  by (auto simp: filealloc_def intro!: bal split: option.splits)

lemma balanced_filedup [bal]: "curproc s = c \<Longrightarrow> locks s = L \<Longrightarrow> kernel_ok s \<Longrightarrow> FtableLock \<notin> set L \<Longrightarrow> balanced c L (filedup i s)"
  by (auto simp: filedup_def intro!: bal)

lemma balanced_fileclose [bal]: "curproc s = c \<Longrightarrow> locks s = [] \<Longrightarrow> kernel_ok s \<Longrightarrow> balanced c [] (fileclose i s)"
  by (auto simp: fileclose_def kdefs Let_def intro!: bal split: option.splits)

lemma balanced_filestat [bal]: "curproc s = c \<Longrightarrow> locks s = [] \<Longrightarrow> kernel_ok s \<Longrightarrow> balanced c [] (filestat pad i addr s)"
  by (auto simp: filestat_def kdefs Let_def intro!: bal)

lemma balanced_advance [bal]: "curproc s = c \<Longrightarrow> locks s = L \<Longrightarrow> kernel_ok s \<Longrightarrow> balanced c L (advance i r s)"
  by (auto simp: advance_def kdefs intro!: bal)

lemma balanced_fileread [bal]: "curproc s = c \<Longrightarrow> locks s = [] \<Longrightarrow> kernel_ok s \<Longrightarrow> balanced c [] (fileread i addr n s)"
  by (auto simp: fileread_def devsw_read_def kdefs Let_def intro!: bal split: option.splits ftype.splits)

lemma balanced_filewrite_loop [bal]:
  fixes s :: "'z life_st_scheme"
  shows "curproc s = c \<Longrightarrow> locks s = [] \<Longrightarrow> kernel_ok s \<Longrightarrow> balanced c [] (filewrite_loop i fip addr n k s)"
proof (induction "n - k" arbitrary: s k rule: less_induct)
  case less
  have "n - (k + min (n - k) WRITE_MAX) < n - k" if "k < n" using that WRITE_MAX_pos by (auto simp: min_def)
  then have IH: "balanced c [] (filewrite_loop i fip addr n (k + min (n - k) WRITE_MAX) t)"
    if "k < n" "curproc t = c" "locks t = []" "kernel_ok t" for t :: "'z life_st_scheme" using less.hyps that by blast
  show ?case unfolding filewrite_loop.simps [of i fip addr n k]
    using less.prems IH by (auto simp: kdefs Let_def intro!: bal)
qed

lemma balanced_filewrite [bal]: "curproc s = c \<Longrightarrow> locks s = [] \<Longrightarrow> kernel_ok s \<Longrightarrow> balanced c [] (filewrite i addr n s)"
  by (auto simp: filewrite_def devsw_write_def kdefs Let_def intro!: bal split: option.splits ftype.splits)

lemma balanced_pipe_bad [bal]: "curproc s = c \<Longrightarrow> locks s = [] \<Longrightarrow> kernel_ok s \<Longrightarrow> balanced c [] (pipe_bad f0 f1 s)"
  by (auto simp: pipe_bad_def close_opt_def kdefs intro!: bal split: option.splits)

lemma balanced_pipe_end [bal]: "curproc s = c \<Longrightarrow> locks s = L \<Longrightarrow> kernel_ok s \<Longrightarrow> balanced c L (pipe_end i w q s)"
  by (auto simp: pipe_end_def kdefs intro!: bal)

lemma balanced_pipealloc [bal]: "curproc s = c \<Longrightarrow> locks s = [] \<Longrightarrow> kernel_ok s \<Longrightarrow> balanced c [] (pipealloc s)"
  by (auto simp: pipealloc_def kdefs intro!: bal split: option.splits)

section \<open>Processes\<close>

lemma balanced_tf [bal]:
  "curproc s = c \<Longrightarrow> locks s = L \<Longrightarrow> kernel_ok s \<Longrightarrow> balanced c L (set_tf p off v s)"
  "curproc s = c \<Longrightarrow> locks s = L \<Longrightarrow> kernel_ok s \<Longrightarrow> balanced c L (get_tf p off s)"
  by (auto simp: set_tf_def get_tf_def kdefs intro!: bal)

lemma balanced_proc_pagetable [bal]:
  "curproc s = c \<Longrightarrow> locks s = L \<Longrightarrow> kernel_ok s \<Longrightarrow> KmemLock \<notin> set L \<Longrightarrow> balanced c L (proc_pagetable p s)"
  by (auto simp: proc_pagetable_def kdefs intro!: bal)

lemma balanced_proc_freepagetable [bal]:
  "curproc s = c \<Longrightarrow> locks s = L \<Longrightarrow> kernel_ok s \<Longrightarrow> KmemLock \<notin> set L \<Longrightarrow> balanced c L (proc_freepagetable pt sz s)"
  by (auto simp: proc_freepagetable_def intro!: bal)

lemma balanced_freeproc [bal]:
  "curproc s = c \<Longrightarrow> locks s = L \<Longrightarrow> kernel_ok s \<Longrightarrow> KmemLock \<notin> set L \<Longrightarrow> balanced c L (freeproc i s)"
  by (auto simp: freeproc_def kdefs intro!: bal)

text \<open>A routine that returns a slot of the process table with its lock held.\<close>

definition grants :: "nat option \<Rightarrow> (nat option, 'z life_st_scheme) outcome \<Rightarrow> bool" where
  "grants c r = (case r of
     Ret None t \<Rightarrow> curproc t = c \<and> locks t = [] \<and> kernel_ok t
   | Ret (Some i) t \<Rightarrow> curproc t = c \<and> locks t = [ProcLock i] \<and> kernel_ok t
   | Panic e \<Rightarrow> e \<notin> lock_panics
   | Sleep t \<Rightarrow> kernel_ok t \<and> (panicked t \<or> (\<exists>p. c = Some p \<and> curproc t = c \<and> locks t = [ProcLock p])))"

lemma grants_simps [simp]:
  "grants c (Ret None t) \<longleftrightarrow> curproc t = c \<and> locks t = [] \<and> kernel_ok t"
  "grants c (Ret (Some i) t) \<longleftrightarrow> curproc t = c \<and> locks t = [ProcLock i] \<and> kernel_ok t"
  "grants c (Panic e) \<longleftrightarrow> e \<notin> lock_panics"
  "grants c (Sleep t) \<longleftrightarrow> kernel_ok t \<and> (panicked t \<or> (\<exists>p. c = Some p \<and> curproc t = c \<and> locks t = [ProcLock p]))"
  by (simp_all add: grants_def)

lemma grants_kbind:
  "curproc s = c \<Longrightarrow> balanced c (locks s) (m s) \<Longrightarrow> (\<And>x t. m s = Ret x t \<Longrightarrow> curproc t = c \<Longrightarrow> locks t = locks s \<Longrightarrow> kernel_ok t \<Longrightarrow> grants c (f x t))
   \<Longrightarrow> grants c (kbind m f s)"
  by (cases "m s") (auto simp: balanced_def grants_def)

lemma grants_use:
  "grants c (m s) \<Longrightarrow> (\<And>t. curproc t = c \<Longrightarrow> locks t = [] \<Longrightarrow> kernel_ok t \<Longrightarrow> balanced c L (f None t))
   \<Longrightarrow> (\<And>i t. curproc t = c \<Longrightarrow> locks t = [ProcLock i] \<Longrightarrow> kernel_ok t \<Longrightarrow> balanced c L (f (Some i) t)) \<Longrightarrow> balanced c L (kbind m f s)"
  by (cases "m s") (auto simp: balanced_def grants_def split: option.splits)

lemma grants_chain:
  "grants c (m s) \<Longrightarrow> (\<And>t. curproc t = c \<Longrightarrow> locks t = [] \<Longrightarrow> kernel_ok t \<Longrightarrow> grants c (f None t))
   \<Longrightarrow> (\<And>i t. curproc t = c \<Longrightarrow> locks t = [ProcLock i] \<Longrightarrow> kernel_ok t \<Longrightarrow> grants c (f (Some i) t)) \<Longrightarrow> grants c (kbind m f s)"
proof (cases "m s")
  case (Ret x t)
  moreover assume "grants c (m s)" and "\<And>t. curproc t = c \<Longrightarrow> locks t = [] \<Longrightarrow> kernel_ok t \<Longrightarrow> grants c (f None t)"
    and "\<And>i t. curproc t = c \<Longrightarrow> locks t = [ProcLock i] \<Longrightarrow> kernel_ok t \<Longrightarrow> grants c (f (Some i) t)"
  ultimately show ?thesis by (cases x) simp_all
qed simp_all

lemma grants_find: "curproc s = c \<Longrightarrow> locks s = [] \<Longrightarrow> kernel_ok s \<Longrightarrow> grants c (allocproc_find is s)"
  by (induction "is" arbitrary: s) (auto simp: kdefs grants_def)

lemma grants_failed: "curproc s = c \<Longrightarrow> locks s = [ProcLock i] \<Longrightarrow> kernel_ok s \<Longrightarrow> grants c (alloc_failed i s)"
proof -
  assume s: "curproc s = c" "locks s = [ProcLock i]" "kernel_ok s"
  have "grants c (kthen (krelease (ProcLock i)) (kret None) t)" if "curproc t = c" "locks t = [ProcLock i]" "kernel_ok t" for t
    using that by (simp add: kdefs)
  then show ?thesis unfolding alloc_failed_def kthen_def [of "freeproc i"] using s
    by (intro grants_kbind) (auto simp: kdefs intro!: bal)
qed

lemma grants_allocproc: 
  assumes "curproc s = c" and "locks s = []" and "kernel_ok s"
  shows "grants c (allocproc s)"
  unfolding allocproc_def
proof (rule grants_chain [OF grants_find], rule assms(1), rule assms(2), rule assms(3))
  fix i and t :: "'a life_st_scheme"
  assume t: "curproc t = c" "locks t = [ProcLock i]" "kernel_ok t"
  show "grants c ((case Some i of None \<Rightarrow> kret None | Some i \<Rightarrow>
       kbind allocpid (\<lambda>pid.
         kthen (kput (upd_proc i (found_proc pid)))
           (kbind kalloc (\<lambda>tf.
              kthen (kput (upd_proc i (\<lambda>p. p\<lparr>p_trapframe := tf\<rparr>)))
                (if tf = 0 then alloc_failed i
                 else kbind (proc_pagetable i) (\<lambda>pt.
                   kthen (kput (upd_proc i (\<lambda>p. p\<lparr>p_pagetable := pt\<rparr>)))
                     (if pt = 0 then alloc_failed i
                      else kthen (kput (\<lambda>s. upd_proc i (\<lambda>p. p\<lparr>p_context := \<lparr>c_ra = sym_forkret (ksyms s),
                                    c_sp = p_kstack p + PGSIZE, c_s = replicate 12 0\<rparr>\<rparr>) s))
                             (kret (Some i)))))))) ) t)"
    using t by (auto simp: kdefs intro!: grants_kbind bal grants_failed)
qed (simp add: kdefs grants_def)

lemma balanced_growproc [bal]: "curproc s = c \<Longrightarrow> locks s = [] \<Longrightarrow> kernel_ok s \<Longrightarrow> balanced c [] (growproc n s)"
  by (auto simp: growproc_def kdefs Let_def intro!: bal)

lemma ofile_val: "p_ofile (procs s ! p) ! i = Some f \<Longrightarrow> kernel_ok s \<Longrightarrow> p < NPROC \<Longrightarrow> i < NOFILE \<Longrightarrow> f < NFILE"
  using ofile_ok_nth [of "p_ofile (procs s ! p)" i] kernel_ok_proc [of s p] by (simp add: proc_ok_def)

lemma cwd_val: "p_cwd (procs s ! p) = Some i \<Longrightarrow> kernel_ok s \<Longrightarrow> p < NPROC \<Longrightarrow> i < NINODE"
  using kernel_ok_proc [of s p] by (simp add: proc_ok_def)

lemma filedup_val [vals]: "filedup i s = Ret j t \<Longrightarrow> j = i"
  unfolding filedup_def by (auto dest!: critical_RetD split: if_splits)

lemma proc_ok_name [simp]: "proc_ok p \<Longrightarrow> proc_ok (p\<lparr>p_name := copy_name (p_name p) x\<rparr>)"
  by (auto simp: proc_ok_def copy_name_def Let_def)

lemma balanced_fork_files [bal]:
  "curproc s = c \<Longrightarrow> locks s = L \<Longrightarrow> kernel_ok s \<Longrightarrow> FtableLock \<notin> set L \<Longrightarrow> p < NPROC \<Longrightarrow> balanced c L (fork_files p np s)"
  by (auto simp: fork_files_def kdefs intro!: bal split: option.splits dest!: vals ofile_val)

lemma balanced_fork_failed:
  assumes "curproc t = c" and "locks t = [ProcLock np]" and "kernel_ok t"
  shows "balanced c [] (kthen (freeproc np) (kthen (krelease (ProcLock np)) (kret (- 1))) t)"
  using assms by (auto simp: kdefs intro!: balanced_kthen [OF _ balanced_freeproc] balanced_Ret)

lemma balanced_fork_cwd:
  "curproc t = c \<Longrightarrow> locks t = [ProcLock np] \<Longrightarrow> kernel_ok t \<Longrightarrow> p < NPROC \<Longrightarrow>
   balanced c [ProcLock np] (kbind (kbind (deref (p_cwd (procs t ! p))) idup) (\<lambda>ip. kput (upd_proc np (\<lambda>q. q\<lparr>p_cwd := Some ip\<rparr>))) t)"
  by (auto simp: kdefs kbind_Ret_iff deref_def intro!: bal split: option.splits dest!: vals cwd_val)

lemma balanced_kfork [bal]:
  assumes "curproc s = c" and "locks s = []" and "kernel_ok s"
  shows "balanced c [] (kfork s)"
proof (cases c)
  case (Some p)
  have my: "myproc s = Ret p s" and p: "p < NPROC" using assms Some kernel_ok_ptrs(2) [OF assms(3)] by (auto simp: myproc_def)
  show ?thesis unfolding kfork_def kbind_simps(1) [of myproc, OF my]
    by (rule grants_use, rule grants_allocproc, rule assms, rule assms, rule assms)
      (use p in \<open>auto simp: kdefs Let_def intro!: balanced_fork_failed balanced_kbind [OF _ balanced_uvmcopy]
        balanced_kthen [OF _ balanced_tf(1)] balanced_kthen [OF _ balanced_fork_files] balanced_kthen [OF _ balanced_critical]
        balanced_kthen [where m = "\<lambda>s. kbind (kbind (deref (p_cwd (procs s ! q))) idup) g s" for q g] balanced_fork_cwd
        balanced_critical kernel_ok_upd_proc balanced_Ret\<close>)
qed (use assms in \<open>simp add: kfork_def myproc_def balanced_def\<close>)

lemma balanced_exit_files [bal]: "curproc s = c \<Longrightarrow> locks s = [] \<Longrightarrow> kernel_ok s \<Longrightarrow> balanced c [] (exit_files p s)"
  by (auto simp: exit_files_def kdefs intro!: bal split: option.splits)

lemma balanced_zombie:
  "curproc t = Some p \<Longrightarrow> locks t = [ProcLock p] \<Longrightarrow> kernel_ok t \<Longrightarrow> balanced (Some p) L (kthen sched (kpanic ''zombie exit'') t)"
  by (auto simp: sched_def myproc_def kholding_def kthen_def kbind_def kdefs balanced_def)

lemma balanced_exit_zombie: "curproc s = Some p \<Longrightarrow> locks s = [] \<Longrightarrow> kernel_ok s \<Longrightarrow> balanced (Some p) [] (exit_zombie p status s)"
proof -
  assume s: "curproc s = Some p" "locks s = []" "kernel_ok s"
  show ?thesis using s unfolding exit_zombie_def
    by (auto simp: kdefs intro!: balanced_kthen [OF _ balanced_reparent] balanced_kthen [OF _ balanced_wakeup] balanced_zombie kernel_ok_upd_proc)
qed

lemma balanced_kexit [bal]: "curproc s = c \<Longrightarrow> locks s = [] \<Longrightarrow> kernel_ok s \<Longrightarrow> balanced c [] (kexit status s)"
proof (cases c)
  case (Some p)
  assume "curproc s = c" "locks s = []" "kernel_ok s"
  then show ?thesis using Some unfolding kexit_def
    by (auto simp: kdefs myproc_def intro!: bal balanced_exit_zombie)
qed (simp add: kexit_def myproc_def balanced_def)

text \<open>The scan of \<open>kwait\<close>, which releases both locks when it has a result.\<close>

definition scanned :: "nat option \<Rightarrow> (int + bool, 'z life_st_scheme) outcome \<Rightarrow> bool" where
  "scanned c r = (case r of
     Ret (Inl v) t \<Rightarrow> curproc t = c \<and> locks t = [] \<and> kernel_ok t
   | Ret (Inr b) t \<Rightarrow> curproc t = c \<and> locks t = [WaitLock] \<and> kernel_ok t
   | Panic e \<Rightarrow> e \<notin> lock_panics
   | Sleep t \<Rightarrow> kernel_ok t \<and> (panicked t \<or> (\<exists>p. c = Some p \<and> curproc t = c \<and> locks t = [ProcLock p])))"

lemma scanned_simps [simp]:
  "scanned c (Ret (Inl v) t) \<longleftrightarrow> curproc t = c \<and> locks t = [] \<and> kernel_ok t"
  "scanned c (Ret (Inr b) t) \<longleftrightarrow> curproc t = c \<and> locks t = [WaitLock] \<and> kernel_ok t"
  "scanned c (Panic e) \<longleftrightarrow> e \<notin> lock_panics"
  "scanned c (Sleep t) \<longleftrightarrow> kernel_ok t \<and> (panicked t \<or> (\<exists>p. c = Some p \<and> curproc t = c \<and> locks t = [ProcLock p]))"
  by (simp_all add: scanned_def)

lemma scanned_kbind:
  "curproc s = c \<Longrightarrow> balanced c (locks s) (m s) \<Longrightarrow> (\<And>x t. m s = Ret x t \<Longrightarrow> curproc t = c \<Longrightarrow> locks t = locks s \<Longrightarrow> kernel_ok t \<Longrightarrow> scanned c (f x t))
   \<Longrightarrow> scanned c (kbind m f s)"
  by (cases "m s") (auto simp: balanced_def)

lemma scanned_kthen:
  "curproc s = c \<Longrightarrow> balanced c (locks s) (m s) \<Longrightarrow> (\<And>t. curproc t = c \<Longrightarrow> locks t = locks s \<Longrightarrow> kernel_ok t \<Longrightarrow> scanned c (n t))
   \<Longrightarrow> scanned c (kthen m n s)"
  unfolding kthen_def by (rule scanned_kbind)

lemma scanned_kwait_scan: "curproc s = c \<Longrightarrow> locks s = [WaitLock] \<Longrightarrow> kernel_ok s \<Longrightarrow> scanned c (kwait_scan p addr kids b s)"
proof (induction kids arbitrary: s b)
  case (Cons kid kids)
  then show ?case
    by (auto simp: kdefs Let_def intro!: scanned_kthen [OF _ balanced_printf] scanned_kthen [OF _ balanced_freeproc] scanned_kbind
        balanced_copyout balanced_Ret)
qed (simp add: kdefs)

lemma scanned_use:
  "scanned c (m s) \<Longrightarrow> (\<And>v t. curproc t = c \<Longrightarrow> locks t = [] \<Longrightarrow> kernel_ok t \<Longrightarrow> balanced c L (f (Inl v) t))
   \<Longrightarrow> (\<And>b t. curproc t = c \<Longrightarrow> locks t = [WaitLock] \<Longrightarrow> kernel_ok t \<Longrightarrow> balanced c L (f (Inr b) t)) \<Longrightarrow> balanced c L (kbind m f s)"
proof (cases "m s")
  case (Ret x t)
  moreover assume "scanned c (m s)" and "\<And>v t. curproc t = c \<Longrightarrow> locks t = [] \<Longrightarrow> kernel_ok t \<Longrightarrow> balanced c L (f (Inl v) t)"
    and "\<And>b t. curproc t = c \<Longrightarrow> locks t = [WaitLock] \<Longrightarrow> kernel_ok t \<Longrightarrow> balanced c L (f (Inr b) t)"
  ultimately show ?thesis by (cases x) simp_all
qed (simp_all add: balanced_def)

lemma balanced_sleep_kthen:
  assumes "curproc s = c" and "locks s = l # L" and "kernel_ok s" and "no_proclock (l # L)"
  shows "balanced c L' (kthen (sleep ch l) n s)"
proof (cases "sleep ch l s")
  case (Ret x t)
  then show ?thesis using assms
    by (auto simp: sleep_def sched_def myproc_def kthen_Ret_iff kbind_Ret_iff split: option.splits if_splits)
next
  case (Sleep t)
  then show ?thesis using balanced_sleep [OF assms, of L' ch] by (simp add: balanced_def)
next
  case (Panic e)
  then show ?thesis using balanced_sleep [OF assms, of L' ch] by (simp add: balanced_def)
qed

lemma balanced_kwait [bal]:
  assumes "curproc s = c" and "locks s = []" and "kernel_ok s"
  shows "balanced c [] (kwait addr s)"
proof (cases c)
  case (Some p)
  have "balanced c [] (kbind (kwait_scan p addr [0..<n] False) (\<lambda>r.
       case r of Inl v \<Rightarrow> kret v | Inr havekids \<Rightarrow>
         kbind (if \<not> havekids then kret True else kbind (killed p) (\<lambda>k. kret (k \<noteq> 0))) (\<lambda>stop.
           if stop then kthen (krelease WaitLock) (kret (- 1)) else kthen (sleep (ChProc p) WaitLock) (kret 0))) t)"
    if "curproc t = c" "locks t = [WaitLock]" "kernel_ok t" for t :: "'a life_st_scheme" and n
  proof (rule scanned_use, rule scanned_kwait_scan, rule that, rule that, rule that)
    fix b and u :: "'a life_st_scheme"
    assume "curproc u = c" "locks u = [WaitLock]" "kernel_ok u"
    then show "balanced c [] ((case Inr b of Inl v \<Rightarrow> kret v | Inr havekids \<Rightarrow>
         kbind (if \<not> havekids then kret True else kbind (killed p) (\<lambda>k. kret (k \<noteq> 0))) (\<lambda>stop.
           if stop then kthen (krelease WaitLock) (kret (- 1)) else kthen (sleep (ChProc p) WaitLock) (kret 0))) u)"
      by (cases b) (auto simp: kdefs intro!: balanced_kbind [OF _ balanced_kbind [OF _ balanced_killed]] balanced_sleep_kthen balanced_Ret)
  qed (simp add: kdefs balanced_Ret)
  then show ?thesis using assms Some by (simp add: kwait_def myproc_def)
qed (use assms in \<open>simp add: kwait_def myproc_def balanced_def\<close>)

section \<open>exec\<close>

lemma balanced_loadseg_loop [bal]:
  "curproc s = c \<Longrightarrow> locks s = [] \<Longrightarrow> kernel_ok s \<Longrightarrow> balanced c [] (loadseg_loop pt va ip off sz is s)"
  by (induction "is" arbitrary: s) (auto simp: kdefs Let_def intro!: bal)

lemma balanced_loadseg [bal]: "curproc s = c \<Longrightarrow> locks s = [] \<Longrightarrow> kernel_ok s \<Longrightarrow> balanced c [] (loadseg pt va ip off sz s)"
  by (auto simp: loadseg_def intro!: bal)

lemma balanced_load_segments [bal]:
  "curproc s = c \<Longrightarrow> locks s = [] \<Longrightarrow> kernel_ok s \<Longrightarrow> balanced c [] (load_segments pt ip n off sz s)"
  by (induction n arbitrary: s off sz) (auto simp: kdefs Let_def intro!: bal)

lemma balanced_push_args [bal]:
  "curproc s = c \<Longrightarrow> locks s = [] \<Longrightarrow> kernel_ok s \<Longrightarrow> balanced c [] (push_args pt base as sp us s)"
  by (induction as arbitrary: s sp us) (auto simp: kdefs Let_def intro!: bal)

lemma balanced_push_ustack [bal]: "curproc s = c \<Longrightarrow> locks s = [] \<Longrightarrow> kernel_ok s \<Longrightarrow> balanced c [] (push_ustack pt base sp us s)"
  by (auto simp: push_ustack_def kdefs Let_def intro!: bal)

lemma balanced_exec_bad [bal]: "curproc s = c \<Longrightarrow> locks s = [] \<Longrightarrow> kernel_ok s \<Longrightarrow> balanced c [] (exec_bad pt sz ip s)"
  by (auto simp: exec_bad_def kdefs intro!: bal split: option.splits)

lemma balanced_exec_commit [bal]:
  "curproc s = c \<Longrightarrow> locks s = [] \<Longrightarrow> kernel_ok s \<Longrightarrow> balanced c [] (exec_commit p path pt sz e sp n s)"
  by (auto simp: exec_commit_def kdefs Let_def intro!: bal)

lemma balanced_exec_stack [bal]:
  "curproc s = c \<Longrightarrow> locks s = [] \<Longrightarrow> kernel_ok s \<Longrightarrow> balanced c [] (exec_stack p path argv pt sz e s)"
  by (auto simp: exec_stack_def kdefs Let_def intro!: bal split: option.splits)

lemma balanced_kexec [bal]: "curproc s = c \<Longrightarrow> locks s = [] \<Longrightarrow> kernel_ok s \<Longrightarrow> balanced c [] (kexec path argv s)"
  by (auto simp: kexec_def kdefs Let_def intro!: bal split: option.splits)

section \<open>System calls\<close>

lemma balanced_fetchaddr [bal]: "curproc s = c \<Longrightarrow> locks s = [] \<Longrightarrow> kernel_ok s \<Longrightarrow> balanced c [] (fetchaddr addr s)"
  by (auto simp: fetchaddr_def kdefs intro!: bal)

lemma balanced_fetchstr [bal]: "curproc s = c \<Longrightarrow> locks s = [] \<Longrightarrow> kernel_ok s \<Longrightarrow> balanced c [] (fetchstr addr mx s)"
  by (auto simp: fetchstr_def kdefs intro!: bal)

lemma balanced_argstr [bal]: "curproc s = c \<Longrightarrow> locks s = [] \<Longrightarrow> kernel_ok s \<Longrightarrow> balanced c [] (argstr n mx s)"
  by (auto simp: argstr_def kdefs intro!: bal)

lemma balanced_argfd [bal]: "curproc s = c \<Longrightarrow> locks s = [] \<Longrightarrow> kernel_ok s \<Longrightarrow> balanced c [] (argfd n s)"
  by (auto simp: argfd_def kdefs Let_def intro!: bal)

lemma argfd_val [vals]: "argfd n s = Ret (Some (fd, f)) t \<Longrightarrow> kernel_ok s \<Longrightarrow> locks s = [] \<Longrightarrow> f < NFILE"
proof -
  assume a: "argfd n s = Ret (Some (fd, f)) t" and s: "kernel_ok s" "locks s = []"
  obtain w u where w: "argint n s = Ret w u" using a by (auto simp: argfd_def kbind_Ret_iff)
  have u: "kernel_ok u" using balanced_RetD [OF w balanced_argint [OF refl s(2,1)]] by simp
  show ?thesis using a w kernel_ok_ptrs(2) [OF u] ofile_val [OF _ u]
    by (auto simp: argfd_def Let_def kbind_Ret_iff kdefs myproc_def split: if_splits option.splits)
qed

lemma filealloc_val [vals]: "filealloc s = Ret (Some f) t \<Longrightarrow> kernel_ok s \<Longrightarrow> f < NFILE"
  unfolding filealloc_def
  by (auto dest!: critical_RetD find_upt_less simp: kernel_ok_def simp del: kernel_ok_ptrs split: option.splits)

lemma pipealloc_val [vals]:
  assumes "pipealloc s = Ret (Some (f0, f1)) t" and "kernel_ok s" and "locks s = []"
  shows "f0 < NFILE \<and> f1 < NFILE"
proof -
  obtain u v where 1: "filealloc s = Ret (Some f0) u" "filealloc u = Ret (Some f1) v"
    using assms(1) by (auto simp: pipealloc_def pipe_bad_def kbind_Ret_iff kthen_Ret_iff kdefs split: option.splits if_splits)
  then show ?thesis using balanced_RetD [OF 1(1) balanced_filealloc [OF refl]] assms(2,3) by (auto dest: vals)
qed

lemma balanced_fdalloc [bal]: "curproc s = c \<Longrightarrow> locks s = [] \<Longrightarrow> kernel_ok s \<Longrightarrow> f < NFILE \<Longrightarrow> balanced c [] (fdalloc f s)"
  by (auto simp: fdalloc_def intro!: bal split: option.splits)

lemma balanced_clear_fd [bal]: "curproc s = c \<Longrightarrow> locks s = [] \<Longrightarrow> kernel_ok s \<Longrightarrow> balanced c [] (clear_fd fd s)"
  by (auto simp: clear_fd_def kdefs intro!: bal)

lemma balanced_descriptors [bal]:
  assumes "curproc s = c" and "locks s = []" and "kernel_ok s"
  shows "balanced c [] (sys_dup s)" "balanced c [] (sys_read s)" "balanced c [] (sys_write s)" "balanced c [] (sys_close s)"
    "balanced c [] (sys_fstat pad s)"
  using assms
  by (auto simp: sys_dup_def sys_read_def sys_write_def sys_close_def sys_fstat_def kdefs intro!: bal split: option.splits dest!: vals)

lemma balanced_set_nlink [bal]: "curproc s = c \<Longrightarrow> locks s = [] \<Longrightarrow> kernel_ok s \<Longrightarrow> balanced c [] (set_nlink i g s)"
  by (auto simp: set_nlink_def kdefs intro!: bal)

lemma balanced_fail_op [bal]: "curproc s = c \<Longrightarrow> locks s = [] \<Longrightarrow> kernel_ok s \<Longrightarrow> balanced c [] (fail_op s)"
  by (auto simp: fail_op_def kdefs intro!: bal)

lemma balanced_link_bad [bal]: "curproc s = c \<Longrightarrow> locks s = [] \<Longrightarrow> kernel_ok s \<Longrightarrow> balanced c [] (link_bad ip s)"
  by (auto simp: link_bad_def kdefs intro!: bal)

lemma balanced_sys_link [bal]: "curproc s = c \<Longrightarrow> locks s = [] \<Longrightarrow> kernel_ok s \<Longrightarrow> balanced c [] (sys_link s)"
  by (auto simp: sys_link_def kdefs intro!: bal split: option.splits)

lemma balanced_isdirempty_loop [bal]: "curproc s = c \<Longrightarrow> locks s = [] \<Longrightarrow> kernel_ok s \<Longrightarrow> balanced c [] (isdirempty_loop dp offs s)"
  by (induction offs arbitrary: s) (auto simp: kdefs intro!: bal)

lemma balanced_isdirempty [bal]: "curproc s = c \<Longrightarrow> locks s = [] \<Longrightarrow> kernel_ok s \<Longrightarrow> balanced c [] (isdirempty dp s)"
  by (auto simp: isdirempty_def intro!: bal)

lemma balanced_unlink_bad [bal]: "curproc s = c \<Longrightarrow> locks s = [] \<Longrightarrow> kernel_ok s \<Longrightarrow> balanced c [] (unlink_bad dp s)"
  by (auto simp: unlink_bad_def intro!: bal)

lemma balanced_unlink_entry [bal]: "curproc s = c \<Longrightarrow> locks s = [] \<Longrightarrow> kernel_ok s \<Longrightarrow> balanced c [] (unlink_entry dp ip off s)"
  by (auto simp: unlink_entry_def kdefs intro!: bal)

lemma balanced_sys_unlink [bal]: "curproc s = c \<Longrightarrow> locks s = [] \<Longrightarrow> kernel_ok s \<Longrightarrow> balanced c [] (sys_unlink s)"
  by (auto simp: sys_unlink_def kdefs intro!: bal split: option.splits)

lemma balanced_create_fail [bal]: "curproc s = c \<Longrightarrow> locks s = [] \<Longrightarrow> kernel_ok s \<Longrightarrow> balanced c [] (create_fail dp ip s)"
  by (auto simp: create_fail_def kdefs intro!: bal)

lemma balanced_dot_entries [bal]: "curproc s = c \<Longrightarrow> locks s = [] \<Longrightarrow> kernel_ok s \<Longrightarrow> balanced c [] (dot_entries dp ip s)"
  by (auto simp: dot_entries_def kdefs intro!: bal)

lemma balanced_create_new [bal]:
  "curproc s = c \<Longrightarrow> locks s = [] \<Longrightarrow> kernel_ok s \<Longrightarrow> balanced c [] (create_new dp ip name ty major minor s)"
  by (auto simp: create_new_def kdefs intro!: bal)

lemma balanced_create [bal]: "curproc s = c \<Longrightarrow> locks s = [] \<Longrightarrow> kernel_ok s \<Longrightarrow> balanced c [] (create path ty major minor s)"
  by (auto simp: create_def kdefs intro!: bal split: option.splits)

lemma balanced_open_inode [bal]: "curproc s = c \<Longrightarrow> locks s = [] \<Longrightarrow> kernel_ok s \<Longrightarrow> balanced c [] (open_inode path omode s)"
  by (auto simp: open_inode_def kdefs intro!: bal split: option.splits)

lemma create_new_val: "create_new dp ip name ty ma mi s = Ret (Some j) t \<Longrightarrow> j = ip"
  by (auto simp: create_new_def create_fail_def kthen_Ret_iff kbind_Ret_iff kdefs split: if_splits)

lemma create_val [vals]:
  assumes c: "create path ty ma mi s = Ret (Some ip) t" and s: "kernel_ok s" "locks s = []"
  shows "ip < NINODE"
proof -
  obtain dp name u where u: "nameiparent path s = Ret (Some dp, name) u"
    using c by (auto simp: create_def kbind_Ret_iff kdefs split: option.splits)
  obtain v where v: "ilock (Some dp) u = Ret () v"
    using c u by (auto simp: create_def kbind_Ret_iff kthen_Ret_iff)
  obtain r w where w: "dirlookup dp name v = Ret r w"
    using c u v by (auto simp: create_def kbind_Ret_iff)
  have "locks u = [] \<and> kernel_ok u" using balanced_RetD [OF u balanced_nameiparent [OF refl]] s by blast
  then have v': "locks v = [] \<and> kernel_ok v" using balanced_RetD [OF v balanced_ilock [OF refl]] by blast
  then have w': "locks w = [] \<and> kernel_ok w" using balanced_RetD [OF w balanced_dirlookup [OF refl]] by blast
  show ?thesis
  proof (cases r)
    case None
    then show ?thesis using c u v w w'
      by (auto simp: create_def kbind_Ret_iff kthen_Ret_iff kdefs split: option.splits dest!: create_new_val ialloc_val)
  next
    case (Some q)
    then have "fst q = ip" using c u v w
      by (auto simp: create_def kbind_Ret_iff kthen_Ret_iff kdefs split: prod.splits if_splits)
    then show ?thesis using dirlookup_val [of dp name v ip "snd q" w] w v' Some by (cases q) auto
  qed
qed

lemma open_inode_val [vals]: "open_inode path omode s = Ret (Some ip) t \<Longrightarrow> kernel_ok s \<Longrightarrow> locks s = [] \<Longrightarrow> ip < NINODE"
  by (auto simp: open_inode_def kbind_Ret_iff kthen_Ret_iff kdefs split: if_splits option.splits dest: vals)

lemma file_ok_open [simp]: "file_ok f \<Longrightarrow> ip < NINODE \<Longrightarrow> file_ok (open_file ino ip omode f)"
  by (simp add: file_ok_def open_file_def Let_def)

lemma balanced_open_finish [bal]: "curproc s = c \<Longrightarrow> locks s = [] \<Longrightarrow> kernel_ok s \<Longrightarrow> ip < NINODE \<Longrightarrow> balanced c [] (open_finish ip f fd omode s)"
  by (auto simp: open_finish_def kdefs intro!: bal)

lemma balanced_sys_open [bal]: "curproc s = c \<Longrightarrow> locks s = [] \<Longrightarrow> kernel_ok s \<Longrightarrow> balanced c [] (sys_open s)"
  by (auto simp: sys_open_def kdefs Let_def intro!: bal split: option.splits dest!: vals)

lemma balanced_sys_mkdir [bal]: "curproc s = c \<Longrightarrow> locks s = [] \<Longrightarrow> kernel_ok s \<Longrightarrow> balanced c [] (sys_mkdir s)"
  by (auto simp: sys_mkdir_def kdefs intro!: bal split: option.splits)

lemma balanced_sys_mknod [bal]: "curproc s = c \<Longrightarrow> locks s = [] \<Longrightarrow> kernel_ok s \<Longrightarrow> balanced c [] (sys_mknod s)"
  by (auto simp: sys_mknod_def kdefs intro!: bal split: option.splits)

lemma balanced_sys_chdir [bal]: "curproc s = c \<Longrightarrow> locks s = [] \<Longrightarrow> kernel_ok s \<Longrightarrow> balanced c [] (sys_chdir s)"
  by (auto simp: sys_chdir_def kdefs intro!: bal split: option.splits dest!: vals)

lemma balanced_exec_args [bal]: "curproc s = c \<Longrightarrow> locks s = [] \<Longrightarrow> kernel_ok s \<Longrightarrow> balanced c [] (exec_args uargv i k argv s)"
  by (induction k arbitrary: s i argv) (auto simp: kdefs intro!: bal split: option.splits)

lemma balanced_sys_exec [bal]: "curproc s = c \<Longrightarrow> locks s = [] \<Longrightarrow> kernel_ok s \<Longrightarrow> balanced c [] (sys_exec s)"
  by (auto simp: sys_exec_def kdefs intro!: bal split: option.splits)

lemma balanced_pipe_undo [bal]: "curproc s = c \<Longrightarrow> locks s = [] \<Longrightarrow> kernel_ok s \<Longrightarrow> balanced c [] (pipe_undo a b r w s)"
  by (auto simp: pipe_undo_def kdefs intro!: bal split: option.splits)

lemma balanced_sys_pipe [bal]: "curproc s = c \<Longrightarrow> locks s = [] \<Longrightarrow> kernel_ok s \<Longrightarrow> balanced c [] (sys_pipe s)"
  by (auto simp: sys_pipe_def kdefs intro!: bal split: option.splits dest!: vals)

lemma balanced_pause_wait [bal]:
  assumes "curproc s = c" and "locks s = [TicksLock]" and "kernel_ok s"
  shows "balanced c [] (pause_wait ticks0 n s)"
  using assms unfolding pause_wait_def
  by (auto simp: kdefs intro!: balanced_kbind [OF _ balanced_myproc] balanced_kbind [OF _ balanced_killed] balanced_sleep_kthen balanced_Ret)

lemma balanced_sys_pause [bal]:
  assumes "curproc s = c" and "locks s = []" and "kernel_ok s"
  shows "balanced c [] (sys_pause s)"
proof -
  have "balanced c [] (kthen (kacquire TicksLock) (\<lambda>s. pause_wait (ticks s) n s) t)"
    if "curproc t = c" "locks t = []" "kernel_ok t" for n and t :: "'a life_st_scheme" using that by (simp add: balanced_pause_wait)
  then show ?thesis using assms unfolding sys_pause_def Let_def
    by (intro balanced_kbind [OF _ balanced_argint]) simp_all
qed

lemma balanced_processes [bal]:
  assumes "curproc s = c" and "locks s = []" and "kernel_ok s"
  shows "balanced c [] (sys_kps s)" "balanced c [] (sys_exit s)" "balanced c [] (sys_getpid s)" "balanced c [] (sys_fork s)"
    "balanced c [] (sys_wait s)" "balanced c [] (sys_sbrk s)" "balanced c [] (sys_kill s)"
    "balanced c [] (sys_uptime s)" "balanced c [] (sys_setquota s)"
  using assms
  by (auto simp: sys_kps_def sys_exit_def sys_getpid_def sys_fork_def sys_wait_def sys_sbrk_def sys_kill_def
      sys_uptime_def sys_setquota_def kdefs Let_def intro!: bal split: option.splits)

lemma balanced_syscalls: "Some f \<in> set (syscalls pad) \<Longrightarrow> curproc s = c \<Longrightarrow> locks s = [] \<Longrightarrow> kernel_ok s \<Longrightarrow> balanced c [] (f s)"
  by (auto simp: syscalls_def intro!: bal)

lemma nth_int_mem: "0 < n \<Longrightarrow> n < int (length xs) \<Longrightarrow> xs ! nat n = y \<Longrightarrow> y \<in> set xs"
  by (auto simp: set_conv_nth intro!: exI [of _ "nat n"])

lemma balanced_syscall [bal]: "curproc s = c \<Longrightarrow> locks s = [] \<Longrightarrow> kernel_ok s \<Longrightarrow> balanced c [] (syscall pad s)"
  by (auto simp: syscall_def Let_def intro!: bal balanced_syscalls [OF nth_int_mem])

lemma kernel_ok_trap_updates [simp]: "kernel_ok (s\<lparr>csr := x\<rparr>) = kernel_ok s" "kernel_ok (s\<lparr>irq_done := y\<rparr>) = kernel_ok s"
  by (simp_all add: kernel_ok_def del: kernel_ok_ptrs)

lemma balanced_clockintr [bal]: "curproc s = c \<Longrightarrow> locks s = [] \<Longrightarrow> kernel_ok s \<Longrightarrow> balanced c [] (clockintr s)"
  by (auto simp: clockintr_def upd_csr_def kdefs intro!: bal)

section \<open>The properties\<close>

text \<open>A process whose trapframe asks for system call 14, \<open>uptime\<close>.\<close>

definition ex_sys :: life_st where
  "ex_sys = \<lparr>locks = [], uart_out = [], panicking = False, panicked = False,
     pmem = store64 (\<lambda>_. 0) (0x1000 + TF_A7) 14, freelist = 0, kend = 0x80020000,
     procs = zero_proc\<lparr>p_state := RUNNING, p_trapframe := 0x1000\<rparr> # replicate (NPROC - 1) zero_proc,
     curproc = Some 0, initproc = Some 0, nextpid = 2, ticks = 42, quota_window_start = 0, eco_mode = 0,
     con = \<lparr>c_buf = replicate INPUT_BUF_SIZE 0, c_r = 0, c_w = 0, c_e = 0\<rparr>, tx_busy = False,
     disk = (\<lambda>_ _. 0), dhist = [],
     bufs = replicate (Suc NBUF) \<lparr>b_valid = False, b_disk = False, b_dev = 0, b_blockno = 0, b_refcnt = 0, b_prev = 0, b_next = 0,
       b_data = (\<lambda>_. 0)\<rparr>,
     slocks = replicate (NBUF + NINODE) \<lparr>sl_locked = False, sl_pid = 0\<rparr>, log_start = 2, log_outstanding = 0,
     log_committing = False, log_dev = 1, lh_n = 0, lh_block = replicate LOGBLOCKS 0,
     fs_sb = \<lparr>sb_magic = 0, sb_size = 0, sb_nblocks = 0, sb_ninodes = 0, sb_nlog = 0, sb_logstart = 0, sb_inodestart = 0,
       sb_bmapstart = 0\<rparr>,
     itable = replicate NINODE \<lparr>i_dev = 0, i_inum = 0, i_ref = 0, i_valid = False, i_type = 0, i_major = 0, i_minor = 0,
       i_nlink = 0, i_size = 0, i_addrs = replicate (NDIRECT + 1) 0\<rparr>,
     ftable = replicate NFILE \<lparr>f_type = FD_NONE, f_ref = 0, f_readable = False, f_writable = False, f_pipe = 0, f_ip = None,
       f_off = 0, f_major = 0\<rparr>,
     pipes = (\<lambda>_. pipe_init (replicate PIPESIZE 0)),
     ksyms = \<lparr>sym_trampoline = 0x80006000, sym_uservec = 0x80006000, sym_userret = 0x8000609c, sym_kernelvec = 0x80005000,
       sym_usertrap = 0x80002000, sym_forkret = 0x80001800, sym_etext = 0x80007000\<rparr>, forkret_first = False,
     kernel_pagetable = 0\<rparr>"

lemma ex_sys_ok: "kernel_ok ex_sys"
  by (simp add: kernel_ok_def ex_sys_def proc_ok_def ofile_ok_def inode_ok_def file_ok_def zero_proc_def param_defs)


lemma ex_sys_uptime: "\<exists>t. syscall [] ex_sys = Ret () t \<and> load64 (pmem t) (0x1000 + TF_A0) = 42"
proof -
  have tf: "p_trapframe (procs ex_sys ! 0) = 0x1000" "curproc ex_sys = Some 0" "locks ex_sys = []" "ticks ex_sys = 42"
    by (simp_all add: ex_sys_def)
  have a7: "load64 (pmem ex_sys) (0x1000 + TF_A7) = 14" by (simp add: ex_sys_def mem_simps)
  have up: "sys_uptime ex_sys = Ret 42 ex_sys" using tf by (simp add: sys_uptime_def critical_Ret kget_def)
  have "syscall [] ex_sys = set_tf 0 TF_A0 42 ex_sys"
    using tf a7 up by (simp add: syscall_def myproc_def get_tf_def syscalls_def)
  then show ?thesis using tf by (simp add: set_tf_def kput_def mem_simps)
qed




end
