(* ===== verification/Locktrap.thy ===== *)
theory Locktrap
  imports Locksys
begin

text \<open>
  The contract of the theory \<open>Locking\<close> for interrupts and traps: the disk interrupt, the
  clock, the accounting of ticks, and the two handlers of traps.
\<close>

lemma kernel_ok_vd [simp]: "kernel_ok (upd_vd f s) = kernel_ok s" "locks (upd_vd f s) = locks s" "curproc (upd_vd f s) = curproc s"
  by (simp_all add: kernel_ok_def upd_vd_def del: kernel_ok_ptrs)

lemma upd_buf_locks [simp]: "locks (upd_buf b f s) = locks s" "curproc (upd_buf b f s) = curproc s"
  by (simp_all add: upd_buf_def)

lemma balanced_wreg [bal]: "curproc s = c \<Longrightarrow> locks s = L \<Longrightarrow> kernel_ok s \<Longrightarrow> balanced c L (wreg r v s)"
  by (auto simp: wreg_def kdefs intro!: bal)

lemma balanced_intr_one [bal]:
  "curproc s = c \<Longrightarrow> locks s = L \<Longrightarrow> kernel_ok s \<Longrightarrow> no_proclock L \<Longrightarrow> balanced c L (intr_one s)"
  by (auto simp: intr_one_def kdefs Let_def intro!: bal split: option.splits)

lemma balanced_intr_loop [bal]:
  "curproc s = c \<Longrightarrow> locks s = L \<Longrightarrow> kernel_ok s \<Longrightarrow> no_proclock L \<Longrightarrow> balanced c L (intr_loop n s)"
  by (induction n arbitrary: s) (auto intro!: bal)

lemma balanced_virtio_disk_intr [bal]:
  "curproc s = c \<Longrightarrow> locks s = [] \<Longrightarrow> kernel_ok s \<Longrightarrow> balanced c [] (virtio_disk_intr dev s)"
  by (auto simp: virtio_disk_intr_def intro!: bal)

lemma balanced_devintr [bal]:
  "curproc s = c \<Longrightarrow> locks s = [] \<Longrightarrow> kernel_ok s \<Longrightarrow> balanced c [] (devintr dev irq idle cs s)"
  by (auto simp: devintr_def kdefs intro!: bal)

lemma charge_ok: "charge_proc (procs t ! i) = (q, b) \<Longrightarrow> kernel_ok t \<Longrightarrow> curproc t = Some i \<Longrightarrow> proc_ok q"
  using kernel_ok_proc [of t i] kernel_ok_ptrs(2) [of t] by (auto simp: charge_proc_def Let_def split: if_splits)

lemma balanced_quota_tick [bal]: "curproc s = c \<Longrightarrow> locks s = [] \<Longrightarrow> kernel_ok s \<Longrightarrow> balanced c [] (quota_tick s)"
  by (auto simp: quota_tick_def kdefs intro!: bal intro: charge_ok split: option.splits prod.splits)

lemma balanced_timer_tick [bal]: "curproc s = c \<Longrightarrow> locks s = [] \<Longrightarrow> kernel_ok s \<Longrightarrow> balanced c [] (timer_tick s)"
  by (auto simp: timer_tick_def intro!: bal)

lemma balanced_csr [bal]:
  "curproc s = c \<Longrightarrow> locks s = L \<Longrightarrow> kernel_ok s \<Longrightarrow> balanced c L (upd_csr f s)"
  "curproc s = c \<Longrightarrow> locks s = L \<Longrightarrow> kernel_ok s \<Longrightarrow> balanced c L (intr_on s)"
  "curproc s = c \<Longrightarrow> locks s = L \<Longrightarrow> kernel_ok s \<Longrightarrow> balanced c L (intr_off s)"
  "curproc s = c \<Longrightarrow> locks s = L \<Longrightarrow> kernel_ok s \<Longrightarrow> balanced c L (trapinithart s)"
  by (auto simp: upd_csr_def intr_on_def intr_off_def trapinithart_def kdefs intro!: bal)

lemma balanced_return_to_user [bal]:
  "curproc s = c \<Longrightarrow> locks s = [] \<Longrightarrow> kernel_ok s \<Longrightarrow> balanced c [] (prepare_return s)"
  "curproc s = c \<Longrightarrow> locks s = [] \<Longrightarrow> kernel_ok s \<Longrightarrow> balanced c [] (return_to_user p s)"
  by (auto simp: return_to_user_def prepare_return_def kdefs intro!: bal)

lemma balanced_usertrap_cause [bal]:
  "curproc s = c \<Longrightarrow> locks s = [] \<Longrightarrow> kernel_ok s \<Longrightarrow> balanced c [] (usertrap_cause dev pad irq idle cs p s)"
  by (auto simp: usertrap_cause_def kdefs intro!: bal)

lemma balanced_usertrap: "curproc s = c \<Longrightarrow> locks s = [] \<Longrightarrow> kernel_ok s \<Longrightarrow> balanced c [] (usertrap dev pad irq idle cs s)"
  by (auto simp: usertrap_def kdefs lock_panics_def intro!: bal)

lemma balanced_kerneltrap: "curproc s = c \<Longrightarrow> locks s = [] \<Longrightarrow> kernel_ok s \<Longrightarrow> balanced c [] (kerneltrap dev irq idle cs s)"
  by (auto simp: kerneltrap_def kdefs Let_def intro!: bal)

section \<open>The property\<close>


text \<open>An interrupt of the disk, with no completion to look at, while the kernel runs.\<close>

definition ex_trap :: trap_st where
  "ex_trap = virt_st.extend (life_st.extend ex_sys
     (virt_st.fields \<lparr>v_desc = replicate NUM zero_desc, av_idx = 0, av_ring = replicate NUM 0, us_idx = 0, us_ring = replicate NUM 0,
        v_free = replicate NUM True, v_used_idx = 0, v_info_b = replicate NUM None, v_info_status = replicate NUM 0,
        v_ops = replicate NUM \<lparr>q_type = 0, q_reserved = 0, q_sector = 0\<rparr>, v_pages = (0, 0, 0), v_regs = []\<rparr>))
      (trap_st.fields \<lparr>scause = 0x8000000000000009, sepc = 0x80001000, stval = 0, sstatus = SSTATUS_SPP, stvec = 0x80005000,
        satp = 0, tp = 0, time = 0, stimecmp = 0\<rparr> [])"

lemma ex_trap_ok: "kernel_ok ex_trap" "locks ex_trap = []"
  using ex_sys_ok by (simp_all add: ex_trap_def kernel_ok_def life_st.defs virt_st.defs trap_st.defs ex_sys_def)

lemma ex_trap_disk: "\<exists>t. kerneltrap (\<lambda>_ _. 1) VIRTIO0_IRQ False [] ex_trap = Ret () t \<and> irq_done t = [VIRTIO0_IRQ]"
proof -
  have f: "locks ex_trap = []" "vd ex_trap = \<lparr>v_desc = replicate NUM zero_desc, av_idx = 0, av_ring = replicate NUM 0, us_idx = 0, us_ring = replicate NUM 0,
        v_free = replicate NUM True, v_used_idx = 0, v_info_b = replicate NUM None, v_info_status = replicate NUM 0,
        v_ops = replicate NUM \<lparr>q_type = 0, q_reserved = 0, q_sector = 0\<rparr>, v_pages = (0, 0, 0), v_regs = []\<rparr>"
    "scause (csr ex_trap) = 0x8000000000000009" "sstatus (csr ex_trap) = SSTATUS_SPP" "irq_done ex_trap = []"
    by (simp_all add: ex_trap_def life_st.defs virt_st.defs trap_st.defs ex_sys_def)
  have "\<exists>t. virtio_disk_intr (\<lambda>_ _. 1) ex_trap = Ret () t \<and> irq_done t = []"
    using f by (simp add: virtio_disk_intr_def critical_Ret wreg_def kput_def upd_vd_def)
  then obtain t where t: "virtio_disk_intr (\<lambda>_ _. 1) ex_trap = Ret () t" "irq_done t = []" by blast
  show ?thesis using f t by (simp add: kerneltrap_def devintr_def Let_def intr_get_def SSTATUS_SPP_def SSTATUS_SIE_def UART0_IRQ_def
        VIRTIO0_IRQ_def kput_def kret_def upd_csr_def kthen_def kbind_def)
qed


end
