(* ===== verification/Spec2Isabelle.thy ===== *)
theory Spec2Isabelle
  imports Cstring Spinlock Klock Printf Kalloc Proc Sched Smp Ring Peterson Console Vm Pagetable Mapping_spec Usercopy Shell Shrun Grep Bio Cache Log Trans Fs Balloc File Life Exec Sysfile Virtio Vdisk Trap Locking Locksys Locktrap
begin

text \<open>
  Verification of the xv6 kernel of this repository: the RISC-V teaching kernel with
  CPU quotas per process, a first-come first-served rule for the children of
  \<open>schedtest\<close>, pipes that use Peterson's algorithm, and the system call \<open>kps\<close>;
  and of the user programs \<open>sh\<close> and \<open>grep\<close> that run on it.

  \<^bold>\<open>The program.\<close>  User programs enter the kernel by a trap (kernel/trap.c), which
  dispatches system calls (kernel/syscall.c, sysproc.c, sysfile.c), page faults and
  device interrupts.  System calls work on processes (proc.c, exec.c), user memory (vm.c
  on the page allocator kalloc.c), open files and pipes (file.c, pipe.c) and the file
  system (fs.c).  The file system reads and writes blocks through the log (log.c), the log
  through the buffer cache (bio.c), the cache through the disk driver (virtio_disk.c).
  All of it is protected by spin locks and sleep locks (spinlock.c, sleeplock.c), on
  several CPUs that the scheduler of proc.c hands the processes to.

  \<^bold>\<open>How the code is written down.\<close>  A kernel routine is a function from a state to an
  \<open>outcome\<close> (Prelude): \<open>Ret v s\<close> when it returns, \<open>Panic\<close> with the message for a call of
  \<open>panic\<close>, \<open>Sleep s\<close> when it gives up the CPU in \<open>sched\<close>.  The state is a record that
  grows with the components: locks, output, memory, processes, console, buffers, log,
  file system, files, process life, disk driver, trap registers.  A later theory extends
  the record of an earlier one, and every routine works on all extensions.  Machine
  integers are words of their width, memory is a function from 64-bit addresses to bytes,
  a pointer into a table is its index.  The locks a routine holds are a list in the state
  (Klock); taking one that is held and releasing one that is not are panics, as in the
  source.  What runs at the same time as the routine is written as a step relation where
  a theorem is about the interleaving (Spinlock, Smp, Sched, Peterson, Vdisk).

  \<^bold>\<open>Theories and sources.\<close>
  \<^item> Prelude, Riscv: words, outcomes, loads and stores; param.h, riscv.h, memlayout.h, fcntl.h.
  \<^item> Cstring: string.c and the string routines of user/ulib.c.
  \<^item> Ring: the locale of ring buffers with wrapping counters, interpreted for pipes
    (Peterson), the console (Console) and the queues of the disk (Vdisk).
  \<^item> Spinlock: spinlock.c on any number of CPUs.  Klock: the same locks as one routine sees
    them; the locale \<open>mutex\<close> is interpreted on both levels.
  \<^item> Printf: printf.c and the output path.  Console: console.c and uart.c.
  \<^item> Kalloc: kalloc.c and the locale \<open>page_allocator\<close>.
  \<^item> Vm: vm.c.  Pagetable, Mapping_spec, Usercopy: page tables as functions from virtual
    addresses, and user memory as the user sees it.
  \<^item> Proc, Sched, Smp, Life: proc.c and proc.h, the accounting of trap.c, setquota.
  \<^item> Bio, Cache: sleeplock.c, bio.c, and the locale \<open>buffer_cache\<close>.
  \<^item> Log, Trans: log.c, and the locale \<open>transaction\<close>.
  \<^item> Fs, Balloc: fs.c, fs.h, and the free map.
  \<^item> File, Peterson: file.c, pipe.c.
  \<^item> Exec: exec.c, elf.h.  Sysfile: syscall.c, sysfile.c, sysproc.c.  Trap: trap.c.
  \<^item> Virtio, Vdisk: virtio_disk.c, and its work with the device.
  \<^item> Locking, Locksys, Locktrap: the contract that every routine of the kernel keeps.
  \<^item> Shell, Shrun: user/sh.c.  Grep: user/grep.c.

  \<^bold>\<open>What is shown.\<close>
  \<^item> Scheduling: no process is charged more ticks in a window than its quota, the choice of
    the scheduler, progress at the end of a window, the effect of setquota (Sched).
  \<^item> Concurrency: mutual exclusion of spin locks, no process runs on two CPUs, no wakeup is
    lost, exclusion and order of delivery in pipes; two writers of one pipe are not
    excluded from each other (Spinlock, Smp, Peterson).
  \<^item> Memory: pages are never handed out twice, kinit frees all of them, mappages is an
    update of the address map, copyout and copyin agree (Kalloc, Mapping_spec, Usercopy).
  \<^item> Storage: the driver with the device is a disk with atomic transfers and every request
    can complete; reading through the cache sees the last write; a commit is atomic under
    crashes; the free map (Vdisk, Bio, Log, Balloc).  \<open>disk_transfer\<close> of Bio is the
    specification that Vdisk shows the driver to refine.
  \<^item> The whole kernel: every system call and every trap keeps the state well formed, returns
    with the locks it was called with and never runs into a panic for misuse of locks.
  \<^item> The line discipline of the console, formatted output, kps, string routines.
  \<^item> The shell parses every line and inverts printing, \<open>runcmd\<close> connects descriptors as the
    command says, grep decides its pattern language and prints the matching lines.

  \<^bold>\<open>Bounds.\<close>  Loops over tables are recursions over their lists, of the lengths of param.h.
  Loops over addresses in Vm carry a count: for \<open>mappages\<close>, \<open>copyout\<close> and \<open>copyin\<close> it is
  shown to suffice.  The loop of the disk interrupt and that along a chain of descriptors
  have one too, shown to suffice in Vdisk.  The recursion of the shell's parser is bounded by the
  length of the line, shown to suffice in Shell.  Loops that wait end in \<open>Sleep\<close> and are
  entered again; loops that poll a register take what it reads as an argument.

  \<^bold>\<open>Parameters.\<close>  The device behind the disk registers (\<open>dev\<close>, \<open>serve\<close>), what the UART
  received, what the interrupt controller reports, the registers that a trap sets, what
  the stack held in the padding of a structure, and the addresses that the linker
  chooses are arguments or fields of the state.

  \<^bold>\<open>Not modelled.\<close>  The boot code (start.c, main.c), the interrupt controller (plic.c) and
  kvminithart only store to machine registers.  Assembly (entry.S, swtch.S, trampoline.S,
  kernelvec.S) is outside the C code; \<open>swtch\<close> is the outcome \<open>Sleep\<close>.  The memory model is
  sequentially consistent.  The image builder mkfs, the test programs and the small
  command line programs are not part of the development.
\<close>

end
